(* ===== verification/Prelude.thy ===== *)
theory Prelude
  imports Main "HOL-Library.Word" "HOL-Library.Monad_Syntax"
begin

text \<open>
  Shared vocabulary of the development: the machine integers of the Rust sources, outcomes of
  Rust functions (value, \<open>Err\<close>, panic or undefined behaviour), little-endian integers, raw
  memory reads and writes inside one buffer, and the generic list lemmas the components use.

  Arithmetic follows the release profile (the profile the makefile and the Dockerfiles build):
  fixed-width integers wrap around, array indexing and \<open>unwrap\<close> panic.
  \<open>usize\<close> values that are lengths, offsets or counts of in-memory data are \<open>nat\<close>.
\<close>

section \<open>Machine integers and strings\<close>

text \<open>A \<open>String\<close> is the list of its UTF-8 bytes, one \<open>char\<close> per byte.\<close>

type_synonym u8 = "8 word"
type_synonym u16 = "16 word"
type_synonym u32 = "32 word"
type_synonym u64 = "64 word"

text \<open>\<open>i64\<close> is read through \<open>sint\<close>; the same bits are kept by \<open>as\<close> casts.\<close>
type_synonym i64 = "64 word"

type_synonym bytes = "8 word list"

named_theorems le_simps \<open>little-endian encodings\<close>
named_theorems mem_simps \<open>reads and writes of raw memory\<close>

section \<open>Outcomes\<close>

text \<open>
  A Rust function with result type \<open>Result<T, E>\<close> ends in \<open>Ok\<close>, in \<open>Err\<close>, or does not
  return normally: a panic (an index out of range, \<open>unwrap\<close> on nothing, an impossible capacity,
  an inverted range, a route the web framework refuses) or undefined behaviour (a raw pointer access
  outside its allocation).
\<close>

datatype fault =
    IndexPanic
  | UnwrapPanic
  | CapacityPanic
  | RangePanic
  | AllocPanic
  | RoutePanic
  | OutOfBounds

datatype ('e, 'a) result = Ok 'a | Err 'e | Fault fault

fun map_err :: "('e \<Rightarrow> 'f) \<Rightarrow> ('e, 'a) result \<Rightarrow> ('f, 'a) result" where
  "map_err f (Ok x) = Ok x"
| "map_err f (Err e) = Err (f e)"
| "map_err f (Fault p) = Fault p"

fun map_ok :: "('a \<Rightarrow> 'b) \<Rightarrow> ('e, 'a) result \<Rightarrow> ('e, 'b) result" where
  "map_ok f (Ok x) = Ok (f x)"
| "map_ok f (Err e) = Err e"
| "map_ok f (Fault p) = Fault p"

definition is_fault :: "('e, 'a) result \<Rightarrow> bool" where
  "is_fault r \<longleftrightarrow> (\<exists>p. r = Fault p)"

lemma is_fault_simps [simp]:
  "\<not> is_fault (Ok x)" "\<not> is_fault (Err e)" "is_fault (Fault p)"
  by (simp_all add: is_fault_def)

lemma is_fault_map_err [simp]: "is_fault (map_err f r) = is_fault r"
  by (cases r) simp_all

lemma is_fault_map_ok [simp]: "is_fault (map_ok f r) = is_fault r"
  by (cases r) simp_all

text \<open>
  \<open>Vec::with_capacity(n)\<close> panics when the \<open>n\<close> elements would take more than \<open>isize::MAX\<close> bytes.
  (A smaller request the machine cannot serve ends the process; that is not modelled.)
\<close>

definition with_capacity_ok :: "nat \<Rightarrow> nat \<Rightarrow> bool" where
  "with_capacity_ok elem_size n \<longleftrightarrow> elem_size * n \<le> 2 ^ 63 - 1"

section \<open>Little-endian integers\<close>

text \<open>\<open>to_le_bytes\<close> and \<open>from_le_bytes\<close>, least significant byte first.\<close>

primrec to_le :: "nat \<Rightarrow> nat \<Rightarrow> bytes" where
  "to_le 0 n = []"
| "to_le (Suc k) n = word_of_nat (n mod 256) # to_le k (n div 256)"

primrec from_le :: "bytes \<Rightarrow> nat" where
  "from_le [] = 0"
| "from_le (b # bs) = unat b + 256 * from_le bs"

definition u16_le :: "u16 \<Rightarrow> bytes" where
  "u16_le w = to_le 2 (unat w)"

definition u32_le :: "u32 \<Rightarrow> bytes" where
  "u32_le w = to_le 4 (unat w)"

definition u64_le :: "u64 \<Rightarrow> bytes" where
  "u64_le w = to_le 8 (unat w)"

definition u16_from_le :: "bytes \<Rightarrow> u16" where
  "u16_from_le bs = word_of_nat (from_le bs)"

definition u32_from_le :: "bytes \<Rightarrow> u32" where
  "u32_from_le bs = word_of_nat (from_le bs)"

definition u64_from_le :: "bytes \<Rightarrow> u64" where
  "u64_from_le bs = word_of_nat (from_le bs)"

lemma length_to_le [simp]: "length (to_le k n) = k"
  by (induction k arbitrary: n) simp_all

lemma unat_of_nat_byte: "unat (word_of_nat (n mod 256) :: u8) = n mod 256"
  by (simp add: unat_of_nat)

lemma from_le_to_le: "from_le (to_le k n) = n mod 256 ^ k"
proof (induction k arbitrary: n)
  case 0
  then show ?case by simp
next
  case (Suc k)
  have "n mod (256 * 256 ^ k) = 256 * (n div 256 mod 256 ^ k) + n mod 256"
    by (rule mod_mult2_eq)
  then show ?case by (simp add: Suc unat_of_nat_byte)
qed

lemma to_le_from_le: "to_le (length bs) (from_le bs) = bs"
proof (induction bs)
  case Nil
  then show ?case by simp
next
  case (Cons b bs)
  have "unat b < 256"
    using unsigned_less [of b] by simp
  then have "(unat b + 256 * from_le bs) mod 256 = unat b"
    and "(unat b + 256 * from_le bs) div 256 = from_le bs"
    by simp_all
  then show ?case by (simp add: Cons)
qed

lemma from_le_less: "from_le bs < 256 ^ length bs"
proof (induction bs)
  case Nil
  then show ?case by simp
next
  case (Cons b bs)
  have "unat b < 256"
    using unsigned_less [of b] by simp
  with Cons show ?case by simp
qed

lemma length_le [simp, le_simps]:
  "length (u16_le a) = 2" "length (u32_le b) = 4" "length (u64_le c) = 8"
  by (simp_all add: u16_le_def u32_le_def u64_le_def)

lemma le_roundtrip [simp, le_simps]:
  "u16_from_le (u16_le a) = a" "u32_from_le (u32_le b) = b" "u64_from_le (u64_le c) = c"
proof -
  have "unat a < 2 ^ LENGTH(16)" "unat b < 2 ^ LENGTH(32)" "unat c < 2 ^ LENGTH(64)"
    by (rule unsigned_less)+
  then have "unat a mod 256 ^ 2 = unat a" "unat b mod 256 ^ 4 = unat b" "unat c mod 256 ^ 8 = unat c"
    by simp_all
  then show "u16_from_le (u16_le a) = a" "u32_from_le (u32_le b) = b" "u64_from_le (u64_le c) = c"
    by (simp_all only: u16_from_le_def u16_le_def u32_from_le_def u32_le_def u64_from_le_def
        u64_le_def from_le_to_le of_nat_unat ucast_id)
qed

lemma le_not_Nil [simp]: "u16_le a \<noteq> []" "u32_le b \<noteq> []" "u64_le c \<noteq> []"
  by (metis length_le list.size(3) zero_neq_numeral)+

lemma unat_u32_length [simp]:
  "length xs < 2 ^ 32 \<Longrightarrow> unat (word_of_nat (length xs) :: u32) = length xs"
  by (simp add: unat_of_nat)

lemma unat_u16_length [simp]:
  "length xs < 2 ^ 16 \<Longrightarrow> unat (word_of_nat (length xs) :: u16) = length xs"
  by (simp add: unat_of_nat)

lemma word_less_plus_one: "(x :: 'a :: len word) \<noteq> - 1 \<Longrightarrow> x < x + 1"
  using measure_unat [of "x + 1"] by (simp add: word_less_nat_alt eq_neg_iff_add_eq_0)

lemma unat_plus_one: "(x :: 'a :: len word) \<noteq> - 1 \<Longrightarrow> unat (x + 1) = unat x + 1"
  using unatSuc [of x] by (simp add: add.commute eq_neg_iff_add_eq_0)

section \<open>Raw memory\<close>

text \<open>
  One allocation is a byte list. \<open>mem_write\<close> is \<open>ptr::copy_nonoverlapping\<close> into it and
  \<open>mem_read\<close> a copy out of it; \<open>None\<close> is an access outside the allocation.
\<close>

definition mem_write :: "nat \<Rightarrow> bytes \<Rightarrow> bytes \<Rightarrow> bytes option" where
  "mem_write off data buf =
     (if off + length data \<le> length buf
      then Some (take off buf @ data @ drop (off + length data) buf) else None)"

definition mem_read :: "nat \<Rightarrow> nat \<Rightarrow> bytes \<Rightarrow> bytes option" where
  "mem_read off n buf =
     (if off + n \<le> length buf then Some (take n (drop off buf)) else None)"

lemma mem_write_length [mem_simps]: "mem_write off data buf = Some buf' \<Longrightarrow> length buf' = length buf"
  by (auto simp: mem_write_def split: if_splits)

lemma mem_write_consecutive:
  "mem_write off a buf \<bind> mem_write (off + length a) b = mem_write off (a @ b) buf"
proof (cases "off + length a + length b \<le> length buf")
  case True
  then have "min (length buf) off = off" and "min (length buf) (off + length a) = off + length a"
    and "drop (length b + (off + length a)) buf = drop (off + (length a + length b)) buf"
    by (simp_all add: add.commute add.left_commute)
  with True show ?thesis by (simp add: mem_write_def)
next
  case False
  then show ?thesis by (auto simp: mem_write_def min_def)
qed

lemma mem_read_split:
  "mem_read off (n + m) buf = Some (a @ b) \<Longrightarrow> length a = n \<Longrightarrow>
   mem_read off n buf = Some a \<and> mem_read (off + n) m buf = Some b"
  by (auto simp: mem_read_def take_add add.commute [of off] split: if_splits)

lemma mem_read_length: "mem_read off n buf = Some bs \<Longrightarrow> length bs = n"
  by (auto simp: mem_read_def split: if_splits)

text \<open>Reads outside the written range do not see the write.\<close>

lemma mem_write_read_before:
  assumes "mem_write off data buf = Some buf'" and "o' + n \<le> off"
  shows "mem_read o' n buf' = mem_read o' n buf"
  using assms by (auto simp: mem_write_def mem_read_def take_drop min_def split: if_splits)

lemma mem_write_read_same:
  "mem_write off data buf = Some buf' \<Longrightarrow> mem_read off (length data) buf' = Some data"
  by (auto simp: mem_write_def mem_read_def split: if_splits)

lemma mem_write_in_bounds:
  "off + length data \<le> length buf \<Longrightarrow> \<exists>buf'. mem_write off data buf = Some buf'"
  by (simp add: mem_write_def)

section \<open>Generic list lemmas\<close>

lemma nth_list_update_if:
  "i < length xs \<Longrightarrow> (xs[i := x]) ! j = (if j = i then x else xs ! j)"
  by simp

lemma sorted_wrt_snocI:
  "sorted_wrt P xs \<Longrightarrow> (\<And>x. x \<in> set xs \<Longrightarrow> P x y) \<Longrightarrow> sorted_wrt P (xs @ [y])"
  by (auto simp: sorted_wrt_append)

lemma map_of_filter_key:
  "map_of (filter (\<lambda>(k, v). P k) xs) k = (if P k then map_of xs k else None)"
  by (induction xs) auto

lemma filter_key_map_fst: "map fst (filter (\<lambda>(k, v). P k) xs) = filter P (map fst xs)"
  by (induction xs) auto

lemma list_all2_filter:
  assumes "list_all2 P xs ys" and "\<And>x y. P x y \<Longrightarrow> Q x = R y"
  shows "list_all2 P (filter Q xs) (filter R ys)"
  using assms by (induction rule: list_all2_induct) auto

end
