(* ===== verification/Collections.thy ===== *)
theory Collections
  imports Prelude "HOL-Library.AList" "HOL-Library.Multiset"
begin

text \<open>
  The standard library's maps. \<open>HashMap\<close> and \<open>AHashMap\<close> are association lists with distinct
  keys whose list order carries no meaning: code that iterates over one takes the iteration
  order as a parameter (\<open>iter_ok\<close>). \<open>BTreeMap\<close> is an association list sorted by key, the order
  in which the Rust map iterates.

  The locale \<open>finite_map\<close> is the contract clients rely on, \<open>ordered_map\<close> extends it with the
  sorted iteration of \<open>BTreeMap\<close>; both are interpreted on the definitions below.
\<close>

section \<open>Interfaces\<close>

locale finite_map =
  fixes get :: "'m \<Rightarrow> 'k \<Rightarrow> 'v option"
    and put :: "'k \<Rightarrow> 'v \<Rightarrow> 'm \<Rightarrow> 'm"
    and del :: "'k \<Rightarrow> 'm \<Rightarrow> 'm"
    and keys :: "'m \<Rightarrow> 'k list"
    and invar :: "'m \<Rightarrow> bool"
  assumes get_put: "invar m \<Longrightarrow> get (put k v m) k' = (if k' = k then Some v else get m k')"
    and get_del: "invar m \<Longrightarrow> get (del k m) k' = (if k' = k then None else get m k')"
    and set_keys: "invar m \<Longrightarrow> set (keys m) = {k. get m k \<noteq> None}"
    and distinct_keys: "invar m \<Longrightarrow> distinct (keys m)"
    and invar_put: "invar m \<Longrightarrow> invar (put k v m)"
    and invar_del: "invar m \<Longrightarrow> invar (del k m)"
begin

lemma invar_del_all: "invar m \<Longrightarrow> invar (fold del ks m)"
  by (induction ks arbitrary: m) (simp_all add: invar_del)

lemma get_del_all: "invar m \<Longrightarrow> get (fold del ks m) k = (if k \<in> set ks then None else get m k)"
  by (induction ks arbitrary: m) (auto simp: invar_del get_del)

lemma length_keys: "invar m \<Longrightarrow> length (keys m) = card {k. get m k \<noteq> None}"
  using set_keys distinct_keys distinct_card by metis

lemma size_put:
  assumes "invar m"
  shows "length (keys (put k v m)) = (if get m k = None then Suc (length (keys m)) else length (keys m))"
proof -
  have fin: "finite {k. get m k \<noteq> None}"
    using set_keys [OF assms] by (metis List.finite_set)
  have eq: "{k'. get (put k v m) k' \<noteq> None} = insert k {k. get m k \<noteq> None}"
    using assms by (auto simp: get_put)
  show ?thesis
    using assms fin by (simp add: length_keys invar_put eq card_insert_if del: not_None_eq)
qed

lemma size_del:
  assumes "invar m"
  shows "length (keys (del k m)) = (if get m k = None then length (keys m) else length (keys m) - 1)"
proof -
  have fin: "finite {k. get m k \<noteq> None}"
    using set_keys [OF assms] by (metis List.finite_set)
  have eq: "{k'. get (del k m) k' \<noteq> None} = {k. get m k \<noteq> None} - {k}"
    using assms by (auto simp: get_del)
  show ?thesis
    using assms fin by (simp add: length_keys invar_del eq card_Diff_singleton_if del: not_None_eq)
qed

end

locale ordered_map = finite_map get put del keys invar
  for get :: "'m \<Rightarrow> 'k :: linorder \<Rightarrow> 'v option" and put del keys invar +
  assumes sorted_keys: "invar m \<Longrightarrow> sorted (keys m)"
begin

text \<open>Sorted duplicate-free key lists are determined by the key set.\<close>

lemma keys_unique:
  assumes "invar m" "sorted ks" "distinct ks" "set ks = {k. get m k \<noteq> None}"
  shows "keys m = ks"
  using assms set_keys distinct_keys sorted_keys by (metis sorted_distinct_set_unique)

lemma keys_put_max:
  assumes "invar m" and "\<forall>k' \<in> set (keys m). k' < k"
  shows "keys (put k v m) = keys m @ [k]"
proof (rule keys_unique)
  show "invar (put k v m)" using assms(1) by (rule invar_put)
  show "sorted (keys m @ [k])"
    using assms sorted_keys by (auto simp: sorted_append less_imp_le)
  show "distinct (keys m @ [k])"
    using assms distinct_keys by auto
  show "set (keys m @ [k]) = {k'. get (put k v m) k' \<noteq> None}"
    using assms(1) by (auto simp: set_keys get_put)
qed

lemma keys_del_all:
  assumes "invar m"
  shows "keys (fold del ks m) = filter (\<lambda>k. k \<notin> set ks) (keys m)"
proof (rule keys_unique)
  show "invar (fold del ks m)" using assms by (rule invar_del_all)
  show "sorted (filter (\<lambda>k. k \<notin> set ks) (keys m))"
    using assms sorted_keys by (simp add: sorted_wrt_filter)
  show "distinct (filter (\<lambda>k. k \<notin> set ks) (keys m))"
    using assms distinct_keys by simp
  show "set (filter (\<lambda>k. k \<notin> set ks) (keys m)) = {k. get (fold del ks m) k \<noteq> None}"
    using assms by (auto simp: set_keys get_del_all)
qed

end

section \<open>Hash maps\<close>

type_synonym ('k, 'v) hash_map = "('k \<times> 'v) list"

abbreviation hm_get :: "('k, 'v) hash_map \<Rightarrow> 'k \<Rightarrow> 'v option" where
  "hm_get \<equiv> map_of"

abbreviation hm_insert :: "'k \<Rightarrow> 'v \<Rightarrow> ('k, 'v) hash_map \<Rightarrow> ('k, 'v) hash_map" where
  "hm_insert \<equiv> AList.update"

abbreviation hm_remove :: "'k \<Rightarrow> ('k, 'v) hash_map \<Rightarrow> ('k, 'v) hash_map" where
  "hm_remove \<equiv> AList.delete"

definition hm_keys :: "('k, 'v) hash_map \<Rightarrow> 'k list" where
  "hm_keys m = map fst m"

definition hm_ok :: "('k, 'v) hash_map \<Rightarrow> bool" where
  "hm_ok m \<longleftrightarrow> distinct (map fst m)"

text \<open>
  What the documentation of \<open>HashMap::iter\<close> promises: every entry once, in an unspecified order.
\<close>

definition iter_ok :: "(('k, 'v) hash_map \<Rightarrow> ('k \<times> 'v) list) \<Rightarrow> bool" where
  "iter_ok iter \<longleftrightarrow> (\<forall>m. mset (iter m) = mset m)"

interpretation hm: finite_map hm_get hm_insert hm_remove hm_keys hm_ok
proof unfold_locales
  fix m :: "('k, 'v) hash_map"
  assume "hm_ok m"
  show "set (hm_keys m) = {k. hm_get m k \<noteq> None}"
    by (auto simp: hm_keys_def map_of_eq_None_iff)
qed (auto simp: hm_ok_def hm_keys_def update_conv' delete_conv' distinct_update distinct_delete
    map_of_eq_None_iff)

lemma hm_ok_Nil [simp]: "hm_ok []"
  by (simp add: hm_ok_def)

lemmas hm_simps [simp] = hm.invar_put hm.invar_del update_conv' delete_conv'

lemma hm_length_put: "hm_ok m \<Longrightarrow>
  length (hm_insert k v m) = (if hm_get m k = None then Suc (length m) else length m)"
  using hm.size_put [of m k v] by (simp add: hm_keys_def)

lemma hm_length_del: "hm_ok m \<Longrightarrow>
  length (hm_remove k m) = (if hm_get m k = None then length m else length m - 1)"
  using hm.size_del [of m k] by (simp add: hm_keys_def)

section \<open>Ordered maps\<close>

type_synonym ('k, 'v) btree_map = "('k \<times> 'v) list"

abbreviation bt_get :: "('k, 'v) btree_map \<Rightarrow> 'k \<Rightarrow> 'v option" where
  "bt_get \<equiv> map_of"

fun bt_insert :: "'k :: linorder \<Rightarrow> 'v \<Rightarrow> ('k, 'v) btree_map \<Rightarrow> ('k, 'v) btree_map" where
  "bt_insert k v [] = [(k, v)]"
| "bt_insert k v ((k', v') # m) =
     (if k < k' then (k, v) # (k', v') # m
      else if k = k' then (k, v) # m
      else (k', v') # bt_insert k v m)"

definition bt_remove :: "'k \<Rightarrow> ('k, 'v) btree_map \<Rightarrow> ('k, 'v) btree_map" where
  "bt_remove k m = filter (\<lambda>(k', v). k' \<noteq> k) m"

definition bt_keys :: "('k, 'v) btree_map \<Rightarrow> 'k list" where
  "bt_keys m = map fst m"

definition bt_ok :: "('k :: linorder, 'v) btree_map \<Rightarrow> bool" where
  "bt_ok m \<longleftrightarrow> sorted_wrt (<) (map fst m)"

lemma map_of_bt_insert: "map_of (bt_insert k v m) k' = (if k' = k then Some v else map_of m k')"
  by (induction k v m rule: bt_insert.induct) auto

lemma keys_bt_insert: "fst ` set (bt_insert k v m) = insert k (fst ` set m)"
  by (induction k v m rule: bt_insert.induct) auto

lemma bt_ok_insert: "bt_ok m \<Longrightarrow> bt_ok (bt_insert k v m)"
proof (induction k v m rule: bt_insert.induct)
  case (2 k v k' v' m)
  show ?case
  proof (cases "k < k' \<or> k = k'")
    case True
    with "2.prems" show ?thesis by (fastforce simp: bt_ok_def)
  next
    case False
    with 2 have "bt_ok (bt_insert k v m)" by (simp add: bt_ok_def)
    moreover have "\<forall>a \<in> set (map fst (bt_insert k v m)). k' < a"
      using False "2.prems" by (auto simp: bt_ok_def keys_bt_insert)
    ultimately show ?thesis
      using False by (simp add: bt_ok_def)
  qed
qed (simp add: bt_ok_def)

interpretation bt: ordered_map bt_get bt_insert bt_remove bt_keys bt_ok
proof unfold_locales
  fix m :: "('k :: linorder, 'v) btree_map" and k
  assume ok: "bt_ok m"
  show "set (bt_keys m) = {k. bt_get m k \<noteq> None}"
    by (auto simp: bt_keys_def map_of_eq_None_iff)
  show "distinct (bt_keys m)" "sorted (bt_keys m)"
    using ok by (auto simp: bt_keys_def bt_ok_def strict_sorted_iff)
  show "bt_ok (bt_remove k m)"
    using ok by (simp add: bt_ok_def bt_remove_def filter_key_map_fst sorted_wrt_filter)
qed (auto simp: map_of_bt_insert bt_ok_insert bt_remove_def map_of_filter_key)

lemma bt_ok_Nil [simp]: "bt_ok []"
  by (simp add: bt_ok_def)

lemma bt_insert_max:
  "(\<And>k' v'. (k', v') \<in> set m \<Longrightarrow> k' < k) \<Longrightarrow> bt_insert k v m = m @ [(k, v)]"
proof (induction k v m rule: bt_insert.induct)
  case (2 k v k' v' m)
  have "k' < k" using "2.prems" by force
  moreover have "bt_insert k v m = m @ [(k, v)]"
  proof (rule "2.IH")
    show "\<not> k < k'" "k \<noteq> k'" using \<open>k' < k\<close> by auto
    show "a < k" if "(a, b) \<in> set m" for a b
      using "2.prems" that by (meson list.set_intros(2))
  qed
  ultimately show ?case by auto
qed simp

lemma bt_remove_all:
  "fold bt_remove ks m = filter (\<lambda>(k, v). k \<notin> set ks) m"
  by (induction ks arbitrary: m) (auto simp: bt_remove_def intro!: filter_cong)

end
