(* ===== verification/Seg_Log.thy ===== *)
theory Seg_Log
  imports Collections
begin

text \<open>
  The segmented log (\<open>server/src/db/seg_log.rs\<close>): entries are written back to back into 64 KB
  segments behind a 20 byte header (id, timestamp, payload length, little endian), an ordered
  index maps entry ids to their location.

  A segment is the byte list its allocation holds, so the owner of a segment is the position in
  \<open>sl_segs\<close>. Raw pointer accesses go through \<open>mem_write\<close> and \<open>mem_read\<close>; an access outside the
  segment is \<open>Fault OutOfBounds\<close>. Whether \<open>alloc_zeroed\<close> returns memory is a parameter
  (\<open>alloc\<close>). The write lock is the flag \<open>sl_lock_write\<close>. The theory ends with the contract
  \<open>log_store\<close> that the groups rely on and its interpretation.
\<close>

section \<open>Data\<close>

definition SEGMENT_SIZE :: nat where
  "SEGMENT_SIZE = 64 * 1024"

definition INITIAL_SEGMENTS :: nat where
  "INITIAL_SEGMENTS = 8"

definition MAX_SEGMENTS :: nat where
  "MAX_SEGMENTS = 1024 * 1024 * 1024"

definition HEADER_SIZE :: nat where
  "HEADER_SIZE = 8 + 8 + 4"

record entry_loc =
  segment_idx :: nat
  offset :: nat
  entry_len :: nat

datatype log_error =
    EntryTooLarge
  | SegmentLimitReached
  | EntryNotFound
  | AllocationFailed
  | MaxSegmentsReached
  | WriteLockUnavailable

record seg_log =
  sl_segs :: "bytes list"
  sl_active_seg :: nat
  sl_write_cursor :: nat
  sl_idx :: "(u64, entry_loc) btree_map"
  sl_next_id :: u64
  sl_entry_count :: nat
  sl_lock_write :: bool

type_synonym entry = "u64 \<times> u64 \<times> bytes"

section \<open>Operations\<close>

definition zero_segment :: bytes where
  "zero_segment = replicate SEGMENT_SIZE 0"

text \<open>\<open>SegLog::new\<close>: the first null allocation panics.\<close>

definition seglog_new :: "(nat \<Rightarrow> bool) \<Rightarrow> (log_error, seg_log) result" where
  "seglog_new alloc =
     (if list_all alloc [0..<INITIAL_SEGMENTS]
      then Ok \<lparr>sl_segs = replicate INITIAL_SEGMENTS zero_segment, sl_active_seg = 0,
               sl_write_cursor = 0, sl_idx = [], sl_next_id = 1, sl_entry_count = 0,
               sl_lock_write = False\<rparr>
      else Fault AllocPanic)"

definition allocate_seg :: "bool \<Rightarrow> seg_log \<Rightarrow> (log_error, unit) result \<times> seg_log" where
  "allocate_seg alloc s =
     (if length (sl_segs s) \<ge> MAX_SEGMENTS then (Err MaxSegmentsReached, s)
      else if \<not> alloc then (Err AllocationFailed, s)
      else (Ok (), s\<lparr>sl_segs := sl_segs s @ [zero_segment]\<rparr>))"

text \<open>
  The first half of \<open>append\<close>: move to the next segment when the entry does not fit, and allocate
  it when it does not exist yet. The cursor and the active segment are updated before the
  allocation that may fail.
\<close>

definition roll_segment :: "bool \<Rightarrow> nat \<Rightarrow> seg_log \<Rightarrow> (log_error, unit) result \<times> seg_log" where
  "roll_segment alloc need s =
     (if sl_write_cursor s + need > SEGMENT_SIZE
      then let s' = s\<lparr>sl_active_seg := sl_active_seg s + 1, sl_write_cursor := 0\<rparr>
           in if sl_active_seg s' \<ge> length (sl_segs s') then allocate_seg alloc s' else (Ok (), s')
      else (Ok (), s))"

text \<open>The four raw copies of \<open>append\<close>, relative to the start of the segment.\<close>

definition write_entry :: "nat \<Rightarrow> u64 \<Rightarrow> u64 \<Rightarrow> bytes \<Rightarrow> bytes \<Rightarrow> bytes option" where
  "write_entry off entry_id timestamp payload buf = do {
     b1 \<leftarrow> mem_write off (u64_le entry_id) buf;
     b2 \<leftarrow> mem_write (off + 8) (u64_le timestamp) b1;
     b3 \<leftarrow> mem_write (off + 16) (u32_le (word_of_nat (length payload))) b2;
     if payload \<noteq> [] then mem_write (off + HEADER_SIZE) payload b3 else Some b3
   }"

definition append_entry :: "bool \<Rightarrow> u64 \<Rightarrow> bytes \<Rightarrow> seg_log \<Rightarrow> (log_error, u64) result \<times> seg_log" where
  "append_entry alloc timestamp payload s =
     (let total_entry_size = HEADER_SIZE + length payload in
      if total_entry_size > SEGMENT_SIZE then (Err EntryTooLarge, s)
      else case roll_segment alloc total_entry_size s of
        (Err e, s1) \<Rightarrow> (Err e, s1)
      | (Fault p, s1) \<Rightarrow> (Fault p, s1)
      | (Ok _, s1) \<Rightarrow>
          if sl_lock_write s1 then (Err WriteLockUnavailable, s1)
          else let entry_id = sl_next_id s1; seg = sl_active_seg s1; cur = sl_write_cursor s1 in
            if seg \<ge> length (sl_segs s1) then (Fault IndexPanic, s1)
            else case write_entry cur entry_id timestamp payload (sl_segs s1 ! seg) of
              None \<Rightarrow> (Fault OutOfBounds, s1)
            | Some buf \<Rightarrow>
                (Ok entry_id,
                 s1\<lparr>sl_segs := (sl_segs s1)[seg := buf],
                    sl_idx := bt_insert entry_id
                      \<lparr>segment_idx = seg, offset = cur, entry_len = total_entry_size\<rparr> (sl_idx s1),
                    sl_write_cursor := cur + total_entry_size,
                    sl_next_id := sl_next_id s1 + 1,
                    sl_entry_count := sl_entry_count s1 + 1\<rparr>))"

text \<open>The header fields and the payload read back at an offset of a segment.\<close>

definition read_entry :: "nat \<Rightarrow> bytes \<Rightarrow> entry option" where
  "read_entry off buf = do {
     id_bytes \<leftarrow> mem_read off 8 buf;
     ts_bytes \<leftarrow> mem_read (off + 8) 8 buf;
     len_bytes \<leftarrow> mem_read (off + 16) 4 buf;
     payload \<leftarrow> mem_read (off + HEADER_SIZE) (unat (u32_from_le len_bytes)) buf;
     Some (u64_from_le id_bytes, u64_from_le ts_bytes, payload)
   }"

definition log_read :: "u64 \<Rightarrow> seg_log \<Rightarrow> (log_error, entry) result" where
  "log_read entry_id s =
     (case bt_get (sl_idx s) entry_id of
        None \<Rightarrow> Err EntryNotFound
      | Some loc \<Rightarrow>
          if segment_idx loc \<ge> length (sl_segs s) then Fault IndexPanic
          else case read_entry (offset loc) (sl_segs s ! segment_idx loc) of
            None \<Rightarrow> Fault OutOfBounds
          | Some e \<Rightarrow> Ok e)"

text \<open>\<open>filter_map(|id| self.read(id).ok())\<close>: errors are skipped, panics are not.\<close>

fun read_each :: "seg_log \<Rightarrow> u64 list \<Rightarrow> (log_error, entry list) result" where
  "read_each s [] = Ok []"
| "read_each s (eid # ids) =
     (case log_read eid s of
        Fault p \<Rightarrow> Fault p
      | Err e \<Rightarrow> read_each s ids
      | Ok x \<Rightarrow> (case read_each s ids of Ok xs \<Rightarrow> Ok (x # xs) | r \<Rightarrow> r))"

text \<open>\<open>BTreeMap::range(start..=end)\<close> panics when \<open>start\<close> is greater than \<open>end\<close>.\<close>

definition log_read_range :: "u64 \<Rightarrow> u64 \<Rightarrow> seg_log \<Rightarrow> (log_error, entry list) result" where
  "log_read_range start end s =
     (if start > end then Fault RangePanic
      else read_each s (filter (\<lambda>eid. start \<le> eid \<and> eid \<le> end) (bt_keys (sl_idx s))))"

text \<open>\<open>ptr::write_bytes\<close> over the segments below the first live one.\<close>

primrec zero_upto :: "nat \<Rightarrow> bytes list \<Rightarrow> (log_error, bytes list) result" where
  "zero_upto 0 segs = Ok segs"
| "zero_upto (Suc n) segs =
     (case zero_upto n segs of
        Ok segs' \<Rightarrow>
          if n \<ge> length segs' then Fault IndexPanic
          else (case mem_write 0 zero_segment (segs' ! n) of
                  None \<Rightarrow> Fault OutOfBounds
                | Some b \<Rightarrow> Ok (segs'[n := b]))
      | r \<Rightarrow> r)"

definition trim_one :: "u64 \<Rightarrow> seg_log \<Rightarrow> seg_log" where
  "trim_one eid s = s\<lparr>sl_idx := bt_remove eid (sl_idx s), sl_entry_count := sl_entry_count s - 1\<rparr>"

definition log_trim :: "u64 \<Rightarrow> seg_log \<Rightarrow> (log_error, u64 list) result \<times> seg_log" where
  "log_trim cutoff_id s =
     (let to_remove = filter (\<lambda>eid. eid < cutoff_id) (bt_keys (sl_idx s));
          s1 = fold trim_one to_remove s
      in case sl_idx s1 of
           [] \<Rightarrow> (Ok to_remove, s1)
         | (_, first_loc) # _ \<Rightarrow>
             (case zero_upto (segment_idx first_loc) (sl_segs s1) of
                Ok segs \<Rightarrow> (Ok to_remove, s1\<lparr>sl_segs := segs\<rparr>)
              | Err e \<Rightarrow> (Err e, s1)
              | Fault p \<Rightarrow> (Fault p, s1)))"

definition get_raw_entry_slice :: "u64 \<Rightarrow> seg_log \<Rightarrow> (string, bytes) result" where
  "get_raw_entry_slice entry_id s =
     (case bt_get (sl_idx s) entry_id of
        None \<Rightarrow> Err ''entry not found''
      | Some loc \<Rightarrow>
          if segment_idx loc \<ge> length (sl_segs s) then Fault IndexPanic
          else case mem_read (offset loc) (entry_len loc) (sl_segs s ! segment_idx loc) of
            None \<Rightarrow> Fault OutOfBounds
          | Some bs \<Rightarrow> Ok bs)"

definition total_entries :: "seg_log \<Rightarrow> u64" where
  "total_entries s = word_of_nat (sl_entry_count s)"

definition total_segments :: "seg_log \<Rightarrow> nat" where
  "total_segments s = length (sl_segs s)"

section \<open>Representation invariant and abstraction\<close>

text \<open>The bytes of one entry, in the order \<open>append\<close> copies them.\<close>

definition entry_bytes :: "entry \<Rightarrow> bytes" where
  "entry_bytes e = (case e of (eid, ts, p) \<Rightarrow>
     u64_le eid @ u64_le ts @ u32_le (word_of_nat (length p)) @ p)"

text \<open>What the segments hold for an index entry.\<close>

definition holds :: "bytes list \<Rightarrow> u64 \<times> entry_loc \<Rightarrow> entry \<Rightarrow> bool" where
  "holds segs il e \<longleftrightarrow>
     fst e = fst il \<and> segment_idx (snd il) < length segs \<and>
     entry_len (snd il) = HEADER_SIZE + length (snd (snd e)) \<and>
     mem_read (offset (snd il)) (entry_len (snd il)) (segs ! segment_idx (snd il))
       = Some (entry_bytes e)"

definition before :: "entry_loc \<Rightarrow> entry_loc \<Rightarrow> bool" where
  "before a b \<longleftrightarrow> segment_idx a < segment_idx b \<or>
     segment_idx a = segment_idx b \<and> offset a + entry_len a \<le> offset b"

definition write_end :: "seg_log \<Rightarrow> entry_loc" where
  "write_end s = \<lparr>segment_idx = sl_active_seg s, offset = sl_write_cursor s, entry_len = 0\<rparr>"

text \<open>The abstract content: the live entries in id order, read through the index.\<close>

definition log_entries :: "seg_log \<Rightarrow> entry list" where
  "log_entries s = map (\<lambda>(eid, loc). the (read_entry (offset loc) (sl_segs s ! segment_idx loc))) (sl_idx s)"

definition log_inv :: "seg_log \<Rightarrow> bool" where
  "log_inv s \<longleftrightarrow>
     list_all (\<lambda>b. length b = SEGMENT_SIZE) (sl_segs s) \<and>
     bt_ok (sl_idx s) \<and>
     list_all2 (holds (sl_segs s)) (sl_idx s) (log_entries s) \<and>
     list_all (\<lambda>(eid, loc). eid < sl_next_id s \<and> before loc (write_end s)) (sl_idx s) \<and>
     sorted_wrt before (map snd (sl_idx s)) \<and>
     sl_entry_count s = length (sl_idx s) \<and>
     sl_write_cursor s \<le> SEGMENT_SIZE \<and>
     sl_active_seg s \<le> length (sl_segs s) \<and>
     (sl_active_seg s = length (sl_segs s) \<longrightarrow> sl_write_cursor s = 0) \<and>
     \<not> sl_lock_write s"

text \<open>The active segment exists: broken only by a failed allocation inside \<open>append\<close>.\<close>

definition log_ready :: "seg_log \<Rightarrow> bool" where
  "log_ready s \<longleftrightarrow> sl_active_seg s < length (sl_segs s)"

section \<open>Entries in memory\<close>

lemma HEADER_less: "HEADER_SIZE + n \<le> SEGMENT_SIZE \<Longrightarrow> n < 2 ^ 32"
  by (simp add: HEADER_SIZE_def SEGMENT_SIZE_def)

lemma length_zero_segment [simp]: "length zero_segment = SEGMENT_SIZE"
  by (simp add: zero_segment_def)

lemma length_entry_bytes [simp]: "length (entry_bytes (eid, ts, p)) = HEADER_SIZE + length p"
  by (simp add: entry_bytes_def HEADER_SIZE_def)

lemma write_entry_eq: "write_entry off eid ts p buf = mem_write off (entry_bytes (eid, ts, p)) buf"
proof -
  let ?l = "u32_le (word_of_nat (length p))"
  have tail: "(if p \<noteq> [] then mem_write (off + HEADER_SIZE) p b3 else Some b3)
      = mem_write (off + 20) p b3" if "mem_write (off + 16) ?l b2 = Some b3" for b2 b3
    using that by (auto simp: HEADER_SIZE_def mem_write_def split: if_splits)
  have "write_entry off eid ts p buf =
      mem_write off (u64_le eid) buf \<bind> (\<lambda>b1. mem_write (off + 8) (u64_le ts) b1 \<bind>
        (\<lambda>b2. mem_write (off + 16) ?l b2 \<bind> mem_write (off + 20) p))"
    unfolding write_entry_def by (intro Option.bind_cong refl) (simp add: tail)
  also have "\<dots> = mem_write off (u64_le eid @ u64_le ts @ ?l @ p) buf"
    using mem_write_consecutive [of "off + 16" ?l _ p]
      mem_write_consecutive [of "off + 8" "u64_le ts" _ "?l @ p"]
      mem_write_consecutive [of off "u64_le eid" buf "u64_le ts @ ?l @ p"]
    by (simp add: add.assoc)
  finally show ?thesis by (simp add: entry_bytes_def)
qed

lemma read_entry_stored:
  assumes "mem_read off (HEADER_SIZE + length p) buf = Some (entry_bytes (eid, ts, p))"
    and "length p < 2 ^ 32"
  shows "read_entry off buf = Some (eid, ts, p)"
proof -
  let ?l = "u32_le (word_of_nat (length p))"
  have "mem_read off (8 + (8 + (4 + length p))) buf = Some (u64_le eid @ u64_le ts @ ?l @ p)"
    using assms(1) by (simp add: entry_bytes_def HEADER_SIZE_def)
  from mem_read_split [OF this] have 1: "mem_read off 8 buf = Some (u64_le eid)"
    and r1: "mem_read (off + 8) (8 + (4 + length p)) buf = Some (u64_le ts @ ?l @ p)" by simp_all
  from mem_read_split [OF r1] have 2: "mem_read (off + 8) 8 buf = Some (u64_le ts)"
    and r2: "mem_read (off + 16) (4 + length p) buf = Some (?l @ p)"
    by (simp_all add: add.commute [of _ off])
  from mem_read_split [OF r2] have 3: "mem_read (off + 16) 4 buf = Some ?l"
    and 4: "mem_read (off + 20) (length p) buf = Some p"
    by (simp_all add: add.commute [of _ off])
  show ?thesis
    using 1 2 3 4 assms(2) by (simp add: read_entry_def HEADER_SIZE_def)
qed

lemma holds_read_entry:
  assumes "holds segs il e" and "list_all (\<lambda>b. length b = SEGMENT_SIZE) segs"
  shows "read_entry (offset (snd il)) (segs ! segment_idx (snd il)) = Some e"
proof -
  obtain eid ts p where e: "e = (eid, ts, p)"
    by (cases e)
  have "length (segs ! segment_idx (snd il)) = SEGMENT_SIZE"
    using assms by (auto simp: holds_def list_all_length)
  then have "HEADER_SIZE + length p \<le> SEGMENT_SIZE"
    using assms(1) by (auto simp: holds_def e mem_read_def split: if_splits)
  then show ?thesis
    using assms(1) by (auto simp: e holds_def intro!: read_entry_stored dest: HEADER_less)
qed

lemma log_entries_eqI:
  assumes "list_all2 (holds (sl_segs s)) (sl_idx s) es"
    and "list_all (\<lambda>b. length b = SEGMENT_SIZE) (sl_segs s)"
  shows "log_entries s = es"
proof (rule nth_equalityI)
  show "length (log_entries s) = length es"
    using assms(1) by (simp add: log_entries_def list_all2_lengthD)
next
  fix i
  assume "i < length (log_entries s)"
  then have "i < length (sl_idx s)" by (simp add: log_entries_def)
  then show "log_entries s ! i = es ! i"
    using holds_read_entry [OF list_all2_nthD [OF assms(1)] assms(2)]
    by (simp add: log_entries_def split_beta)
qed

text \<open>Adding a segment, or writing behind everything stored, keeps what the segments hold.\<close>

lemma holds_append_seg: "holds segs il e \<Longrightarrow> holds (segs @ xs) il e"
  by (auto simp: holds_def nth_append)

lemma holds_write_behind:
  assumes "holds segs (eid, loc) e"
    and "before loc \<lparr>segment_idx = seg, offset = cur, entry_len = n\<rparr>"
    and "mem_write cur data (segs ! seg) = Some buf" and "seg < length segs"
  shows "holds (segs[seg := buf]) (eid, loc) e"
  using assms by (auto simp: holds_def before_def nth_list_update mem_write_read_before)

lemma holds_new:
  assumes "mem_write cur (entry_bytes (eid, ts, p)) (segs ! seg) = Some buf" and "seg < length segs"
  shows "holds (segs[seg := buf])
    (eid, \<lparr>segment_idx = seg, offset = cur, entry_len = HEADER_SIZE + length p\<rparr>) (eid, ts, p)"
  using mem_write_read_same [OF assms(1)] assms(2) by (simp add: holds_def)

section \<open>Correctness of the operations\<close>

lemma log_inv_holds: "log_inv s \<Longrightarrow> list_all2 (holds (sl_segs s)) (sl_idx s) (log_entries s)"
  by (simp add: log_inv_def)

lemma log_new_inv:
  assumes "seglog_new alloc = Ok s"
  shows "log_inv s" "log_ready s" "log_entries s = []" "sl_next_id s = 1"
  using assms
  by (auto simp: seglog_new_def log_inv_def log_ready_def log_entries_def INITIAL_SEGMENTS_def
      list_all_iff split: if_splits)

text \<open>Making room keeps the content; afterwards the entry fits.\<close>

lemma roll_segment_correct:
  assumes inv: "log_inv s" and roll: "roll_segment alloc n s = (r, s1)" and n: "n \<le> SEGMENT_SIZE"
  shows "log_inv s1" "sl_idx s1 = sl_idx s" "log_entries s1 = log_entries s"
    "sl_next_id s1 = sl_next_id s" "\<not> is_fault r"
    "r = Ok () \<Longrightarrow> sl_write_cursor s1 + n \<le> SEGMENT_SIZE"
    "r = Ok () \<Longrightarrow> log_ready s \<Longrightarrow> log_ready s1"
proof -
  let ?s' = "s\<lparr>sl_active_seg := sl_active_seg s + 1, sl_write_cursor := 0\<rparr>"
  have cases: "s1 = s \<or> s1 = ?s' \<and> sl_active_seg s < length (sl_segs s) \<or>
      s1 = ?s'\<lparr>sl_segs := sl_segs s @ [zero_segment]\<rparr> \<and> sl_active_seg s < length (sl_segs s)"
    using roll inv n
    by (auto simp: roll_segment_def allocate_seg_def log_inv_def Let_def split: if_splits)
  have locs: "list_all (\<lambda>(i, loc). i < sl_next_id s1 \<and> before loc (write_end s1)) (sl_idx s1)"
    using cases inv
    by (fastforce simp: log_inv_def list_all_iff before_def write_end_def split_beta)
  have more: "list_all2 (holds (sl_segs s @ [zero_segment])) (sl_idx s) (log_entries s)"
    using log_inv_holds [OF inv] by (rule list_all2_mono) (rule holds_append_seg)
  show idx: "sl_idx s1 = sl_idx s" and "sl_next_id s1 = sl_next_id s"
    using cases by auto
  show ents: "log_entries s1 = log_entries s"
  proof (rule log_entries_eqI)
    show "list_all2 (holds (sl_segs s1)) (sl_idx s1) (log_entries s)"
      using cases more log_inv_holds [OF inv] by auto
    show "list_all (\<lambda>b. length b = SEGMENT_SIZE) (sl_segs s1)"
      using cases inv by (auto simp: log_inv_def)
  qed
  show "log_inv s1"
    using cases inv more ents locs by (auto simp: log_inv_def)
  show "\<not> is_fault r"
    using roll by (auto simp: roll_segment_def allocate_seg_def Let_def split: if_splits)
  show "r = Ok () \<Longrightarrow> sl_write_cursor s1 + n \<le> SEGMENT_SIZE"
    using roll n by (auto simp: roll_segment_def allocate_seg_def Let_def split: if_splits)
  show "r = Ok () \<Longrightarrow> log_ready s \<Longrightarrow> log_ready s1"
    using roll by (auto simp: roll_segment_def allocate_seg_def log_ready_def Let_def split: if_splits)
qed

text \<open>The shape of a successful append.\<close>

lemma append_entry_OkE:
  assumes "append_entry alloc ts p s = (Ok eid, s')"
  obtains s1 buf where "roll_segment alloc (HEADER_SIZE + length p) s = (Ok (), s1)"
    "HEADER_SIZE + length p \<le> SEGMENT_SIZE" "eid = sl_next_id s1"
    "sl_active_seg s1 < length (sl_segs s1)"
    "mem_write (sl_write_cursor s1) (entry_bytes (eid, ts, p)) (sl_segs s1 ! sl_active_seg s1) = Some buf"
    "s' = s1\<lparr>sl_segs := (sl_segs s1)[sl_active_seg s1 := buf],
       sl_idx := bt_insert eid \<lparr>segment_idx = sl_active_seg s1, offset = sl_write_cursor s1,
         entry_len = HEADER_SIZE + length p\<rparr> (sl_idx s1),
       sl_write_cursor := sl_write_cursor s1 + (HEADER_SIZE + length p),
       sl_next_id := sl_next_id s1 + 1, sl_entry_count := sl_entry_count s1 + 1\<rparr>"
  using assms
  by (auto simp: append_entry_def Let_def write_entry_eq split: if_splits prod.splits result.splits option.splits)

text \<open>The entry written at the cursor, behind everything the index refers to.\<close>

lemma append_holds:
  assumes inv: "log_inv s" and act: "sl_active_seg s < length (sl_segs s)"
    and wr: "mem_write (sl_write_cursor s) (entry_bytes (eid, ts, p)) (sl_segs s ! sl_active_seg s) = Some buf"
  shows "list_all2 (holds ((sl_segs s)[sl_active_seg s := buf]))
    (sl_idx s @ [(eid, \<lparr>segment_idx = sl_active_seg s, offset = sl_write_cursor s, entry_len = HEADER_SIZE + length p\<rparr>)])
    (log_entries s @ [(eid, ts, p)])"
proof (intro list_all2_appendI)
  show "list_all2 (holds ((sl_segs s)[sl_active_seg s := buf])) (sl_idx s) (log_entries s)"
  proof (rule list.rel_mono_strong [OF log_inv_holds [OF inv]])
    fix il e
    assume il: "il \<in> set (sl_idx s)" and h: "holds (sl_segs s) il e"
    have "before (snd il) (write_end s)"
      using inv il by (auto simp: log_inv_def list_all_iff)
    then show "holds ((sl_segs s)[sl_active_seg s := buf]) il e"
      using holds_write_behind [OF _ _ wr act, of "fst il" "snd il" e 0] h by (simp add: write_end_def)
  qed
qed (use holds_new [OF wr act] in simp)

lemma append_entry_Ok:
  assumes inv: "log_inv s" and app: "append_entry alloc ts p s = (Ok eid, s')"
    and ids: "sl_next_id s \<noteq> - 1"
  shows "eid = sl_next_id s" "sl_next_id s' = sl_next_id s + 1"
    "log_entries s' = log_entries s @ [(eid, ts, p)]" "log_inv s'" "log_ready s'"
proof -
  from app obtain s1 buf where roll: "roll_segment alloc (HEADER_SIZE + length p) s = (Ok (), s1)"
    and fits: "HEADER_SIZE + length p \<le> SEGMENT_SIZE" and eid: "eid = sl_next_id s1"
    and act: "sl_active_seg s1 < length (sl_segs s1)"
    and wr: "mem_write (sl_write_cursor s1) (entry_bytes (eid, ts, p)) (sl_segs s1 ! sl_active_seg s1) = Some buf"
    and s': "s' = s1\<lparr>sl_segs := (sl_segs s1)[sl_active_seg s1 := buf],
       sl_idx := bt_insert eid \<lparr>segment_idx = sl_active_seg s1, offset = sl_write_cursor s1,
         entry_len = HEADER_SIZE + length p\<rparr> (sl_idx s1),
       sl_write_cursor := sl_write_cursor s1 + (HEADER_SIZE + length p),
       sl_next_id := sl_next_id s1 + 1, sl_entry_count := sl_entry_count s1 + 1\<rparr>"
    by (rule append_entry_OkE)
  note r = roll_segment_correct [OF inv roll fits]
  let ?loc = "\<lparr>segment_idx = sl_active_seg s1, offset = sl_write_cursor s1,
    entry_len = HEADER_SIZE + length p\<rparr>"
  have idx': "sl_idx s' = sl_idx s1 @ [(eid, ?loc)]"
    using r(1) unfolding s'
    by (auto simp: eid log_inv_def list_all_iff intro!: bt_insert_max)
  have segs': "list_all (\<lambda>b. length b = SEGMENT_SIZE) (sl_segs s')"
    using r(1) mem_write_length [OF wr] act unfolding s'
    by (auto simp: log_inv_def list_all_length nth_list_update)
  have all: "list_all2 (holds (sl_segs s')) (sl_idx s') (log_entries s1 @ [(eid, ts, p)])"
    using append_holds [OF r(1) act wr] unfolding idx' by (simp add: s')
  have ents: "log_entries s' = log_entries s1 @ [(eid, ts, p)]"
    using all segs' by (rule log_entries_eqI)
  have less: "sl_next_id s1 < sl_next_id s1 + 1"
    using ids r(4) by (simp add: word_less_plus_one)
  have locs: "list_all (\<lambda>(i, loc). i < sl_next_id s' \<and> before loc (write_end s')) (sl_idx s')"
    using r(1) less unfolding idx'
    by (auto simp: log_inv_def list_all_iff s' write_end_def before_def eid dest!: bspec)
  have order: "sorted_wrt before (map snd (sl_idx s'))"
    using r(1) unfolding idx'
    by (auto simp: log_inv_def list_all_iff sorted_wrt_append before_def write_end_def dest!: bspec)
  show "log_inv s'"
  proof -
    have "sl_entry_count s' = length (sl_idx s')"
      using r(1) unfolding idx' by (simp add: s' log_inv_def)
    moreover have "bt_ok (sl_idx s')" "sl_write_cursor s' \<le> SEGMENT_SIZE" "\<not> sl_lock_write s'"
      "sl_active_seg s' < length (sl_segs s')"
      using r(1) r(6) act by (simp_all add: s' log_inv_def bt_ok_insert)
    ultimately show ?thesis
      using all ents segs' locs order by (simp add: log_inv_def)
  qed
  show "eid = sl_next_id s" "sl_next_id s' = sl_next_id s + 1" "log_ready s'"
    using r(4) act by (simp_all add: eid s' log_ready_def)
  show "log_entries s' = log_entries s @ [(eid, ts, p)]"
    using ents r(3) by simp
qed

lemma append_entry_Err:
  assumes inv: "log_inv s" and app: "append_entry alloc ts p s = (Err e, s')"
  shows "log_inv s'" "log_entries s' = log_entries s" "sl_next_id s' = sl_next_id s"
proof -
  have "s' = s \<or> (\<exists>r. roll_segment alloc (HEADER_SIZE + length p) s = (r, s') \<and>
      HEADER_SIZE + length p \<le> SEGMENT_SIZE)"
    using app by (auto simp: append_entry_def Let_def split: if_splits prod.splits result.splits option.splits)
  then show "log_inv s'" "log_entries s' = log_entries s" "sl_next_id s' = sl_next_id s"
    using inv roll_segment_correct [OF inv] by auto
qed

text \<open>With an active segment in place no append leaves its segment or an index range.\<close>

lemma append_entry_no_fault:
  assumes inv: "log_inv s" and ready: "log_ready s"
  shows "\<not> is_fault (fst (append_entry alloc ts p s))"
proof (cases "HEADER_SIZE + length p \<le> SEGMENT_SIZE")
  case True
  obtain r s1 where roll: "roll_segment alloc (HEADER_SIZE + length p) s = (r, s1)"
    by fastforce
  note c = roll_segment_correct [OF inv roll True]
  show ?thesis
  proof (cases r)
    case (Ok u)
    then have ready1: "sl_active_seg s1 < length (sl_segs s1)"
      and fits: "sl_write_cursor s1 + (HEADER_SIZE + length p) \<le> SEGMENT_SIZE"
      using c(6,7) ready by (simp_all add: log_ready_def)
    have "length (sl_segs s1 ! sl_active_seg s1) = SEGMENT_SIZE"
      using c(1) ready1 by (auto simp: log_inv_def list_all_length)
    then obtain buf where "write_entry (sl_write_cursor s1) (sl_next_id s1) ts p
        (sl_segs s1 ! sl_active_seg s1) = Some buf"
      using fits mem_write_in_bounds by (metis length_entry_bytes write_entry_eq)
    then show ?thesis
      using True Ok roll ready1 by (simp add: append_entry_def Let_def)
  qed (use True roll c(5) in \<open>auto simp: append_entry_def Let_def\<close>)
qed (simp add: append_entry_def)

text \<open>After a failed allocation the active segment is missing and every append panics.\<close>

lemma append_entry_stuck:
  assumes "log_inv s" "\<not> log_ready s" "HEADER_SIZE + length p \<le> SEGMENT_SIZE"
  shows "append_entry alloc ts p s = (Fault IndexPanic, s)"
  using assms by (auto simp: append_entry_def Let_def roll_segment_def log_inv_def log_ready_def)

lemma append_entry_alloc_error:
  assumes "log_inv s" "append_entry alloc ts p s = (Err e, s1)"
    and "e = AllocationFailed \<or> e = MaxSegmentsReached"
  shows "\<not> log_ready s1"
  using assms
  by (auto simp: append_entry_def roll_segment_def allocate_seg_def log_ready_def Let_def
      split: if_splits prod.splits result.splits option.splits)

subsection \<open>Reads\<close>

lemma holds_lookup:
  assumes "list_all2 (holds segs) xs es"
  shows "map_of xs i = None \<longleftrightarrow> map_of es i = None"
    and "map_of xs i = Some loc \<Longrightarrow> \<exists>ts p. map_of es i = Some (ts, p) \<and> holds segs (i, loc) (i, ts, p)"
  using assms by (induction rule: list_all2_induct) (auto simp: holds_def split: if_splits)

lemma log_entries_ids: "log_inv s \<Longrightarrow> map fst (log_entries s) = bt_keys (sl_idx s)"
  by (auto simp: bt_keys_def list_all2_conv_all_nth list_eq_iff_nth_eq holds_def dest!: log_inv_holds)

lemma log_read_spec:
  assumes "log_inv s"
  shows "log_read i s = (case map_of (log_entries s) i of
    None \<Rightarrow> Err EntryNotFound | Some (ts, p) \<Rightarrow> Ok (i, ts, p))"
proof (cases "map_of (sl_idx s) i")
  case None
  then show ?thesis
    using holds_lookup(1) [OF log_inv_holds [OF assms], of i] by (simp add: log_read_def)
next
  case (Some loc)
  then obtain ts p where e: "map_of (log_entries s) i = Some (ts, p)"
    and h: "holds (sl_segs s) (i, loc) (i, ts, p)"
    using holds_lookup(2) [OF log_inv_holds [OF assms]] by blast
  have "read_entry (offset loc) (sl_segs s ! segment_idx loc) = Some (i, ts, p)"
    using holds_read_entry [OF h] assms by (simp add: log_inv_def)
  with Some e h show ?thesis by (simp add: log_read_def holds_def)
qed

lemma read_each_hits: "(\<And>e. e \<in> set es \<Longrightarrow> log_read (fst e) s = Ok e) \<Longrightarrow> read_each s (map fst es) = Ok es"
  by (induction es) auto

lemma log_read_range_spec:
  assumes "log_inv s"
  shows "log_read_range a b s = (if a > b then Fault RangePanic
    else Ok (filter (\<lambda>(i, e). a \<le> i \<and> i \<le> b) (log_entries s)))"
proof -
  have dist: "distinct (map fst (log_entries s))"
    using assms bt.distinct_keys [of "sl_idx s"]
    by (simp add: log_entries_ids) (simp add: log_inv_def)
  have hit: "log_read (fst e) s = Ok e" if "e \<in> set (log_entries s)" for e
  proof -
    obtain i ts p where "e = (i, ts, p)" by (cases e)
    with that dist show ?thesis using assms by (simp add: log_read_spec)
  qed
  have "read_each s (map fst (filter (\<lambda>(i, e). a \<le> i \<and> i \<le> b) (log_entries s)))
      = Ok (filter (\<lambda>(i, e). a \<le> i \<and> i \<le> b) (log_entries s))"
    by (rule read_each_hits) (simp add: hit)
  then show ?thesis
    using assms by (simp add: log_read_range_def filter_key_map_fst log_entries_ids)
qed

lemma raw_slice_spec:
  assumes "log_inv s"
  shows "get_raw_entry_slice i s = (case map_of (log_entries s) i of
    None \<Rightarrow> Err ''entry not found'' | Some (ts, p) \<Rightarrow> Ok (entry_bytes (i, ts, p)))"
proof (cases "map_of (sl_idx s) i")
  case None
  then show ?thesis
    using holds_lookup(1) [OF log_inv_holds [OF assms], of i] by (simp add: get_raw_entry_slice_def)
next
  case (Some loc)
  then obtain ts p where "map_of (log_entries s) i = Some (ts, p)"
    and "holds (sl_segs s) (i, loc) (i, ts, p)"
    using holds_lookup(2) [OF log_inv_holds [OF assms]] by blast
  with Some show ?thesis by (auto simp: get_raw_entry_slice_def holds_def)
qed

subsection \<open>Trimming\<close>

lemma zero_upto_spec:
  assumes "list_all (\<lambda>b. length b = SEGMENT_SIZE) segs" and "n \<le> length segs"
  shows "zero_upto n segs = Ok (replicate n zero_segment @ drop n segs)"
  using assms(2)
proof (induction n)
  case (Suc n)
  then have n: "n < length segs" by simp
  have "length (segs ! n) = SEGMENT_SIZE"
    using assms(1) n by (simp add: list_all_length)
  then have "mem_write 0 zero_segment (segs ! n) = Some zero_segment"
    by (simp add: mem_write_def)
  moreover have "(replicate n zero_segment @ drop n segs)[n := zero_segment]
      = replicate (Suc n) zero_segment @ drop (Suc n) segs"
    using n by (simp add: list_update_append Cons_nth_drop_Suc [symmetric] replicate_app_Cons_same)
  ultimately show ?case
    using Suc n by (simp add: nth_append)
qed simp

lemma fold_trim_one:
  "fold trim_one ids s = s\<lparr>sl_idx := fold bt_remove ids (sl_idx s),
     sl_entry_count := sl_entry_count s - length ids\<rparr>"
  by (induction ids arbitrary: s) (simp_all add: trim_one_def)

lemma before_seg_le: "before a b \<Longrightarrow> segment_idx a \<le> segment_idx b"
  by (auto simp: before_def)

lemma holds_zeroed:
  assumes "holds segs (i, loc) e" and "n \<le> segment_idx loc"
  shows "holds (replicate n zero_segment @ drop n segs) (i, loc) e"
  using assms by (auto simp: holds_def nth_append)

text \<open>What a trim removes from the index, and the segments below the first entry it keeps.\<close>

lemma trim_index:
  assumes "log_inv s"
  shows "fold bt_remove (filter (\<lambda>i. i < c) (bt_keys (sl_idx s))) (sl_idx s) = filter (\<lambda>(i, l). c \<le> i) (sl_idx s)"
    and "sl_entry_count s - length (filter (\<lambda>i. i < c) (bt_keys (sl_idx s))) = length (filter (\<lambda>(i, l). c \<le> i) (sl_idx s))"
proof -
  show "fold bt_remove (filter (\<lambda>i. i < c) (bt_keys (sl_idx s))) (sl_idx s) = filter (\<lambda>(i, l). c \<le> i) (sl_idx s)"
    by (auto simp: bt_remove_all bt_keys_def intro!: filter_cong) force
  have "length (filter (\<lambda>i. i < c) (bt_keys (sl_idx s))) = length (filter (\<lambda>x. \<not> (\<lambda>(i, l). c \<le> i) x) (sl_idx s))"
    by (simp add: bt_keys_def filter_map comp_def split_beta not_le)
  then show "sl_entry_count s - length (filter (\<lambda>i. i < c) (bt_keys (sl_idx s))) = length (filter (\<lambda>(i, l). c \<le> i) (sl_idx s))"
    using assms sum_length_filter_compl [of "\<lambda>(i, l). c \<le> i" "sl_idx s"] by (simp add: log_inv_def)
qed

definition first_segment :: "(u64 \<times> entry_loc) list \<Rightarrow> nat" where
  "first_segment kept = (case kept of [] \<Rightarrow> 0 | (_, l) # _ \<Rightarrow> segment_idx l)"

lemma first_segment_le:
  assumes "sorted_wrt before (map snd kept)" "il \<in> set kept"
  shows "first_segment kept \<le> segment_idx (snd il)"
  using assms by (cases kept) (auto simp: first_segment_def intro: before_seg_le)

lemma cleared_holds:
  assumes hk: "list_all2 (holds segs) kept es" and "sorted_wrt before (map snd kept)"
  shows "list_all2 (holds (replicate (first_segment kept) zero_segment @ drop (first_segment kept) segs)) kept es"
    and "first_segment kept \<le> length segs"
proof -
  show "list_all2 (holds (replicate (first_segment kept) zero_segment @ drop (first_segment kept) segs)) kept es"
    using hk by (rule list.rel_mono_strong) (metis first_segment_le [OF assms(2)] holds_zeroed prod.collapse)
  show "first_segment kept \<le> length segs"
    using hk by (cases kept) (auto simp: first_segment_def holds_def list_all2_Cons1)
qed

lemma log_trim_correct:
  assumes inv: "log_inv s"
  obtains s' where "log_trim c s = (Ok (filter (\<lambda>i. i < c) (map fst (log_entries s))), s')"
    "log_inv s'" "log_entries s' = filter (\<lambda>(i, e). c \<le> i) (log_entries s)"
    "sl_next_id s' = sl_next_id s" "log_ready s' = log_ready s"
proof -
  let ?kept = "filter (\<lambda>(i, l). c \<le> i) (sl_idx s)"
  let ?es = "filter (\<lambda>(i, e). c \<le> i) (log_entries s)"
  define n where "n = first_segment ?kept"
  define s' where "s' = s\<lparr>sl_idx := ?kept, sl_entry_count := length ?kept,
    sl_segs := replicate n zero_segment @ drop n (sl_segs s)\<rparr>"
  have segs: "list_all (\<lambda>b. length b = SEGMENT_SIZE) (sl_segs s)" using inv by (simp add: log_inv_def)
  have sorted: "sorted_wrt before (map snd ?kept)"
    using inv by (simp add: log_inv_def sorted_wrt_map sorted_wrt_filter)
  have hk: "list_all2 (holds (sl_segs s)) ?kept ?es"
    using log_inv_holds [OF inv] by (rule list_all2_filter) (auto simp: holds_def)
  have n_le: "n \<le> length (sl_segs s)" using cleared_holds(2) [OF hk sorted] by (simp add: n_def)
  have trim: "log_trim c s = (Ok (filter (\<lambda>i. i < c) (bt_keys (sl_idx s))), s')"
    using trim_index [OF inv, of c] zero_upto_spec [OF segs n_le]
    by (auto simp: log_trim_def Let_def fold_trim_one s'_def n_def first_segment_def split: list.splits)
  have hk': "list_all2 (holds (sl_segs s')) (sl_idx s') ?es"
    using cleared_holds(1) [OF hk sorted] by (simp add: s'_def n_def)
  have segs': "list_all (\<lambda>b. length b = SEGMENT_SIZE) (sl_segs s')"
    using segs by (auto simp: s'_def list_all_iff dest: in_set_dropD)
  have ents: "log_entries s' = ?es"
    using hk' segs' by (rule log_entries_eqI)
  have ok: "bt_ok ?kept"
    using inv by (simp add: log_inv_def bt_ok_def filter_key_map_fst sorted_wrt_filter)
  have inv': "log_inv s'"
    using inv hk' segs' ents ok n_le
    by (auto simp: log_inv_def s'_def list_all_iff write_end_def sorted_wrt_map sorted_wrt_filter)
  show ?thesis
    using that [of s'] trim inv' ents n_le inv
    by (simp add: log_entries_ids log_ready_def) (simp add: s'_def)
qed

text \<open>The result of an append as a function of the state, branch by branch.\<close>

definition append_outcome :: "bool \<Rightarrow> bytes \<Rightarrow> seg_log \<Rightarrow> (log_error, u64) result" where
  "append_outcome alloc p s =
     (let need = HEADER_SIZE + length p in
      if need > SEGMENT_SIZE then Err EntryTooLarge
      else if sl_write_cursor s + need \<le> SEGMENT_SIZE \<or> sl_active_seg s + 1 < length (sl_segs s)
        then Ok (sl_next_id s)
      else if length (sl_segs s) \<ge> MAX_SEGMENTS then Err MaxSegmentsReached
      else if \<not> alloc then Err AllocationFailed
      else Ok (sl_next_id s))"

lemma append_entry_outcome:
  assumes inv: "log_inv s" and ready: "log_ready s"
  shows "fst (append_entry alloc ts p s) = append_outcome alloc p s"
proof -
  have nf: "\<not> is_fault (fst (append_entry alloc ts p s))"
    using inv ready by (rule append_entry_no_fault)
  have "\<not> sl_lock_write s" "sl_active_seg s < length (sl_segs s)"
    using inv ready by (simp_all add: log_inv_def log_ready_def)
  then show ?thesis
    using nf
    by (auto simp: append_entry_def append_outcome_def roll_segment_def allocate_seg_def Let_def
        split: if_splits prod.splits result.splits option.splits)
qed

section \<open>The contract of the log\<close>

text \<open>
  What the groups rely on: the log is its list of live entries in id order; an append that
  succeeds extends the list at its end with the next id and one that fails changes nothing,
  a read is a lookup in the list, and a trim keeps the entries from the cutoff on.
\<close>

locale log_store =
  fixes invar :: "'s \<Rightarrow> bool"
    and entries :: "'s \<Rightarrow> entry list"
    and nxt :: "'s \<Rightarrow> u64"
    and app :: "bool \<Rightarrow> u64 \<Rightarrow> bytes \<Rightarrow> 's \<Rightarrow> (log_error, u64) result \<times> 's"
    and rd :: "u64 \<Rightarrow> 's \<Rightarrow> (log_error, entry) result"
    and trim :: "u64 \<Rightarrow> 's \<Rightarrow> (log_error, u64 list) result \<times> 's"
  assumes ids_sorted: "invar s \<Longrightarrow> sorted_wrt (<) (map fst (entries s))"
    and ids_below: "invar s \<Longrightarrow> e \<in> set (entries s) \<Longrightarrow> fst e < nxt s"
    and read_is_lookup: "invar s \<Longrightarrow> rd i s = (case map_of (entries s) i of
          None \<Rightarrow> Err EntryNotFound | Some (ts, p) \<Rightarrow> Ok (i, ts, p))"
    and app_ok: "invar s \<Longrightarrow> nxt s \<noteq> - 1 \<Longrightarrow> app alloc ts p s = (Ok i, s') \<Longrightarrow>
          i = nxt s \<and> nxt s' = nxt s + 1 \<and> entries s' = entries s @ [(i, ts, p)] \<and> invar s'"
    and app_err: "invar s \<Longrightarrow> app alloc ts p s = (Err err, s') \<Longrightarrow>
          nxt s' = nxt s \<and> entries s' = entries s \<and> invar s'"
    and trim_ok: "invar s \<Longrightarrow> \<exists>s'. trim c s = (Ok (filter (\<lambda>i. i < c) (map fst (entries s))), s') \<and>
          invar s' \<and> entries s' = filter (\<lambda>(i, e). c \<le> i) (entries s) \<and> nxt s' = nxt s"
begin

lemma distinct_ids: "invar s \<Longrightarrow> distinct (map fst (entries s))"
  using ids_sorted by (simp add: strict_sorted_iff)

lemma next_unused: "invar s \<Longrightarrow> map_of (entries s) (nxt s) = None"
  using ids_below by (fastforce simp: map_of_eq_None_iff)

text \<open>A read after a successful append: the new entry, and every other id as before.\<close>

lemma read_after_append:
  assumes "invar s" "nxt s \<noteq> - 1" "app alloc ts p s = (Ok i, s')"
  shows "rd j s' = (if j = i then Ok (i, ts, p) else rd j s)"
proof -
  have "map_of (entries s') j = (if j = i then Some (ts, p) else map_of (entries s) j)"
    using app_ok [OF assms] next_unused [OF assms(1)]
    by (simp add: map_of_append map_add_def split: option.split)
  then show ?thesis
    using app_ok [OF assms] assms(1) by (simp add: read_is_lookup)
qed

lemma read_after_failed_append:
  "invar s \<Longrightarrow> app alloc ts p s = (Err e, s') \<Longrightarrow> rd j s' = rd j s"
  using app_err by (simp add: read_is_lookup)

lemma read_after_trim:
  assumes "invar s" "trim c s = (r, s')"
  shows "rd j s' = (if j < c then Err EntryNotFound else rd j s)"
proof -
  have "entries s' = filter (\<lambda>(i, e). c \<le> i) (entries s)" "invar s'"
    using trim_ok [OF assms(1), of c] assms(2) by auto
  then show ?thesis
    using assms(1) by (auto simp: read_is_lookup map_of_filter_key)
qed

end

interpretation seglog: log_store log_inv log_entries sl_next_id append_entry log_read log_trim
proof
  fix s :: seg_log
  assume inv: "log_inv s"
  show "sorted_wrt (<) (map fst (log_entries s))"
    using inv by (simp add: log_entries_ids) (simp add: log_inv_def bt_ok_def bt_keys_def)
  show "fst e < sl_next_id s" if "e \<in> set (log_entries s)" for e
  proof -
    have "fst e \<in> set (bt_keys (sl_idx s))"
      using that log_entries_ids [OF inv] by (metis image_eqI list.set_map)
    then show ?thesis
      using inv by (auto simp: bt_keys_def log_inv_def list_all_iff)
  qed
  show "log_read i s = (case map_of (log_entries s) i of
      None \<Rightarrow> Err EntryNotFound | Some (ts, p) \<Rightarrow> Ok (i, ts, p))" for i
    using inv by (rule log_read_spec)
  show "\<exists>s'. log_trim c s = (Ok (filter (\<lambda>i. i < c) (map fst (log_entries s))), s') \<and>
      log_inv s' \<and> log_entries s' = filter (\<lambda>(i, e). c \<le> i) (log_entries s) \<and>
      sl_next_id s' = sl_next_id s" for c
    using log_trim_correct [OF inv, of c] by metis
next
  fix s :: seg_log and alloc ts p i s'
  assume "log_inv s" "sl_next_id s \<noteq> - 1" "append_entry alloc ts p s = (Ok i, s')"
  then show "i = sl_next_id s \<and> sl_next_id s' = sl_next_id s + 1 \<and>
      log_entries s' = log_entries s @ [(i, ts, p)] \<and> log_inv s'"
    using append_entry_Ok [of s alloc ts p i s'] by simp
next
  fix s :: seg_log and alloc ts p e s'
  assume "log_inv s" "append_entry alloc ts p s = (Err e, s')"
  then show "sl_next_id s' = sl_next_id s \<and> log_entries s' = log_entries s \<and> log_inv s'"
    using append_entry_Err [of s alloc ts p e s'] by simp
qed

end
