(* ===== verification/Seg_Log_Props.thy ===== *)
theory Seg_Log_Props
  imports Seg_Log
begin

text \<open>
  The properties of the segmented log, over all states a log can reach: memory safety, refinement
  of the abstract log by append, read, range read and trim, the exact outcome of an append, the
  wire format, and what a failed segment allocation leaves behind.
\<close>

section \<open>Histories of a log\<close>

text \<open>
  Every state a log can be in: created, then any sequence of appends (successful or refused) and
  trims. An append that panics has no state after it. Ids are used up after \<open>2 ^ 64 - 1\<close> appends,
  where \<open>next_id\<close> would wrap; histories stop there.
\<close>

inductive log_reachable :: "seg_log \<Rightarrow> bool" where
  created: "seglog_new alloc = Ok s \<Longrightarrow> log_reachable s"
| appended: "log_reachable s \<Longrightarrow> sl_next_id s \<noteq> - 1 \<Longrightarrow>
    append_entry alloc ts p s = (r, s') \<Longrightarrow> \<not> is_fault r \<Longrightarrow> log_reachable s'"
| trimmed: "log_reachable s \<Longrightarrow> log_trim c s = (r, s') \<Longrightarrow> \<not> is_fault r \<Longrightarrow> log_reachable s'"

lemma append_keeps_inv:
  "log_inv s \<Longrightarrow> sl_next_id s \<noteq> - 1 \<Longrightarrow> append_entry alloc ts p s = (r, s') \<Longrightarrow> \<not> is_fault r \<Longrightarrow> log_inv s'"
  by (cases r) (auto dest: append_entry_Ok(4) append_entry_Err(1))

lemma trim_keeps_inv: "log_inv s \<Longrightarrow> log_trim c s = (r, s') \<Longrightarrow> log_inv s'"
  using log_trim_correct [of s c] by (metis prod.inject)

lemma log_reachable_inv_aux: "log_reachable s \<Longrightarrow> log_inv s"
  by (induction rule: log_reachable.induct)
    (auto dest: log_new_inv(1) append_keeps_inv trim_keeps_inv)

lemma fresh_log:
  obtains s where "seglog_new (\<lambda>_. True) = Ok s" "log_inv s" "log_ready s" "log_entries s = []"
    "sl_next_id s = 1" "sl_write_cursor s = 0"
proof -
  obtain s where s: "seglog_new (\<lambda>_. True) = Ok s"
    by (simp add: seglog_new_def list_all_iff)
  moreover have "sl_write_cursor s = 0"
    using s by (auto simp: seglog_new_def split: if_splits)
  ultimately show thesis
    using that log_new_inv by blast
qed

lemma fresh_append:
  assumes "seglog_new (\<lambda>_. True) = Ok s" and "HEADER_SIZE + length p \<le> SEGMENT_SIZE"
  obtains s' where "append_entry True ts p s = (Ok 1, s')"
proof -
  have "sl_write_cursor s = 0"
    using assms(1) by (auto simp: seglog_new_def split: if_splits)
  then have "fst (append_entry True ts p s) = Ok 1"
    using append_entry_outcome log_new_inv [OF assms(1)] assms(2) by (simp add: append_outcome_def)
  then show thesis using that by (metis prod.collapse)
qed

text \<open>
  C1. Memory safety over whole histories: in every state a log can reach the representation
  invariant holds (segments keep their size, the index is sorted, its locations are disjoint and
  hold exactly the entry they were written for, \<open>entry_count\<close> is the index size) and reads, raw
  slices and trims stay inside their segment and never panic.
\<close>

theorem log_memory_safe:
  assumes "log_reachable s"
  shows "log_inv s \<and> sl_entry_count s = length (log_entries s) \<and> \<not> is_fault (log_read i s) \<and>
    \<not> is_fault (get_raw_entry_slice i s) \<and> \<not> is_fault (fst (log_trim c s))"
proof -
  have inv: "log_inv s" using assms by (rule log_reachable_inv_aux)
  have "\<not> is_fault (fst (log_trim c s))"
    using seglog.trim_ok [OF inv, of c] by auto
  then show ?thesis
    using inv log_inv_holds [OF inv]
    by (auto simp: log_read_spec raw_slice_spec list_all2_lengthD log_inv_def split: option.split)
qed

theorem log_memory_safe_witness: "\<exists>s. log_reachable s \<and> log_inv s \<and> \<not> is_fault (log_read 1 s)"
proof -
  obtain s where "seglog_new (\<lambda>_. True) = Ok s" by (rule fresh_log)
  then have "log_reachable s" by (rule log_reachable.created)
  with log_memory_safe [of s 1 0] show ?thesis by blast
qed

text \<open>
  C2. Append refines the abstract log: a successful append returns the next id, increments it and
  extends the live entries by exactly \<open>(id, timestamp, payload)\<close>; the invariant is kept.
\<close>

theorem append_refines:
  assumes "log_inv s" "sl_next_id s \<noteq> - 1" "append_entry alloc ts p s = (Ok i, s')"
  shows "i = sl_next_id s \<and> sl_next_id s' = sl_next_id s + 1 \<and>
    log_entries s' = log_entries s @ [(i, ts, p)] \<and> log_inv s' \<and> log_ready s'"
  using append_entry_Ok [OF assms(1,3,2)] by simp

theorem append_refines_witness:
  "\<exists>s s'. append_entry True 7 [1, 2] s = (Ok 1, s') \<and> log_entries s' = [(1, 7, [1, 2])] \<and> log_inv s'"
proof -
  obtain s where s: "seglog_new (\<lambda>_. True) = Ok s" "log_inv s" "log_entries s = []" "sl_next_id s = 1"
    by (rule fresh_log)
  obtain s' where "append_entry True 7 [1, 2] s = (Ok 1, s')"
    using fresh_append [OF s(1), of "[1, 2]" 7] by (auto simp: HEADER_SIZE_def SEGMENT_SIZE_def)
  with s append_refines [of s True 7 "[1, 2]" 1 s'] show ?thesis by auto
qed

text \<open>
  Round trip: after a successful append the new id reads back as exactly the timestamp and
  payload that were appended, and a read of any other id answers as before.
\<close>

theorem log_read_after_append:
  assumes "log_inv s" "sl_next_id s \<noteq> - 1" "append_entry alloc ts p s = (Ok i, s')"
  shows "log_read j s' = (if j = i then Ok (i, ts, p) else log_read j s)"
  using assms by (rule seglog.read_after_append)

theorem log_read_after_append_witness:
  "\<exists>s s'. append_entry True 9 [3] s = (Ok 1, s') \<and> log_read 1 s' = Ok (1, 9, [3]) \<and>
    log_read 2 s' = Err EntryNotFound"
proof -
  obtain s where s: "seglog_new (\<lambda>_. True) = Ok s" "log_inv s" "log_entries s = []" "sl_next_id s = 1"
    by (rule fresh_log)
  obtain s' where a: "append_entry True 9 [3] s = (Ok 1, s')"
    using fresh_append [OF s(1), of "[3]" 9] by (auto simp: HEADER_SIZE_def SEGMENT_SIZE_def)
  have "log_read 2 s = Err EntryNotFound"
    using s by (simp add: log_read_spec)
  then have "log_read 1 s' = Ok (1, 9, [3])" "log_read 2 s' = Err EntryNotFound"
    using log_read_after_append [OF s(2) _ a] s by simp_all
  with a show ?thesis by blast
qed

text \<open>
  Trim removes exactly the entries below the cutoff: it returns their ids in ascending order,
  every id below the cutoff reads as not found afterwards, and every other id reads as before,
  although the segments below the first kept entry are cleared.
\<close>

theorem trim_correct:
  assumes "log_inv s"
  shows "\<exists>s'. log_trim c s = (Ok (filter (\<lambda>i. i < c) (map fst (log_entries s))), s') \<and> log_inv s' \<and>
    (\<forall>j. log_read j s' = (if j < c then Err EntryNotFound else log_read j s))"
  using seglog.trim_ok [OF assms, of c] seglog.read_after_trim [OF assms] by metis

theorem trim_correct_witness:
  "\<exists>s s'. log_reachable s \<and> log_trim 2 s = (Ok [1], s') \<and> log_read 1 s' = Err EntryNotFound"
proof -
  obtain s where s: "seglog_new (\<lambda>_. True) = Ok s" "log_inv s" "log_entries s = []" "sl_next_id s = 1"
    by (rule fresh_log)
  obtain t where a: "append_entry True 9 [3] s = (Ok 1, t)"
    using fresh_append [OF s(1), of "[3]" 9] by (auto simp: HEADER_SIZE_def SEGMENT_SIZE_def)
  have t: "log_inv t" "log_entries t = [(1, 9, [3])]"
    using append_entry_Ok [OF s(2) a] s by simp_all
  have "log_reachable t"
    using log_reachable.appended [OF log_reachable.created [OF s(1)] _ a] s by simp
  with trim_correct [OF t(1), of 2] t(2) show ?thesis by fastforce
qed

text \<open>
  With an active segment in place an append never touches memory outside its segment and never
  panics; it is refused exactly when the entry is larger than a segment, or when a new segment is
  needed and the segment limit is reached or the allocator has no memory, and otherwise returns the
  next id. The write lock never refuses it.
\<close>

theorem append_outcome_exact:
  assumes "log_reachable s" "log_ready s"
  shows "fst (append_entry alloc ts p s) = append_outcome alloc p s"
  using log_reachable_inv_aux append_entry_outcome assms by blast

theorem append_outcome_exact_witness:
  "\<exists>s. log_reachable s \<and> log_ready s \<and>
     fst (append_entry False 5 (replicate SEGMENT_SIZE 0) s) = Err EntryTooLarge \<and>
     fst (append_entry False 5 [1] s) = Ok 1"
proof -
  obtain s where s: "seglog_new (\<lambda>_. True) = Ok s" "log_ready s" "sl_next_id s = 1" "sl_write_cursor s = 0"
    by (rule fresh_log)
  have r: "log_reachable s" using s(1) by (rule log_reachable.created)
  show ?thesis
    using r s append_outcome_exact [OF r s(2), of False 5]
    by (auto simp: append_outcome_def HEADER_SIZE_def SEGMENT_SIZE_def)
qed

text \<open>
  C36. A failed segment allocation is permanent: \<open>append\<close> advances \<open>active_seg\<close> before it
  allocates, so after it returned \<open>AllocationFailed\<close> or \<open>MaxSegmentsReached\<close> every later append
  of an entry that fits a segment panics on the segment index, whatever the allocator answers then.
\<close>

theorem append_after_alloc_failure_panics:
  assumes "log_reachable s" "append_entry alloc ts p s = (Err e, s1)"
    and "e = AllocationFailed \<or> e = MaxSegmentsReached"
    and "HEADER_SIZE + length q \<le> SEGMENT_SIZE"
  shows "append_entry alloc' ts' q s1 = (Fault IndexPanic, s1)"
proof -
  have inv: "log_inv s" using assms(1) by (rule log_reachable_inv_aux)
  show ?thesis
  proof (rule append_entry_stuck)
    show "log_inv s1" using append_entry_Err(1) [OF inv assms(2)] .
    show "\<not> log_ready s1" using append_entry_alloc_error [OF inv assms(2,3)] .
  qed (rule assms(4))
qed

text \<open>Filling one segment after the other with entries of maximal size.\<close>

lemma fill_segment:
  assumes "log_reachable s" "log_ready s" "sl_next_id s \<noteq> - 1"
    and "sl_write_cursor s = SEGMENT_SIZE" "sl_active_seg s + 1 < length (sl_segs s)"
  obtains s' where "log_reachable s'" "log_ready s'" "sl_next_id s' = sl_next_id s + 1"
    "sl_write_cursor s' = SEGMENT_SIZE" "sl_active_seg s' = sl_active_seg s + 1"
    "length (sl_segs s') = length (sl_segs s)"
proof -
  let ?p = "replicate (SEGMENT_SIZE - HEADER_SIZE) 0"
  have inv: "log_inv s" using assms(1) by (rule log_reachable_inv_aux)
  have len: "HEADER_SIZE + length ?p = SEGMENT_SIZE"
    by (simp add: HEADER_SIZE_def SEGMENT_SIZE_def)
  have "fst (append_entry True 0 ?p s) = Ok (sl_next_id s)"
    using append_entry_outcome [OF inv assms(2), of True 0 ?p] len assms(5)
    by (simp add: append_outcome_def)
  then obtain s' where app: "append_entry True 0 ?p s = (Ok (sl_next_id s), s')"
    by (metis prod.collapse)
  have "roll_segment True SEGMENT_SIZE s =
      (Ok (), s\<lparr>sl_active_seg := sl_active_seg s + 1, sl_write_cursor := 0\<rparr>)"
    using assms(4,5) by (simp add: roll_segment_def SEGMENT_SIZE_def)
  with app len have "sl_write_cursor s' = SEGMENT_SIZE" "sl_active_seg s' = sl_active_seg s + 1"
    "length (sl_segs s') = length (sl_segs s)"
    by (auto elim!: append_entry_OkE)
  moreover have "log_reachable s'"
    using log_reachable.appended [OF assms(1,3) app] by simp
  ultimately show thesis
    using that append_entry_Ok [OF inv app assms(3)] by metis
qed

lemma filled_log:
  "k < INITIAL_SEGMENTS \<Longrightarrow> \<exists>s. log_reachable s \<and> log_ready s \<and> sl_next_id s = word_of_nat (k + 2) \<and>
     sl_write_cursor s = SEGMENT_SIZE \<and> sl_active_seg s = k \<and> length (sl_segs s) = INITIAL_SEGMENTS"
proof (induction k)
  case 0
  let ?p = "replicate (SEGMENT_SIZE - HEADER_SIZE) 0"
  have len: "HEADER_SIZE + length ?p = SEGMENT_SIZE"
    by (simp add: HEADER_SIZE_def SEGMENT_SIZE_def)
  obtain s where s: "seglog_new (\<lambda>_. True) = Ok s" "log_inv s" "sl_next_id s = 1" "sl_write_cursor s = 0"
    by (rule fresh_log)
  obtain s' where app: "append_entry True 0 ?p s = (Ok 1, s')"
    using fresh_append [OF s(1), of ?p 0] len by auto
  have segs: "sl_active_seg s = 0" "length (sl_segs s) = INITIAL_SEGMENTS"
    using s(1) by (auto simp: seglog_new_def split: if_splits)
  have "roll_segment True SEGMENT_SIZE s = (Ok (), s)"
    using s(4) by (simp add: roll_segment_def)
  with app len s segs have "sl_write_cursor s' = SEGMENT_SIZE" "sl_active_seg s' = 0"
    "length (sl_segs s') = INITIAL_SEGMENTS"
    by (auto elim!: append_entry_OkE)
  moreover have "log_reachable s'"
    using log_reachable.appended [OF log_reachable.created [OF s(1)] _ app] s(3) by simp
  ultimately show ?case
    using append_entry_Ok [OF s(2) app] s(3) by (intro exI [of _ s']) simp
next
  case (Suc k)
  then obtain s where s: "log_reachable s" "log_ready s" "sl_next_id s = word_of_nat (k + 2)"
    "sl_write_cursor s = SEGMENT_SIZE" "sl_active_seg s = k" "length (sl_segs s) = INITIAL_SEGMENTS"
    by auto
  have "unat (word_of_nat (k + 2) :: u64) = k + 2"
    using Suc.prems by (simp add: unat_of_nat INITIAL_SEGMENTS_def del: of_nat_add of_nat_Suc)
  then have "unat (sl_next_id s) < unat (- 1 :: u64)"
    using Suc.prems s(3)
    by (simp add: INITIAL_SEGMENTS_def unsigned_minus_1_eq_mask mask_eq_exp_minus_1 del: of_nat_add of_nat_Suc)
  then have "sl_next_id s \<noteq> - 1" by auto
  from fill_segment [OF s(1,2) this s(4)] Suc.prems s(3,5,6) show ?case
    by (auto simp: add.commute)
qed

theorem append_after_alloc_failure_panics_witness:
  "\<exists>s s1. log_reachable s \<and> append_entry False 1 [1] s = (Err AllocationFailed, s1) \<and>
     append_entry True 2 [2] s1 = (Fault IndexPanic, s1)"
proof -
  obtain s where s: "log_reachable s" "log_ready s" "sl_write_cursor s = SEGMENT_SIZE"
    "sl_active_seg s = 7" "length (sl_segs s) = INITIAL_SEGMENTS"
    using filled_log [of 7] by (auto simp: INITIAL_SEGMENTS_def)
  have "fst (append_entry False 1 [1] s) = Err AllocationFailed"
    using append_entry_outcome [OF log_reachable_inv_aux [OF s(1)] s(2), of False 1 "[1]"] s(3-5)
    by (simp add: append_outcome_def HEADER_SIZE_def SEGMENT_SIZE_def INITIAL_SEGMENTS_def MAX_SEGMENTS_def)
  then obtain s1 where a: "append_entry False 1 [1] s = (Err AllocationFailed, s1)"
    by (metis prod.collapse)
  have "append_entry True 2 [2] s1 = (Fault IndexPanic, s1)"
    using append_after_alloc_failure_panics [OF s(1) a, of "[2]" True 2]
    by (simp add: HEADER_SIZE_def SEGMENT_SIZE_def)
  with s(1) a show ?thesis by blast
qed

text \<open>
  A range read returns the live entries of the range in id order, each with the timestamp and
  payload it was appended with, and panics exactly when the range is inverted.
\<close>

theorem read_range_exact:
  assumes "log_reachable s"
  shows "log_read_range a b s = (if a > b then Fault RangePanic
    else Ok (filter (\<lambda>(i, e). a \<le> i \<and> i \<le> b) (log_entries s)))"
  using log_reachable_inv_aux [OF assms] by (rule log_read_range_spec)

theorem read_range_exact_witness:
  "\<exists>s. log_reachable s \<and> log_read_range 1 5 s = Ok [(1, 9, [3])] \<and> log_read_range 5 1 s = Fault RangePanic"
proof -
  obtain s where s: "seglog_new (\<lambda>_. True) = Ok s" "log_inv s" "log_entries s = []" "sl_next_id s = 1"
    by (rule fresh_log)
  obtain t where a: "append_entry True 9 [3] s = (Ok 1, t)"
    using fresh_append [OF s(1), of "[3]" 9] by (auto simp: HEADER_SIZE_def SEGMENT_SIZE_def)
  have t: "log_entries t = [(1, 9, [3])]"
    using append_entry_Ok [OF s(2) a] s by simp
  have r: "log_reachable t"
    using log_reachable.appended [OF log_reachable.created [OF s(1)] _ a] s by simp
  then show ?thesis
    using read_range_exact [OF r, of 1 5] read_range_exact [OF r, of 5 1] t by auto
qed

text \<open>
  The zero-copy slice of a live entry is its wire format: id, timestamp and payload length in
  little endian, then the payload, and agrees with what \<open>read\<close> decodes.
\<close>

theorem raw_slice_wire_format:
  assumes "log_reachable s" "log_read i s = Ok (j, ts, p)"
  shows "get_raw_entry_slice i s =
    Ok (u64_le i @ u64_le ts @ u32_le (word_of_nat (length p)) @ p)"
proof -
  have inv: "log_inv s" using assms(1) by (rule log_reachable_inv_aux)
  then have "map_of (log_entries s) i = Some (ts, p)"
    using assms(2) by (simp add: log_read_spec split: option.splits prod.splits)
  with inv show ?thesis by (simp add: raw_slice_spec entry_bytes_def)
qed

theorem raw_slice_wire_format_witness:
  "\<exists>s. log_reachable s \<and> log_read 1 s = Ok (1, 9, [3]) \<and>
     get_raw_entry_slice 1 s = Ok (u64_le 1 @ u64_le 9 @ u32_le 1 @ [3])"
proof -
  obtain s where s: "seglog_new (\<lambda>_. True) = Ok s" "log_inv s" "log_entries s = []" "sl_next_id s = 1"
    by (rule fresh_log)
  obtain t where a: "append_entry True 9 [3] s = (Ok 1, t)"
    using fresh_append [OF s(1), of "[3]" 9] by (auto simp: HEADER_SIZE_def SEGMENT_SIZE_def)
  have r: "log_reachable t"
    using log_reachable.appended [OF log_reachable.created [OF s(1)] _ a] s by simp
  have "log_read 1 t = Ok (1, 9, [3])"
    using append_entry_Ok [OF s(2) a] s by (simp add: log_read_spec)
  with r raw_slice_wire_format [OF r this] show ?thesis by auto
qed

end
