(* ===== verification/Seg_Log_Space.thy ===== *)
theory Seg_Log_Space
  imports Seg_Log_Props Complex_Main
begin

text \<open>
  The memory of a segmented log. Segments are allocated on demand and filled one after the other; a
  trim clears segments that hold no live entry but never gives them back or fills them again. So the
  memory of a log is governed by everything that was ever appended, whatever was trimmed.
\<close>

section \<open>Usage of the active segment\<close>

text \<open>
  \<open>active_segment_usage\<close> computes in \<open>f64\<close>. The quotient and the product are multiples of \<open>2 ^ -16\<close>
  with numerators far below \<open>2 ^ 53\<close>, hence representable, so the rounding of the two operations
  does nothing and the figure is the real number.
\<close>

definition active_segment_usage :: "seg_log \<Rightarrow> real" where
  "active_segment_usage s = real (sl_write_cursor s) / real SEGMENT_SIZE * 100"

definition representable :: "real \<Rightarrow> bool" where
  "representable x \<longleftrightarrow> (\<exists>m e :: nat. x = real m / 2 ^ e \<and> m < 2 ^ 53 \<and> e < 1000)"

lemma usage_exact:
  assumes "log_inv s"
  shows "representable (real (sl_write_cursor s) / real SEGMENT_SIZE)" "representable (active_segment_usage s)"
    "0 \<le> active_segment_usage s" "active_segment_usage s \<le> 100"
proof -
  have c: "sl_write_cursor s \<le> 65536" using assms by (simp add: log_inv_def SEGMENT_SIZE_def)
  have "real (sl_write_cursor s) / real SEGMENT_SIZE = real (sl_write_cursor s) / 2 ^ 16"
    "active_segment_usage s = real (sl_write_cursor s * 100) / 2 ^ 16"
    by (simp_all add: active_segment_usage_def SEGMENT_SIZE_def)
  moreover have "sl_write_cursor s < 2 ^ 53" "sl_write_cursor s * 100 < 2 ^ 53" "16 < (1000 :: nat)" using c by simp_all
  ultimately show "representable (real (sl_write_cursor s) / real SEGMENT_SIZE)" "representable (active_segment_usage s)"
    unfolding representable_def by blast+
  show "0 \<le> active_segment_usage s" "active_segment_usage s \<le> 100"
    using c by (simp_all add: active_segment_usage_def SEGMENT_SIZE_def)
qed

section \<open>The write position\<close>

lemma append_position:
  assumes "append_entry alloc ts p s = (Ok i, s')"
  shows "sl_active_seg s' = (if sl_write_cursor s + (HEADER_SIZE + length p) > SEGMENT_SIZE then sl_active_seg s + 1 else sl_active_seg s)"
    and "sl_write_cursor s' = (if sl_write_cursor s + (HEADER_SIZE + length p) > SEGMENT_SIZE then 0 else sl_write_cursor s) + (HEADER_SIZE + length p)"
    and "length (sl_segs s') = (if sl_write_cursor s + (HEADER_SIZE + length p) > SEGMENT_SIZE \<and> sl_active_seg s + 1 \<ge> length (sl_segs s)
      then length (sl_segs s) + 1 else length (sl_segs s))"
  using assms by (auto simp: append_entry_def roll_segment_def allocate_seg_def Let_def split: if_splits option.splits)

lemma refused_position:
  assumes "append_entry alloc ts p s = (Err e, s')" "\<not> sl_lock_write s"
  shows "length (sl_segs s') = length (sl_segs s)"
    and "s' = s \<or> sl_active_seg s' = sl_active_seg s + 1 \<and> sl_write_cursor s' = 0 \<and> \<not> log_ready s'"
  using assms by (auto simp: append_entry_def roll_segment_def allocate_seg_def Let_def log_ready_def split: if_splits option.splits)

lemma zero_upto_length: "zero_upto n segs = Ok segs' \<Longrightarrow> length segs' = length segs"
  by (induction n arbitrary: segs') (auto split: result.splits if_splits option.splits)

lemma fold_trim_one_position [simp]:
  "sl_active_seg (fold trim_one is s) = sl_active_seg s" "sl_write_cursor (fold trim_one is s) = sl_write_cursor s"
  "sl_segs (fold trim_one is s) = sl_segs s"
  by (induction "is" arbitrary: s) (simp_all add: trim_one_def)

lemma trim_position:
  assumes "log_trim c s = (r, s')"
  shows "sl_active_seg s' = sl_active_seg s" "sl_write_cursor s' = sl_write_cursor s" "length (sl_segs s') = length (sl_segs s)"
  using assms by (auto simp: log_trim_def Let_def zero_upto_length split: list.splits result.splits prod.splits)

section \<open>Everything ever appended\<close>

text \<open>A history of a log with the number of bytes its successful appends have written.\<close>

inductive log_written :: "seg_log \<Rightarrow> nat \<Rightarrow> bool" where
  created: "seglog_new alloc = Ok s \<Longrightarrow> log_written s 0"
| appended: "log_written s n \<Longrightarrow> sl_next_id s \<noteq> - 1 \<Longrightarrow> append_entry alloc ts p s = (Ok i, s') \<Longrightarrow>
    log_written s' (n + HEADER_SIZE + length p)"
| refused: "log_written s n \<Longrightarrow> sl_next_id s \<noteq> - 1 \<Longrightarrow> append_entry alloc ts p s = (Err e, s') \<Longrightarrow> log_written s' n"
| trimmed: "log_written s n \<Longrightarrow> log_trim c s = (r, s') \<Longrightarrow> \<not> is_fault r \<Longrightarrow> log_written s' n"

lemma log_written_inv: "log_written s n \<Longrightarrow> log_inv s"
  by (induction rule: log_written.induct) (auto dest: log_new_inv(1) append_keeps_inv trim_keeps_inv)

text \<open>
  The write position is past everything written, and a segment is left only for an entry that did not
  fit: two neighbours hold more than one segment of bytes.
\<close>

definition space_inv :: "nat \<Rightarrow> seg_log \<Rightarrow> bool" where
  "space_inv n s \<longleftrightarrow> n \<le> sl_active_seg s * SEGMENT_SIZE + sl_write_cursor s \<and>
     (log_ready s \<longrightarrow> sl_active_seg s * SEGMENT_SIZE + sl_write_cursor s \<le> 2 * n) \<and>
     (length (sl_segs s) \<le> INITIAL_SEGMENTS \<or> (length (sl_segs s) - 1) * SEGMENT_SIZE \<le> 2 * n)"

lemma append_needs_ready:
  assumes "log_inv s" "append_entry alloc ts p s = (Ok i, s')"
  shows "log_ready s" "HEADER_SIZE + length p \<le> SEGMENT_SIZE"
  using assms by (auto simp: append_entry_def roll_segment_def allocate_seg_def Let_def log_inv_def log_ready_def
      split: if_splits option.splits)

lemma space_inv_append:
  assumes "log_inv s" "space_inv n s" "append_entry alloc ts p s = (Ok i, s')"
  shows "space_inv (n + HEADER_SIZE + length p) s'"
proof -
  let ?e = "HEADER_SIZE + length p" and ?k = "sl_active_seg s" and ?c = "sl_write_cursor s" and ?l = "length (sl_segs s)"
  note pos = append_position [OF assms(3)] and ready = append_needs_ready [OF assms(1,3)]
  have k: "?k < ?l" "?c \<le> SEGMENT_SIZE" using ready(1) assms(1) by (simp_all add: log_ready_def log_inv_def)
  have n: "n \<le> ?k * SEGMENT_SIZE + ?c" "?k * SEGMENT_SIZE + ?c \<le> 2 * n"
    "?l \<le> INITIAL_SEGMENTS \<or> (?l - 1) * SEGMENT_SIZE \<le> 2 * n"
    using assms(2) ready(1) by (simp_all add: space_inv_def)
  show ?thesis
  proof (cases "?c + ?e > SEGMENT_SIZE")
    case True
    then have "(?k + 1) * SEGMENT_SIZE \<le> 2 * (n + ?e)" "(?k + 1) * SEGMENT_SIZE + ?e \<le> 2 * (n + ?e)"
      "n + ?e \<le> (?k + 1) * SEGMENT_SIZE + ?e" using n(1,2) k(2) by simp_all
    moreover have "?l = ?k + 1" if "?l \<le> ?k + 1" using that k(1) by simp
    ultimately show ?thesis using True n(3) pos by (auto simp: space_inv_def)
  next
    case False
    then show ?thesis using n pos by (auto simp: space_inv_def)
  qed
qed

lemma space_inv_refused:
  assumes "log_inv s" "space_inv n s" "append_entry alloc ts p s = (Err e, s')"
  shows "space_inv n s'"
proof -
  have "\<not> sl_lock_write s" "sl_write_cursor s \<le> SEGMENT_SIZE" using assms(1) by (simp_all add: log_inv_def)
  with refused_position [OF assms(3)] assms(2) show ?thesis by (auto simp: space_inv_def)
qed

lemma log_written_space: "log_written s n \<Longrightarrow> space_inv n s"
proof (induction rule: log_written.induct)
  case (created alloc s)
  then show ?case by (auto simp: seglog_new_def space_inv_def split: if_splits)
next
  case (appended s n alloc ts p i s')
  then show ?case using space_inv_append log_written_inv by blast
next
  case (refused s n alloc ts p e s')
  then show ?case using space_inv_refused log_written_inv by blast
next
  case (trimmed s n c r s')
  then show ?case using trim_position [OF trimmed(2)] by (simp add: space_inv_def log_ready_def)
qed

text \<open>
  C3. The memory of a log follows what was ever appended, not what is live: its segments have room for
  every byte written since it was created, trims included, so that trimmed entries cost memory for as
  long as the log exists; and beyond the initial eight segments it takes at most one segment more than
  twice those bytes. The active segment is between 0 and 100 percent full.
\<close>

theorem log_memory_follows_appends:
  assumes "log_written s n"
  shows "n \<le> total_segments s * SEGMENT_SIZE \<and>
    (total_segments s \<le> INITIAL_SEGMENTS \<or> (total_segments s - 1) * SEGMENT_SIZE \<le> 2 * n) \<and>
    0 \<le> active_segment_usage s \<and> active_segment_usage s \<le> 100"
proof -
  have inv: "log_inv s" using assms by (rule log_written_inv)
  have sp: "space_inv n s" using assms by (rule log_written_space)
  have "sl_active_seg s * SEGMENT_SIZE + sl_write_cursor s \<le> length (sl_segs s) * SEGMENT_SIZE"
  proof (cases "log_ready s")
    case True
    then have "(sl_active_seg s + 1) * SEGMENT_SIZE \<le> length (sl_segs s) * SEGMENT_SIZE"
      by (intro mult_right_mono) (simp_all add: log_ready_def)
    with inv show ?thesis by (simp add: log_inv_def)
  next
    case False
    with inv show ?thesis by (auto simp: log_inv_def log_ready_def)
  qed
  with sp usage_exact [OF inv] show ?thesis by (auto simp: space_inv_def total_segments_def)
qed

text \<open>A log whose only entry was trimmed.\<close>

theorem log_memory_follows_appends_witness:
  "\<exists>s n. log_written s n \<and> log_entries s = [] \<and> n = HEADER_SIZE + 2 \<and> n \<le> total_segments s * SEGMENT_SIZE"
proof -
  obtain s where s: "seglog_new (\<lambda>_. True) = Ok s" "log_inv s" "log_entries s = []" "sl_next_id s = 1"
    by (rule fresh_log)
  obtain s1 where a: "append_entry True 7 [1, 2] s = (Ok 1, s1)"
    using fresh_append [OF s(1), of "[1, 2]" 7] by (auto simp: HEADER_SIZE_def SEGMENT_SIZE_def)
  note A = append_entry_Ok [OF s(2) a]
  have w: "log_written s1 (0 + HEADER_SIZE + length [1, 2 :: u8])"
    using log_written.appended [OF log_written.created [OF s(1)] _ a] s(4) by simp
  have s1: "log_inv s1" "log_entries s1 = [(1, 7, [1, 2])]" using A s by simp_all
  obtain s2 where t: "log_trim 2 s1 = (Ok (filter (\<lambda>i. i < 2) (map fst (log_entries s1))), s2)"
    "log_entries s2 = filter (\<lambda>(i, e). 2 \<le> i) (log_entries s1)" by (rule log_trim_correct [OF s1(1), of 2])
  have "\<not> (2 :: u64) \<le> 1" by (simp add: word_le_nat_alt)
  with log_memory_follows_appends [OF log_written.trimmed [OF w t(1)]] log_written.trimmed [OF w t(1)] t(2) s1(2)
  show ?thesis by (intro exI [of _ s2] exI [of _ "HEADER_SIZE + 2"]) simp
qed

end
