(* ===== verification/Log_Tests.thy ===== *)
theory Log_Tests
  imports Seg_Log_Space
begin

text \<open>
  The unit tests of the segmented log (\<open>mod tests\<close> of \<open>seg_log.rs\<close>), translated and shown to pass. They are
  the authors' own statement of what the log should do; here they follow from the laws of the
  component. A test ends in \<open>None\<close> where an assertion or an \<open>unwrap\<close> would fail. Memory is available.
\<close>

section \<open>Assertions\<close>

definition unwrap :: "('e, 'a) result \<Rightarrow> 'a option" where
  "unwrap r = (case r of Ok x \<Rightarrow> Some x | _ \<Rightarrow> None)"

definition call :: "('s \<Rightarrow> ('e, 'a) result \<times> 's) \<Rightarrow> 's \<Rightarrow> ('a \<times> 's) option" where
  "call f s = (case f s of (Ok x, s') \<Rightarrow> Some (x, s') | _ \<Rightarrow> None)"

definition check :: "bool \<Rightarrow> unit option" where
  "check b = (if b then Some () else None)"

definition is_err :: "('e, 'a) result \<Rightarrow> bool" where
  "is_err r = (case r of Err _ \<Rightarrow> True | _ \<Rightarrow> False)"

definition is_ok :: "('e, 'a) result \<Rightarrow> bool" where
  "is_ok r = (case r of Ok _ \<Rightarrow> True | _ \<Rightarrow> False)"

definition fails :: "('s \<Rightarrow> ('e, 'a) result \<times> 's) \<Rightarrow> 's \<Rightarrow> 's option" where
  "fails f s = (case f s of (Err _, s') \<Rightarrow> Some s' | _ \<Rightarrow> None)"

lemma assertions [simp]:
  "unwrap (Ok x) = Some x" "check True = Some ()" "is_err (Err e)" "\<not> is_err (Ok x)" "is_ok (Ok x)" "\<not> is_ok (Err e)"
  by (simp_all add: unwrap_def check_def is_err_def is_ok_def)

text \<open>A test is evaluated from its first statement on.\<close>

lemma bind_first: "m = m' \<Longrightarrow> Option.bind m f = Option.bind m' f"
  by simp

section \<open>The tests\<close>

text \<open>\<open>for i in ..\<close> with an append that has to succeed.\<close>

fun append_loop :: "(nat \<Rightarrow> u64 \<times> bytes) \<Rightarrow> nat list \<Rightarrow> seg_log \<Rightarrow> seg_log option" where
  "append_loop f [] l = Some l"
| "append_loop f (i # is) l = do {
     (_, l1) \<leftarrow> call (append_entry True (fst (f i)) (snd (f i))) l;
     append_loop f is l1
   }"

fun digits :: "nat \<Rightarrow> bytes" where
  "digits n = (if n < 10 then [] else digits (n div 10)) @ [word_of_nat (48 + n mod 10)]"

declare digits.simps [simp del]

definition text_bytes :: "string \<Rightarrow> bytes" where
  "text_bytes t = map of_char t"

definition sensor_entry :: "nat \<Rightarrow> u64 \<times> bytes" where
  "sensor_entry i = (1700000000000 + word_of_nat i * 50,
     text_bytes ''sensor:temp-'' @ digits (i mod 10) @ text_bytes '' value:'' @ digits (20 + i mod 15) @ text_bytes ''.'' @
     digits (i mod 100) @ text_bytes '' unit:c'')"

definition test_full_lifecycle :: "unit option" where
  "test_full_lifecycle = do {
     l0 \<leftarrow> unwrap (seglog_new (\<lambda>_. True));
     l \<leftarrow> append_loop sensor_entry [0..<1000] l0;
     check (total_entries l = 1000);
     check (list_all (\<lambda>i. log_read (word_of_nat i) l = Ok (word_of_nat i, sensor_entry (i - 1))) [1, 50, 250, 500, 750, 999, 1000]);
     rs \<leftarrow> unwrap (log_read_range 100 109 l);
     check (length rs = 10);
     check (list_all (\<lambda>(idx, e). fst e = 100 + word_of_nat idx) (enumerate 0 rs));
     (_, l1) \<leftarrow> call (log_trim 501) l;
     check (total_entries l1 = 500);
     check (is_err (log_read 1 l1));
     check (is_err (log_read 500 l1));
     check (is_ok (log_read 501 l1));
     (new_id, l2) \<leftarrow> call (append_entry True 9999999999999 (text_bytes ''post-trim-event'')) l1;
     check (new_id = 1001);
     (_, _, data) \<leftarrow> unwrap (log_read new_id l2);
     check (data = text_bytes ''post-trim-event'')
   }"

definition filled_entry :: "nat \<Rightarrow> u64 \<times> bytes" where
  "filled_entry i = (word_of_nat i, replicate 1000 (word_of_nat i))"

definition test_segment_boundary_integrity :: "unit option" where
  "test_segment_boundary_integrity = do {
     l0 \<leftarrow> unwrap (seglog_new (\<lambda>_. True));
     l \<leftarrow> append_loop filled_entry [0..<500] l0;
     check (total_segments l > 1);
     check (list_all (\<lambda>i. case log_read (word_of_nat i) l of
         Ok (_, ts, data) \<Rightarrow> ts = word_of_nat (i - 1) \<and> length data = 1000 \<and> list_all (\<lambda>b. b = word_of_nat (i - 1)) data
       | _ \<Rightarrow> False) [1..<501])
   }"

definition test_wire_format_and_zero_copy :: "unit option" where
  "test_wire_format_and_zero_copy = do {
     l0 \<leftarrow> unwrap (seglog_new (\<lambda>_. True));
     (i, l) \<leftarrow> call (append_entry True 0xAABBCCDD11223344 (text_bytes ''wire-fmt'')) l0;
     raw \<leftarrow> unwrap (get_raw_entry_slice i l);
     check (length raw = HEADER_SIZE + length (text_bytes ''wire-fmt''));
     let raw_id = u64_from_le (take 8 raw);
     let raw_ts = u64_from_le (take 8 (drop 8 raw));
     let raw_len = unat (u32_from_le (take 4 (drop 16 raw)));
     let raw_payload = take raw_len (drop HEADER_SIZE raw);
     (s_id, s_ts, s_payload) \<leftarrow> unwrap (log_read i l);
     check (raw_id = s_id);
     check (raw_ts = s_ts);
     check (raw_ts = 0xAABBCCDD11223344);
     check (raw_payload = s_payload);
     check (raw_payload = text_bytes ''wire-fmt'')
   }"

definition test_edge_cases :: "unit option" where
  "test_edge_cases = do {
     l0 \<leftarrow> unwrap (seglog_new (\<lambda>_. True));
     (id1, l1) \<leftarrow> call (append_entry True 0 []) l0;
     (_, _, d1) \<leftarrow> unwrap (log_read id1 l1);
     check (d1 = []);
     (id2, l2) \<leftarrow> call (append_entry True (- 1) (replicate (SEGMENT_SIZE - HEADER_SIZE) 0xFF)) l1;
     (_, ts, d2) \<leftarrow> unwrap (log_read id2 l2);
     check (ts = - 1);
     check (length d2 = SEGMENT_SIZE - HEADER_SIZE);
     l3 \<leftarrow> fails (append_entry True 1 (replicate (SEGMENT_SIZE - HEADER_SIZE + 1) 0)) l2;
     check (is_err (log_read 0 l3));
     check (is_err (log_read 9999 l3));
     check (is_err (get_raw_entry_slice 9999 l3));
     rs \<leftarrow> unwrap (log_read_range 5000 6000 l3);
     check (rs = [])
   }"

definition test_drop_safety :: "unit option" where
  "test_drop_safety = do {
     _ \<leftarrow> unwrap (seglog_new (\<lambda>_. True));
     l0 \<leftarrow> unwrap (seglog_new (\<lambda>_. True));
     l \<leftarrow> append_loop (\<lambda>_. (1, replicate 2000 0)) [0..<300] l0;
     _ \<leftarrow> call (log_trim 200) l;
     Some ()
   }"

section \<open>Appends that succeed\<close>

definition log_at :: "nat \<Rightarrow> entry list \<Rightarrow> nat \<Rightarrow> seg_log \<Rightarrow> bool" where
  "log_at k es n s \<longleftrightarrow> log_inv s \<and> log_ready s \<and> log_entries s = es \<and> sl_next_id s = word_of_nat n \<and> 8 \<le> length (sl_segs s) \<and>
     length (sl_segs s) \<le> k"

lemma log_at_new:
  obtains s where "seglog_new (\<lambda>_. True) = Ok s" "log_at 8 [] 1 s"
proof -
  obtain s where "seglog_new (\<lambda>_. True) = Ok s" "log_inv s" "log_ready s" "log_entries s = []" "sl_next_id s = 1"
    by (rule fresh_log)
  then show thesis using that by (auto simp: log_at_def seglog_new_def INITIAL_SEGMENTS_def split: if_splits)
qed

lemma log_at_append:
  assumes s: "log_at k es n s" and fits: "HEADER_SIZE + length p \<le> SEGMENT_SIZE" and "n < 2 ^ 64 - 1" "k < MAX_SEGMENTS"
  obtains s' where "append_entry True ts p s = (Ok (word_of_nat n), s')" "log_at (Suc k) (es @ [(word_of_nat n, ts, p)]) (Suc n) s'"
proof -
  have inv: "log_inv s" "log_ready s" and es: "log_entries s = es" "sl_next_id s = word_of_nat n" "length (sl_segs s) \<le> k" "8 \<le> length (sl_segs s)"
    using s by (simp_all add: log_at_def)
  have "fst (append_entry True ts p s) = Ok (word_of_nat n)"
    using append_entry_outcome [OF inv, of True ts p] fits es assms(4) by (simp add: append_outcome_def Let_def)
  then obtain s' where s': "append_entry True ts p s = (Ok (word_of_nat n), s')" by (metis prod.collapse)
  have "(word_of_nat n :: u64) \<noteq> - 1"
  proof
    assume "(word_of_nat n :: u64) = - 1"
    then have "unat (word_of_nat n :: u64) = 2 ^ 64 - 1" by (simp add: unsigned_minus_1_eq_mask mask_eq_exp_minus_1)
    with assms(3) show False by (simp add: unat_of_nat)
  qed
  then have ids: "sl_next_id s \<noteq> - 1" using es by simp
  note A = append_entry_Ok [OF inv(1) s' ids]
  have "length (sl_segs s') \<le> Suc k" "8 \<le> length (sl_segs s')" using append_position(3) [OF s'] es(3,4) by (simp_all split: if_splits)
  then have "log_at (Suc k) (es @ [(word_of_nat n, ts, p)]) (Suc n) s'"
    unfolding log_at_def using A(2-5) es(1,2) by (metis add.commute of_nat_Suc)
  with s' show thesis by (rule that)
qed

text \<open>The entries a loop over \<open>0..n\<close> leaves in a fresh log.\<close>

definition loop_entries :: "(nat \<Rightarrow> u64 \<times> bytes) \<Rightarrow> nat \<Rightarrow> entry list" where
  "loop_entries f n = map (\<lambda>j. (word_of_nat (Suc j), f j)) [0..<n]"

lemma append_loop_append: "append_loop f (xs @ ys) s = append_loop f xs s \<bind> append_loop f ys"
  by (induction xs arbitrary: s) (auto simp: bind_assoc split: prod.split intro!: Option.bind_cong)

lemma loop_run:
  assumes "seglog_new (\<lambda>_. True) = Ok s" "log_at 8 [] 1 s" "\<And>i. HEADER_SIZE + length (snd (f i)) \<le> SEGMENT_SIZE" "n \<le> 1000"
  shows "\<exists>s'. append_loop f [0..<n] s = Some s' \<and> log_at (8 + n) (loop_entries f n) (Suc n) s'"
  using assms(4)
proof (induction n)
  case 0
  then show ?case using assms(2) by (simp add: loop_entries_def)
next
  case (Suc n)
  then obtain s1 where s1: "append_loop f [0..<n] s = Some s1" "log_at (8 + n) (loop_entries f n) (Suc n) s1" by auto
  have "Suc n < 2 ^ 64 - 1" "8 + n < MAX_SEGMENTS" using Suc.prems by (simp_all add: MAX_SEGMENTS_def)
  from log_at_append [OF s1(2) assms(3) this]
  obtain s2 where s2: "append_entry True (fst (f n)) (snd (f n)) s1 = (Ok (word_of_nat (Suc n)), s2)"
    "log_at (Suc (8 + n)) (loop_entries f n @ [(word_of_nat (Suc n), fst (f n), snd (f n))]) (Suc (Suc n)) s2" by metis
  then show ?case using s1(1) by (simp add: append_loop_append call_def loop_entries_def)
qed

lemma of_nat_id_eq: "a < 2 ^ 64 \<Longrightarrow> b < 2 ^ 64 \<Longrightarrow> (word_of_nat a :: u64) = word_of_nat b \<longleftrightarrow> a = b"
  by (auto dest: arg_cong [of _ _ unat] simp: unat_of_nat)

lemma of_nat_id_le: "a < 2 ^ 64 \<Longrightarrow> b < 2 ^ 64 \<Longrightarrow> (word_of_nat a :: u64) \<le> word_of_nat b \<longleftrightarrow> a \<le> b"
  by (simp add: word_le_nat_alt unat_of_nat)

lemma loop_lookup:
  assumes "n \<le> 1000" "i < 2 ^ 64"
  shows "map_of (loop_entries f n) (word_of_nat i) = (if 0 < i \<and> i \<le> n then Some (f (i - 1)) else None)"
  using assms(1)
proof (induction n)
  case (Suc n)
  have "(word_of_nat (Suc n) :: u64) = word_of_nat i \<longleftrightarrow> Suc n = i" using Suc.prems assms(2) by (intro of_nat_id_eq) simp_all
  with Suc show ?case by (cases "i = Suc n"; cases "i = 0") (auto simp: loop_entries_def map_add_def simp del: of_nat_Suc split: option.splits)
qed (auto simp: loop_entries_def)

lemma upt_filter:
  assumes "a \<le> b" "b \<le> n"
  shows "filter (\<lambda>j. a \<le> j \<and> j < b) [0..<n] = [a..<b]"
proof -
  have "[0..<n] = [0..<a] @ [a..<b] @ [b..<n]"
    using assms upt_add_eq_append [of 0 a "n - a"] upt_add_eq_append [of a b "n - b"] by simp
  then show ?thesis by (simp add: filter_id_conv filter_empty_conv)
qed

lemma loop_filter:
  assumes "n \<le> 1000" "0 < a" "a \<le> Suc b" "b \<le> n"
  shows "filter (\<lambda>(i, e). word_of_nat a \<le> i \<and> i \<le> word_of_nat b) (loop_entries f n) = map (\<lambda>j. (word_of_nat (Suc j), f j)) [a - 1..<b]"
proof -
  have "filter (\<lambda>(i, e). word_of_nat a \<le> i \<and> i \<le> word_of_nat b) (loop_entries f n) =
      map (\<lambda>j. (word_of_nat (Suc j), f j)) (filter (\<lambda>j. a - 1 \<le> j \<and> j < b) [0..<n])"
    unfolding loop_entries_def filter_map comp_def
    using assms of_nat_id_le by (intro arg_cong [of _ _ "map _"] filter_cong) (auto simp del: of_nat_Suc)
  then show ?thesis using upt_filter [of "a - 1" b n] assms by simp
qed

lemma log_at_trim:
  assumes s: "log_at k es n s"
  obtains s' where "call (log_trim c) s = Some (filter (\<lambda>i. i < c) (map fst es), s')" "log_at k (filter (\<lambda>(i, e). c \<le> i) es) n s'"
proof -
  have "log_inv s" using s by (simp add: log_at_def)
  then obtain s' where "log_trim c s = (Ok (filter (\<lambda>i. i < c) (map fst (log_entries s))), s')" "log_inv s'"
    "log_entries s' = filter (\<lambda>(i, e). c \<le> i) (log_entries s)" "sl_next_id s' = sl_next_id s" "log_ready s' = log_ready s"
    by (rule log_trim_correct)
  note t = this
  have "log_at k (filter (\<lambda>(i, e). c \<le> i) es) n s'"
    using s t(2-5) trim_position(3) [OF t(1)] unfolding log_at_def by metis
  moreover have "call (log_trim c) s = Some (filter (\<lambda>i. i < c) (map fst es), s')"
    using s t(1) unfolding log_at_def call_def by simp
  ultimately show thesis using that by blast
qed

lemma log_at_call:
  assumes "log_at k es n s" "HEADER_SIZE + length p \<le> SEGMENT_SIZE" "n < 2 ^ 64 - 1" "k < MAX_SEGMENTS"
  obtains s' where "call (append_entry True ts p) s = Some (word_of_nat n, s')" "log_at (Suc k) (es @ [(word_of_nat n, ts, p)]) (Suc n) s'"
proof -
  obtain s' where s': "append_entry True ts p s = (Ok (word_of_nat n), s')" "log_at (Suc k) (es @ [(word_of_nat n, ts, p)]) (Suc n) s'"
    by (rule log_at_append [OF assms])
  from s'(1) have "call (append_entry True ts p) s = Some (word_of_nat n, s')" by (simp add: call_def)
  then show thesis using s'(2) by (rule that)
qed

lemma log_at_reads:
  assumes "log_at k es n s"
  shows "log_read i s = (case map_of es i of None \<Rightarrow> Err EntryNotFound | Some e \<Rightarrow> Ok (i, e))"
    and "get_raw_entry_slice i s = (case map_of es i of None \<Rightarrow> Err ''entry not found'' | Some e \<Rightarrow> Ok (entry_bytes (i, e)))"
    and "a \<le> b \<Longrightarrow> log_read_range a b s = Ok (filter (\<lambda>(i, e). a \<le> i \<and> i \<le> b) es)"
    and "total_entries s = word_of_nat (length es)"
proof -
  have inv: "log_inv s" "log_entries s = es" using assms by (simp_all add: log_at_def)
  show "log_read i s = (case map_of es i of None \<Rightarrow> Err EntryNotFound | Some e \<Rightarrow> Ok (i, e))"
    "get_raw_entry_slice i s = (case map_of es i of None \<Rightarrow> Err ''entry not found'' | Some e \<Rightarrow> Ok (entry_bytes (i, e)))"
    using inv by (auto simp: log_read_spec raw_slice_spec split: option.splits)
  show "a \<le> b \<Longrightarrow> log_read_range a b s = Ok (filter (\<lambda>(i, e). a \<le> i \<and> i \<le> b) es)"
    using inv log_read_range_spec [OF inv(1), of a b] by simp
  show "total_entries s = word_of_nat (length es)"
    using inv by (simp add: total_entries_def log_inv_def log_entries_def flip: inv(2))
qed

section \<open>The tests pass\<close>

lemma digits_length: "n < 100 \<Longrightarrow> length (digits n) \<le> 2"
proof -
  assume "n < 100"
  then have "n div 10 < 10" by linarith
  then show ?thesis by (simp add: digits.simps [of n] digits.simps [of "n div 10"])
qed

lemma sensor_fits: "HEADER_SIZE + length (snd (sensor_entry i)) \<le> SEGMENT_SIZE"
proof -
  have "length (digits (i mod 10)) \<le> 2" "length (digits (20 + i mod 15)) \<le> 2" "length (digits (i mod 100)) \<le> 2"
    using mod_less_divisor [of 10 i] mod_less_divisor [of 15 i] mod_less_divisor [of 100 i]
    by (intro digits_length; linarith)+
  then show ?thesis by (simp add: sensor_entry_def text_bytes_def HEADER_SIZE_def SEGMENT_SIZE_def)
qed

lemma edge_cases_pass: "test_edge_cases = Some ()"
proof -
  obtain s0 where s0: "seglog_new (\<lambda>_. True) = Ok s0" "log_at 8 [] 1 s0" by (rule log_at_new)
  have c: "HEADER_SIZE + length ([] :: bytes) \<le> SEGMENT_SIZE" "1 < (2 :: nat) ^ 64 - 1" "8 < MAX_SEGMENTS"
    "HEADER_SIZE + length (replicate (SEGMENT_SIZE - HEADER_SIZE) (0xFF :: u8)) \<le> SEGMENT_SIZE" "2 < (2 :: nat) ^ 64 - 1" "9 < MAX_SEGMENTS"
    by (simp_all add: HEADER_SIZE_def SEGMENT_SIZE_def MAX_SEGMENTS_def)
  obtain s1 where s1: "call (append_entry True 0 []) s0 = Some (1, s1)" "log_at 9 [(1, 0, [])] 2 s1"
    using log_at_call [OF s0(2) c(1-3), of 0] by (auto simp: numeral_2_eq_2 eval_nat_numeral)
  let ?max = "replicate (SEGMENT_SIZE - HEADER_SIZE) (0xFF :: u8)"
  obtain s2 where s2: "call (append_entry True (- 1) ?max) s1 = Some (2, s2)" "log_at 10 [(1, 0, []), (2, - 1, ?max)] 3 s2"
    using log_at_call [OF s1(2) c(4-6), of "- 1"] by (auto simp: eval_nat_numeral)
  have "append_entry True 1 (replicate (SEGMENT_SIZE - HEADER_SIZE + 1) 0) s2 = (Err EntryTooLarge, s2)"
    by (simp add: append_entry_def Let_def HEADER_SIZE_def SEGMENT_SIZE_def)
  moreover have "\<not> (5000 :: u64) \<le> 1" "\<not> (5000 :: u64) \<le> 2" "(5000 :: u64) \<le> 6000" by (simp_all add: word_le_nat_alt)
  ultimately show ?thesis using s0(1) s1 s2 log_at_reads [OF s1(2)] log_at_reads [OF s2(2)]
    by (simp add: test_edge_cases_def fails_def)
qed

lemma wire_format_pass: "test_wire_format_and_zero_copy = Some ()"
proof -
  obtain s0 where s0: "seglog_new (\<lambda>_. True) = Ok s0" "log_at 8 [] 1 s0" by (rule log_at_new)
  let ?p = "text_bytes ''wire-fmt''"
  have p: "length ?p = 8" by (simp add: text_bytes_def)
  have c: "HEADER_SIZE + length ?p \<le> SEGMENT_SIZE" "1 < (2 :: nat) ^ 64 - 1" "8 < MAX_SEGMENTS"
    by (simp_all add: p HEADER_SIZE_def SEGMENT_SIZE_def MAX_SEGMENTS_def)
  obtain s1 where s1: "call (append_entry True 0xAABBCCDD11223344 ?p) s0 = Some (1, s1)" "log_at 9 [(1, 0xAABBCCDD11223344, ?p)] 2 s1"
    using log_at_call [OF s0(2) c(1-3), of "0xAABBCCDD11223344"] by (auto simp: numeral_2_eq_2 eval_nat_numeral)
  with s0(1) log_at_reads [OF s1(2)] show ?thesis
    by (simp add: test_wire_format_and_zero_copy_def entry_bytes_def HEADER_SIZE_def p)
qed

lemma boundary_integrity_pass: "test_segment_boundary_integrity = Some ()"
proof -
  obtain s0 where s0: "seglog_new (\<lambda>_. True) = Ok s0" "log_at 8 [] 1 s0" by (rule log_at_new)
  have "HEADER_SIZE + length (snd (filled_entry i)) \<le> SEGMENT_SIZE" for i
    by (simp add: filled_entry_def HEADER_SIZE_def SEGMENT_SIZE_def)
  from loop_run [where f = filled_entry, OF s0 this, of 500]
  obtain s where s: "append_loop filled_entry [0..<500] s0 = Some s" "log_at 508 (loop_entries filled_entry 500) 501 s" by auto
  have "total_segments s > 1" using s(2) by (simp add: total_segments_def log_at_def)
  moreover have "log_read (word_of_nat i) s = Ok (word_of_nat i, filled_entry (i - 1))" if "i \<in> {1..<501}" for i
    using that log_at_reads(1) [OF s(2), of "word_of_nat i"] loop_lookup [of 500 i filled_entry] by simp
  ultimately show ?thesis using s0(1) s(1)
    by (simp add: test_segment_boundary_integrity_def list_all_iff filled_entry_def del: upt_Suc upt_rec_numeral)
qed

lemma drop_safety_pass: "test_drop_safety = Some ()"
proof -
  obtain s0 where s0: "seglog_new (\<lambda>_. True) = Ok s0" "log_at 8 [] 1 s0" by (rule log_at_new)
  have "HEADER_SIZE + length (snd (1 :: u64, replicate 2000 (0 :: u8))) \<le> SEGMENT_SIZE" for i :: nat
    by (simp add: HEADER_SIZE_def SEGMENT_SIZE_def)
  from loop_run [where f = "\<lambda>_. (1, replicate 2000 0)", OF s0 this, of 300]
  obtain s where s: "append_loop (\<lambda>_. (1, replicate 2000 0)) [0..<300] s0 = Some s"
    "log_at 308 (loop_entries (\<lambda>_. (1, replicate 2000 0)) 300) 301 s" by auto
  from log_at_trim [OF s(2), of 200] obtain r s' where "call (log_trim 200) s = Some (r, s')" by metis
  then show ?thesis using s0(1) s(1) by (simp add: test_drop_safety_def del: upt_rec_numeral)
qed

text \<open>The log of the lifecycle test after its loop, and what the test reads from it.\<close>

lemma lifecycle_reads:
  assumes "log_at 1008 (loop_entries sensor_entry 1000) 1001 s"
  shows "total_entries s = 1000"
    and "i \<in> {1..1000} \<Longrightarrow> log_read (word_of_nat i) s = Ok (word_of_nat i, sensor_entry (i - 1))"
    and "log_read_range 100 109 s = Ok (map (\<lambda>j. (word_of_nat (Suc j), sensor_entry j)) [99..<109])"
proof -
  show "total_entries s = 1000" using log_at_reads(4) [OF assms] by (simp add: loop_entries_def)
  show "i \<in> {1..1000} \<Longrightarrow> log_read (word_of_nat i) s = Ok (word_of_nat i, sensor_entry (i - 1))"
    using log_at_reads(1) [OF assms, of "word_of_nat i"] loop_lookup [of 1000 i sensor_entry] by simp
  have "(100 :: u64) \<le> 109" by (simp add: word_le_nat_alt)
  from log_at_reads(3) [OF assms this] loop_filter [of 1000 100 109 sensor_entry]
  show "log_read_range 100 109 s = Ok (map (\<lambda>j. (word_of_nat (Suc j), sensor_entry j)) [99..<109])"
    by (simp del: upt_rec_numeral)
qed

lemma lifecycle_range:
  assumes "rs = map (\<lambda>j. (word_of_nat (Suc j) :: u64, sensor_entry j)) [99..<109]"
  shows "length rs = 10" "list_all (\<lambda>(idx, e). fst e = 100 + word_of_nat idx) (enumerate 0 rs)"
  using assms by simp_all

lemma lifecycle_kept: "length (filter (\<lambda>(i, e). 501 \<le> i) (loop_entries sensor_entry 1000)) = 500"
proof -
  have "i \<le> word_of_nat 1000" if "(i, e) \<in> set (loop_entries sensor_entry 1000)" for i e
    using that of_nat_id_le by (auto simp: loop_entries_def simp del: of_nat_Suc of_nat_numeral)
  then have "filter (\<lambda>(i, e). 501 \<le> i) (loop_entries sensor_entry 1000) =
      filter (\<lambda>(i, e). word_of_nat 501 \<le> i \<and> i \<le> word_of_nat 1000) (loop_entries sensor_entry 1000)"
    by (intro filter_cong) auto
  then show ?thesis using loop_filter [of 1000 501 1000 sensor_entry] by (simp del: of_nat_numeral upt_rec_numeral)
qed

lemma lifecycle_pass: "test_full_lifecycle = Some ()"
proof -
  obtain s0 where s0: "seglog_new (\<lambda>_. True) = Ok s0" "log_at 8 [] 1 s0" by (rule log_at_new)
  obtain s where s: "append_loop sensor_entry [0..<1000] s0 = Some s" "log_at 1008 (loop_entries sensor_entry 1000) 1001 s"
    using loop_run [where f = sensor_entry, OF s0 sensor_fits, of 1000] by auto
  let ?es = "filter (\<lambda>(i, e). 501 \<le> i) (loop_entries sensor_entry 1000)"
  obtain r s1 where s1: "call (log_trim 501) s = Some (r, s1)" "log_at 1008 ?es 1001 s1"
    using log_at_trim [OF s(2), of 501] by metis
  let ?p = "text_bytes ''post-trim-event''"
  have c: "HEADER_SIZE + length ?p \<le> SEGMENT_SIZE" "1001 < (2 :: nat) ^ 64 - 1" "1008 < MAX_SEGMENTS"
    by (simp_all add: text_bytes_def HEADER_SIZE_def SEGMENT_SIZE_def MAX_SEGMENTS_def)
  obtain s2 where s2: "call (append_entry True 9999999999999 ?p) s1 = Some (word_of_nat 1001, s2)"
    "log_at (Suc 1008) (?es @ [(word_of_nat 1001, 9999999999999, ?p)]) (Suc 1001) s2" by (rule log_at_call [OF s1(2) c])
  have reads: "log_read 1 s1 = Err EntryNotFound" "log_read 500 s1 = Err EntryNotFound" "log_read 501 s1 = Ok (501, sensor_entry 500)"
    using log_at_reads(1) [OF s1(2)] loop_lookup [of 1000 501 sensor_entry]
    by (simp_all add: map_of_filter_key word_le_nat_alt)
  have last: "log_read 1001 s2 = Ok (1001, 9999999999999, ?p)"
    using log_at_reads(1) [OF s2(2), of 1001] loop_lookup [of 1000 1001 sensor_entry]
    by (simp add: map_add_def map_of_filter_key)
  have "total_entries s1 = 500" using log_at_reads(4) [OF s1(2)] lifecycle_kept by simp
  have "list_all (\<lambda>i. log_read (word_of_nat i) s = Ok (word_of_nat i, sensor_entry (i - 1))) [1, 50, 250, 500, 750, 999, 1000]"
    unfolding list_all_iff
  proof (rule ballI)
    fix i :: nat
    assume "i \<in> set [1, 50, 250, 500, 750, 999, 1000]"
    then have "i \<in> {1..1000}" by auto
    then show "log_read (word_of_nat i) s = Ok (word_of_nat i, sensor_entry (i - 1))" by (rule lifecycle_reads(2) [OF s(2)])
  qed
  note some = this
  let ?rs = "map (\<lambda>j. (word_of_nat (Suc j) :: u64, sensor_entry j)) [99..<109]"
  note rs = lifecycle_reads(3) [OF s(2)] lifecycle_range [of ?rs, OF refl]
  have "(word_of_nat 1001 :: u64) = 1001" by simp
  then show ?thesis
    by (simp only: test_full_lifecycle_def assertions bind.bind_lunit s0(1) s(1) lifecycle_reads(1) [OF s(2)] some rs s1(1)
        \<open>total_entries s1 = 500\<close> reads s2(1) last case_prod_conv simp_thms cong: bind_first)
qed

lemmas log_tests_pass = lifecycle_pass boundary_integrity_pass wire_format_pass edge_cases_pass drop_safety_pass

end
