(* ===== verification/Lru.thy ===== *)
theory Lru
  imports Collections
begin

text \<open>
  The read cache (\<open>server/src/db/lru.rs\<close>): a hash map from keys to slots and a doubly linked list
  of slots threaded through indices, most recently used first. \<open>NULL\<close> is the index \<open>usize::MAX\<close>.

  Operations return \<open>None\<close> where the code panics (a slot index out of range, \<open>unwrap\<close> on an empty
  slot). Instants are natural numbers, read by the caller and passed in; \<open>l_ttl\<close> is in the same
  unit. The theory shows that the slots implement a move-to-front list and ends with the contract
  \<open>lossy_cache\<close> that the groups rely on.
\<close>

section \<open>Data\<close>

definition NULL :: nat where
  "NULL = 2 ^ 64 - 1"

record 'v slot =
  e_value :: 'v
  e_expires_at :: nat
  e_prev :: nat
  e_next :: nat

record ('k, 'v) lru =
  l_map :: "('k, nat) hash_map"
  l_reverse :: "'k option list"
  l_entries :: "'v slot option list"
  l_free :: "nat list"
  l_head :: nat
  l_tail :: nat
  l_ttl :: nat
  l_cap :: nat

section \<open>Operations\<close>

definition lru_new :: "nat \<Rightarrow> nat \<Rightarrow> ('k, 'v) lru" where
  "lru_new cap ttl = \<lparr>l_map = [], l_reverse = [], l_entries = [], l_free = [], l_head = NULL,
     l_tail = NULL, l_ttl = ttl, l_cap = cap\<rparr>"

text \<open>\<open>self.entries[idx].as_ref().unwrap()\<close> and an update through \<open>as_mut().unwrap()\<close>.\<close>

definition slot_at :: "nat \<Rightarrow> ('k, 'v) lru \<Rightarrow> 'v slot option" where
  "slot_at idx s = (if idx < length (l_entries s) then l_entries s ! idx else None)"

definition modify_at :: "nat \<Rightarrow> ('v slot \<Rightarrow> 'v slot) \<Rightarrow> ('k, 'v) lru \<Rightarrow> ('k, 'v) lru option" where
  "modify_at idx f s = do {
     e \<leftarrow> slot_at idx s;
     Some (s\<lparr>l_entries := (l_entries s)[idx := Some (f e)]\<rparr>)
   }"

definition alloc_slot :: "'k \<Rightarrow> 'v slot \<Rightarrow> ('k, 'v) lru \<Rightarrow> (nat \<times> ('k, 'v) lru) option" where
  "alloc_slot key entry s =
     (if l_free s \<noteq> [] then
        let idx = last (l_free s) in
        if idx < length (l_entries s) \<and> idx < length (l_reverse s)
        then Some (idx, s\<lparr>l_free := butlast (l_free s), l_entries := (l_entries s)[idx := Some entry],
               l_reverse := (l_reverse s)[idx := Some key]\<rparr>)
        else None
      else Some (length (l_entries s),
             s\<lparr>l_entries := l_entries s @ [Some entry], l_reverse := l_reverse s @ [Some key]\<rparr>))"

definition detach :: "nat \<Rightarrow> ('k, 'v) lru \<Rightarrow> ('k, 'v) lru option" where
  "detach idx s = do {
     e \<leftarrow> slot_at idx s;
     s1 \<leftarrow> (if e_prev e \<noteq> NULL then modify_at (e_prev e) (e_next_update (\<lambda>_. e_next e)) s
            else Some (s\<lparr>l_head := e_next e\<rparr>));
     if e_next e \<noteq> NULL then modify_at (e_next e) (e_prev_update (\<lambda>_. e_prev e)) s1
     else Some (s1\<lparr>l_tail := e_prev e\<rparr>)
   }"

definition attach_front :: "nat \<Rightarrow> ('k, 'v) lru \<Rightarrow> ('k, 'v) lru option" where
  "attach_front idx s = do {
     s1 \<leftarrow> modify_at idx (\<lambda>e. e\<lparr>e_prev := NULL, e_next := l_head s\<rparr>) s;
     s2 \<leftarrow> (if l_head s1 \<noteq> NULL then modify_at (l_head s1) (e_prev_update (\<lambda>_. idx)) s1
            else Some (s1\<lparr>l_tail := idx\<rparr>));
     Some (s2\<lparr>l_head := idx\<rparr>)
   }"

text \<open>The part of \<open>insert\<close> that makes room: the slot at the tail is given up.\<close>

definition evict_tail :: "('k, 'v) lru \<Rightarrow> ('k, 'v) lru option" where
  "evict_tail s =
     (if length (l_map s) = l_cap s \<and> l_tail s \<noteq> NULL then do {
        s1 \<leftarrow> detach (l_tail s) s;
        if l_tail s < length (l_reverse s1) \<and> l_tail s < length (l_entries s1)
        then Some (s1\<lparr>l_map := (case l_reverse s1 ! l_tail s of
                 Some old_key \<Rightarrow> hm_remove old_key (l_map s1) | None \<Rightarrow> l_map s1),
               l_entries := (l_entries s1)[l_tail s := None],
               l_reverse := (l_reverse s1)[l_tail s := None],
               l_free := l_free s1 @ [l_tail s]\<rparr>)
        else None
      } else Some s)"

definition lru_insert :: "nat \<Rightarrow> 'k \<Rightarrow> 'v \<Rightarrow> ('k, 'v) lru \<Rightarrow> ('k, 'v) lru option" where
  "lru_insert now key value s =
     (let expires_at = now + l_ttl s in
      case hm_get (l_map s) key of
        Some idx \<Rightarrow> do {
          s1 \<leftarrow> detach idx s;
          s2 \<leftarrow> modify_at idx (\<lambda>e. e\<lparr>e_value := value, e_expires_at := expires_at,
                   e_prev := NULL, e_next := NULL\<rparr>) s1;
          attach_front idx s2
        }
      | None \<Rightarrow> do {
          s1 \<leftarrow> evict_tail s;
          (idx, s2) \<leftarrow> alloc_slot key \<lparr>e_value = value, e_expires_at = expires_at,
                          e_prev = NULL, e_next = NULL\<rparr> s1;
          attach_front idx (s2\<lparr>l_map := hm_insert key idx (l_map s2)\<rparr>)
        })"

definition lru_remove :: "'k \<Rightarrow> ('k, 'v) lru \<Rightarrow> ('v option \<times> ('k, 'v) lru) option" where
  "lru_remove key s =
     (case hm_get (l_map s) key of
        None \<Rightarrow> Some (None, s)
      | Some idx \<Rightarrow> do {
          s1 \<leftarrow> detach idx (s\<lparr>l_map := hm_remove key (l_map s)\<rparr>);
          if idx < length (l_reverse s1) \<and> idx < length (l_entries s1) then
            let s2 = s1\<lparr>l_reverse := (l_reverse s1)[idx := None]\<rparr> in
            case l_entries s2 ! idx of
              None \<Rightarrow> Some (None, s2)
            | Some entry \<Rightarrow> Some (Some (e_value entry),
                s2\<lparr>l_entries := (l_entries s2)[idx := None], l_free := l_free s2 @ [idx]\<rparr>)
          else None
        })"

definition lru_get :: "nat \<Rightarrow> 'k \<Rightarrow> ('k, 'v) lru \<Rightarrow> ('v option \<times> ('k, 'v) lru) option" where
  "lru_get now key s =
     (case hm_get (l_map s) key of
        None \<Rightarrow> Some (None, s)
      | Some idx \<Rightarrow>
          if idx < length (l_entries s) then
            (case l_entries s ! idx of
               None \<Rightarrow> Some (None, s)
             | Some e \<Rightarrow>
                 if e_expires_at e < now then do {
                   (_, s1) \<leftarrow> lru_remove key s;
                   Some (None, s1)
                 } else do {
                   s1 \<leftarrow> detach idx s;
                   s2 \<leftarrow> attach_front idx s1;
                   if idx < length (l_entries s2)
                   then Some (map_option e_value (l_entries s2 ! idx), s2) else None
                 })
          else None)"

section \<open>The linked list of slots\<close>

definition first_of :: "nat list \<Rightarrow> nat \<Rightarrow> nat" where
  "first_of is d = (case is of [] \<Rightarrow> d | i # _ \<Rightarrow> i)"

definition last_of :: "nat list \<Rightarrow> nat \<Rightarrow> nat" where
  "last_of is d = (if is = [] then d else last is)"

lemma first_of_simps [simp]: "first_of [] d = d" "first_of (i # is) d = i"
  "first_of (xs @ ys) d = first_of xs (first_of ys d)"
  by (cases xs; simp add: first_of_def)+

lemma last_of_simps [simp]: "last_of [] d = d" "last_of (i # is) d = last_of is i"
  "last_of (xs @ ys) d = last_of ys (last_of xs d)"
  by (auto simp: last_of_def)

text \<open>
  \<open>dlseg es p is n\<close>: the slots \<open>is\<close> are linked in this order, with \<open>p\<close> before the first and \<open>n\<close>
  after the last.
\<close>

primrec dlseg :: "'v slot option list \<Rightarrow> nat \<Rightarrow> nat list \<Rightarrow> nat \<Rightarrow> bool" where
  "dlseg es p [] n \<longleftrightarrow> True"
| "dlseg es p (i # is) n \<longleftrightarrow> i < length es \<and>
     (case es ! i of None \<Rightarrow> False | Some e \<Rightarrow> e_prev e = p \<and> e_next e = first_of is n) \<and>
     dlseg es i is n"

lemma dlseg_append:
  "dlseg es p (xs @ ys) n \<longleftrightarrow> dlseg es p xs (first_of ys n) \<and> dlseg es (last_of xs p) ys n"
  by (induction xs arbitrary: p) (auto split: option.splits)

lemma dlseg_frame: "i \<notin> set is \<Longrightarrow> dlseg (es[i := v]) p is n = dlseg es p is n"
  by (induction "is" arbitrary: p) auto

lemma dlseg_grow: "dlseg es p is n \<Longrightarrow> dlseg (es @ [v]) p is n"
  by (induction "is" arbitrary: p) (auto simp: nth_append)

lemma dlseg_slots: "dlseg es p is n \<Longrightarrow> i \<in> set is \<Longrightarrow> i < length es \<and> es ! i \<noteq> None"
  by (induction "is" arbitrary: p) (auto split: option.splits)

lemma dlseg_set_next:
  assumes "dlseg es p (xs @ [i]) n" "i \<notin> set xs" "es ! i = Some e"
  shows "dlseg (es[i := Some (e\<lparr>e_next := n'\<rparr>)]) p (xs @ [i]) n'"
  using assms by (simp add: dlseg_append dlseg_frame)

lemma dlseg_set_prev:
  assumes "dlseg es p (i # xs) n" "i \<notin> set xs" "es ! i = Some e"
  shows "dlseg (es[i := Some (e\<lparr>e_prev := p'\<rparr>)]) p' (i # xs) n"
  using assms by (simp add: dlseg_frame)

text \<open>The list of slots from \<open>head\<close> to \<open>tail\<close>.\<close>

definition lru_links :: "nat list \<Rightarrow> ('k, 'v) lru \<Rightarrow> bool" where
  "lru_links is s \<longleftrightarrow> distinct is \<and> dlseg (l_entries s) NULL is NULL \<and>
     l_head s = first_of is NULL \<and> l_tail s = last_of is NULL \<and> length (l_entries s) \<le> NULL"

text \<open>What the slots hold, without the links.\<close>

definition cells :: "('k, 'v) lru \<Rightarrow> ('v \<times> nat) option list" where
  "cells s = map (map_option (\<lambda>e. (e_value e, e_expires_at e))) (l_entries s)"

text \<open>Changes of links only.\<close>

definition relinked :: "('k, 'v) lru \<Rightarrow> ('k, 'v) lru \<Rightarrow> bool" where
  "relinked s s' \<longleftrightarrow> cells s' = cells s \<and> l_map s' = l_map s \<and> l_reverse s' = l_reverse s \<and>
     l_free s' = l_free s \<and> l_ttl s' = l_ttl s \<and> l_cap s' = l_cap s"

lemma relinked_refl [simp]: "relinked s s"
  by (simp add: relinked_def)

lemma relinked_trans: "relinked s t \<Longrightarrow> relinked t u \<Longrightarrow> relinked s u"
  by (simp add: relinked_def)

lemma relinked_length: "relinked s s' \<Longrightarrow> length (l_entries s') = length (l_entries s)"
  by (auto simp: relinked_def cells_def dest: arg_cong [of _ _ length])

lemma cells_update:
  "cells (s\<lparr>l_entries := (l_entries s)[i := v]\<rparr>) =
     (cells s)[i := map_option (\<lambda>e. (e_value e, e_expires_at e)) v]"
  by (simp add: cells_def map_update)

lemma cells_nth: "i < length (l_entries s) \<Longrightarrow>
  cells s ! i = map_option (\<lambda>e. (e_value e, e_expires_at e)) (l_entries s ! i)"
  by (simp add: cells_def)

lemma modify_link:
  assumes "i < length (l_entries s)" "l_entries s ! i = Some e"
    and "e_value (f e) = e_value e" "e_expires_at (f e) = e_expires_at e"
  shows "modify_at i f s = Some (s\<lparr>l_entries := (l_entries s)[i := Some (f e)]\<rparr>)"
    and "relinked s (s\<lparr>l_entries := (l_entries s)[i := Some (f e)]\<rparr>)"
proof -
  show "modify_at i f s = Some (s\<lparr>l_entries := (l_entries s)[i := Some (f e)]\<rparr>)"
    using assms by (simp add: modify_at_def slot_at_def)
  have "(cells s)[i := Some (e_value e, e_expires_at e)] = cells s"
    using list_update_id [of "cells s" i] assms(2) by (simp add: cells_nth [OF assms(1)])
  then show "relinked s (s\<lparr>l_entries := (l_entries s)[i := Some (f e)]\<rparr>)"
    using assms by (simp add: relinked_def cells_update)
qed

lemma dlseg_slot:
  assumes "dlseg es p is n" "j \<in> set is" "length es \<le> NULL"
  obtains f where "j < length es" "j \<noteq> NULL" "es ! j = Some f"
  using dlseg_slots [OF assms(1,2)] assms(3) by auto

text \<open>The two halves of \<open>detach\<close>: the link from the left and the link from the right.\<close>

lemma unlink_left:
  assumes "dlseg (l_entries s) NULL xs i" "dlseg (l_entries s) i ys NULL" "distinct (xs @ i # ys)"
    and "length (l_entries s) \<le> NULL" "l_head s = first_of (xs @ i # ys) NULL"
  obtains s1 where "(if last_of xs NULL \<noteq> NULL
      then modify_at (last_of xs NULL) (e_next_update (\<lambda>_. first_of ys NULL)) s
      else Some (s\<lparr>l_head := first_of ys NULL\<rparr>)) = Some s1" "relinked s s1"
    "dlseg (l_entries s1) NULL xs (first_of ys NULL)" "dlseg (l_entries s1) i ys NULL"
    "l_head s1 = first_of (xs @ ys) NULL" "l_tail s1 = l_tail s"
proof (cases xs rule: rev_cases)
  case Nil
  with that [of "s\<lparr>l_head := first_of ys NULL\<rparr>"] assms show thesis
    by (simp add: relinked_def cells_def)
next
  case (snoc zs j)
  let ?es = "l_entries s"
  obtain f where f: "?es ! j = Some f" "j < length ?es" "j \<noteq> NULL"
    using dlseg_slot [OF assms(1) _ assms(4), of j] snoc by auto
  let ?s1 = "s\<lparr>l_entries := ?es[j := Some (f\<lparr>e_next := first_of ys NULL\<rparr>)]\<rparr>"
  have "dlseg (l_entries ?s1) NULL xs (first_of ys NULL)"
    using dlseg_set_next [of ?es NULL zs j i f "first_of ys NULL"] snoc assms(1,3) f by simp
  moreover have "dlseg (l_entries ?s1) i ys NULL"
    using assms(2,3) snoc by (simp add: dlseg_frame)
  ultimately show thesis
    using that [of ?s1] modify_link [OF f(2,1), of "e_next_update (\<lambda>_. first_of ys NULL)"] snoc f
      assms(5)
    by (simp add: last_of_def)
qed

lemma unlink_right:
  assumes "dlseg (l_entries s) NULL xs (first_of ys NULL)" "dlseg (l_entries s) i ys NULL"
    and "distinct (xs @ i # ys)" "length (l_entries s) \<le> NULL" "l_tail s = last_of (xs @ i # ys) NULL"
  obtains s1 where "(if first_of ys NULL \<noteq> NULL
      then modify_at (first_of ys NULL) (e_prev_update (\<lambda>_. last_of xs NULL)) s
      else Some (s\<lparr>l_tail := last_of xs NULL\<rparr>)) = Some s1" "relinked s s1"
    "dlseg (l_entries s1) NULL (xs @ ys) NULL" "l_head s1 = l_head s"
    "l_tail s1 = last_of (xs @ ys) NULL"
proof (cases ys)
  case Nil
  with that [of "s\<lparr>l_tail := last_of xs NULL\<rparr>"] assms show thesis
    by (simp add: relinked_def cells_def)
next
  case (Cons j zs)
  obtain f where f: "l_entries s ! j = Some f" "j < length (l_entries s)" "j \<noteq> NULL"
    using dlseg_slot [OF assms(2) _ assms(4), of j] Cons by auto
  let ?s1 = "s\<lparr>l_entries := (l_entries s)[j := Some (f\<lparr>e_prev := last_of xs NULL\<rparr>)]\<rparr>"
  have "dlseg (l_entries ?s1) (last_of xs NULL) ys NULL"
    using dlseg_set_prev [of "l_entries s" i j zs NULL f "last_of xs NULL"] Cons assms(2,3) f by simp
  moreover have "dlseg (l_entries ?s1) NULL xs (first_of ys NULL)"
    using assms(1,3) Cons by (simp add: dlseg_frame)
  ultimately show thesis
    using that [of ?s1] modify_link [OF f(2,1), of "e_prev_update (\<lambda>_. last_of xs NULL)"] Cons f
      assms(5)
    by (simp add: dlseg_append)
qed

lemma detach_ok:
  assumes "lru_links (xs @ i # ys) s"
  obtains s' where "detach i s = Some s'" "lru_links (xs @ ys) s'" "relinked s s'"
proof -
  have d: "distinct (xs @ i # ys)" and seg: "dlseg (l_entries s) NULL (xs @ i # ys) NULL"
    and hd: "l_head s = first_of (xs @ i # ys) NULL" and tl: "l_tail s = last_of (xs @ i # ys) NULL"
    and len: "length (l_entries s) \<le> NULL"
    using assms by (simp_all only: lru_links_def)
  have segs: "dlseg (l_entries s) NULL xs i" "dlseg (l_entries s) i ys NULL"
    using seg by (simp_all add: dlseg_append)
  obtain e where e: "slot_at i s = Some e" "e_prev e = last_of xs NULL" "e_next e = first_of ys NULL"
    using seg by (auto simp: dlseg_append slot_at_def split: option.splits)
  from unlink_left [OF segs d len hd] obtain s1 where s1: "(if last_of xs NULL \<noteq> NULL
      then modify_at (last_of xs NULL) (e_next_update (\<lambda>_. first_of ys NULL)) s
      else Some (s\<lparr>l_head := first_of ys NULL\<rparr>)) = Some s1" "relinked s s1"
    "dlseg (l_entries s1) NULL xs (first_of ys NULL)" "dlseg (l_entries s1) i ys NULL"
    "l_head s1 = first_of (xs @ ys) NULL" "l_tail s1 = l_tail s" .
  have "length (l_entries s1) \<le> NULL" "l_tail s1 = last_of (xs @ i # ys) NULL"
    using relinked_length [OF s1(2)] len s1(6) tl by simp_all
  from unlink_right [OF s1(3,4) d this] obtain s2 where s2: "(if first_of ys NULL \<noteq> NULL
      then modify_at (first_of ys NULL) (e_prev_update (\<lambda>_. last_of xs NULL)) s1
      else Some (s1\<lparr>l_tail := last_of xs NULL\<rparr>)) = Some s2" "relinked s1 s2"
    "dlseg (l_entries s2) NULL (xs @ ys) NULL" "l_head s2 = l_head s1"
    "l_tail s2 = last_of (xs @ ys) NULL" .
  show thesis
  proof (rule that [of s2])
    show "detach i s = Some s2" by (simp only: detach_def e s1(1) s2(1) bind.simps)
    show r: "relinked s s2" using s1(2) s2(2) by (rule relinked_trans)
    show "lru_links (xs @ ys) s2"
      using d s2 s1(5) len relinked_length [OF r] by (simp add: lru_links_def)
  qed
qed

lemma attach_front_ok:
  assumes "lru_links is s" "i \<notin> set is" "i < length (l_entries s)" "l_entries s ! i = Some e"
  obtains s' where "attach_front i s = Some s'" "lru_links (i # is) s'" "relinked s s'"
proof -
  let ?e1 = "e\<lparr>e_prev := NULL, e_next := l_head s\<rparr>"
  let ?s1 = "s\<lparr>l_entries := (l_entries s)[i := Some ?e1]\<rparr>"
  have m1: "modify_at i (\<lambda>e. e\<lparr>e_prev := NULL, e_next := l_head s\<rparr>) s = Some ?s1" "relinked s ?s1"
    using modify_link [OF assms(3,4), of "\<lambda>e. e\<lparr>e_prev := NULL, e_next := l_head s\<rparr>"] by simp_all
  have seg: "dlseg (l_entries ?s1) NULL is NULL"
    using assms(1,2) by (simp add: lru_links_def dlseg_frame)
  have len: "length (l_entries s) \<le> NULL" using assms(1) by (simp add: lru_links_def)
  show thesis
  proof (cases "is")
    case Nil
    with that [of "?s1\<lparr>l_tail := i, l_head := i\<rparr>"] m1 assms len show thesis
      by (auto simp: attach_front_def lru_links_def relinked_def cells_def)
  next
    case (Cons j js)
    have j: "l_head s = j" "j \<noteq> i" "j < length (l_entries s)"
      using assms(1,2) Cons by (auto simp: lru_links_def)
    then obtain f where f: "l_entries ?s1 ! j = Some f" "j < length (l_entries ?s1)"
      using seg Cons by (auto split: option.splits)
    let ?s2 = "?s1\<lparr>l_entries := (l_entries ?s1)[j := Some (f\<lparr>e_prev := i\<rparr>)]\<rparr>"
    have m2: "modify_at j (e_prev_update (\<lambda>_. i)) ?s1 = Some ?s2" "relinked ?s1 ?s2"
      using modify_link [OF f(2,1), of "e_prev_update (\<lambda>_. i)"] by simp_all
    have "dlseg (l_entries ?s2) i is NULL"
      using dlseg_set_prev [of "l_entries ?s1" NULL j js NULL f i] seg Cons f assms(1)
      by (simp add: lru_links_def)
    moreover have "l_entries ?s2 ! i = Some ?e1" using j assms(3) by simp
    ultimately have "lru_links (i # is) (?s2\<lparr>l_head := i\<rparr>)"
      using assms Cons j len by (simp add: lru_links_def)
    moreover have "attach_front i s = Some (?s2\<lparr>l_head := i\<rparr>)"
      using m1(1) m2(1) j len by (simp add: attach_front_def)
    moreover have "relinked s (?s2\<lparr>l_head := i\<rparr>)"
      using relinked_trans [OF m1(2) m2(2)] by (simp add: relinked_def cells_def)
    ultimately show thesis by (intro that)
  qed
qed

section \<open>Refinement of a move-to-front list\<close>

text \<open>
  The specification: items \<open>(key, value, expiry)\<close>, most recently used first, at most \<open>cap\<close> of them.
\<close>

type_synonym ('k, 'v) items = "('k \<times> 'v \<times> nat) list"

definition without :: "'k \<Rightarrow> ('k, 'v) items \<Rightarrow> ('k, 'v) items" where
  "without k xs = filter (\<lambda>x. fst x \<noteq> k) xs"

definition spec_insert :: "nat \<Rightarrow> 'k \<Rightarrow> 'v \<Rightarrow> nat \<Rightarrow> ('k, 'v) items \<Rightarrow> ('k, 'v) items" where
  "spec_insert cap k v t xs =
     (k, v, t) # (if map_of xs k = None then (if length xs = cap then butlast xs else xs)
                  else without k xs)"

definition spec_remove :: "'k \<Rightarrow> ('k, 'v) items \<Rightarrow> 'v option \<times> ('k, 'v) items" where
  "spec_remove k xs = (map_option fst (map_of xs k), without k xs)"

definition spec_get :: "nat \<Rightarrow> 'k \<Rightarrow> ('k, 'v) items \<Rightarrow> 'v option \<times> ('k, 'v) items" where
  "spec_get now k xs =
     (case map_of xs k of
        None \<Rightarrow> (None, xs)
      | Some (v, t) \<Rightarrow> if t < now then (None, without k xs) else (Some v, (k, v, t) # without k xs))"

text \<open>The slots \<open>is\<close> in use, in list order, and the items they hold.\<close>

definition lru_ok :: "nat list \<Rightarrow> ('k, 'v) lru \<Rightarrow> bool" where
  "lru_ok is s \<longleftrightarrow> lru_links is s \<and> hm_ok (l_map s) \<and>
     (\<forall>k i. hm_get (l_map s) k = Some i \<longleftrightarrow> i \<in> set is \<and> l_reverse s ! i = Some k) \<and>
     (\<forall>i \<in> set is. l_reverse s ! i \<noteq> None) \<and>
     length (l_map s) = length is \<and> length (l_reverse s) = length (l_entries s) \<and>
     mset is + mset (l_free s) = mset [0..<length (l_entries s)] \<and>
     0 < l_cap s \<and> length (l_entries s) \<le> l_cap s \<and> l_cap s \<le> NULL"

definition lru_items :: "nat list \<Rightarrow> ('k, 'v) lru \<Rightarrow> ('k, 'v) items" where
  "lru_items is s = map (\<lambda>i. (the (l_reverse s ! i), the (cells s ! i))) is"

definition lru_rep :: "('k, 'v) lru \<Rightarrow> ('k, 'v) items \<Rightarrow> bool" where
  "lru_rep s xs \<longleftrightarrow> (\<exists>is. lru_ok is s \<and> xs = lru_items is s)"

lemma lru_okD:
  assumes "lru_ok is s"
  shows "lru_links is s" "hm_ok (l_map s)" "distinct is"
    "hm_get (l_map s) k = Some i \<longleftrightarrow> i \<in> set is \<and> l_reverse s ! i = Some k"
    "i \<in> set is \<Longrightarrow> i < length (l_entries s)"
    "length (l_map s) = length is" "length (l_reverse s) = length (l_entries s)"
    "mset is + mset (l_free s) = mset [0..<length (l_entries s)]"
    "0 < l_cap s" "length (l_entries s) \<le> l_cap s" "l_cap s \<le> NULL"
proof -
  show "i < length (l_entries s)" if "i \<in> set is"
    using assms dlseg_slots [OF _ that] by (auto simp: lru_ok_def lru_links_def)
qed (use assms in \<open>auto simp: lru_ok_def lru_links_def\<close>)

lemma length_cells [simp]: "length (cells s) = length (l_entries s)"
  by (simp add: cells_def)

lemma lru_ok_slot:
  assumes "lru_ok is s" "i \<in> set is"
  obtains k e where "l_reverse s ! i = Some k" "l_entries s ! i = Some e"
    "cells s ! i = Some (e_value e, e_expires_at e)" "i < length (l_entries s)"
proof -
  have i: "i < length (l_entries s)" using assms by (rule lru_okD)
  obtain k where "l_reverse s ! i = Some k" using assms by (auto simp: lru_ok_def)
  moreover obtain e where "l_entries s ! i = Some e"
    using assms dlseg_slots by (fastforce simp: lru_ok_def lru_links_def)
  ultimately show thesis using that i by (simp add: cells_nth)
qed

lemma lru_items_keys:
  assumes "lru_ok is s"
  shows "map_of (lru_items is s) k = (case hm_get (l_map s) k of None \<Rightarrow> None | Some i \<Rightarrow> Some (the (cells s ! i)))"
    and "distinct (map fst (lru_items is s))"
proof -
  have inj: "i = j" if i: "i \<in> set is" and j: "j \<in> set is"
    and eq: "the (l_reverse s ! i) = the (l_reverse s ! j)" for i j
  proof -
    obtain a where a: "l_reverse s ! i = Some a" using lru_ok_slot [OF assms i] by blast
    obtain b where b: "l_reverse s ! j = Some b" using lru_ok_slot [OF assms j] by blast
    have "hm_get (l_map s) a = Some i" "hm_get (l_map s) b = Some j"
      using lru_okD(4) [OF assms] i j a b by simp_all
    then show ?thesis using eq a b by simp
  qed
  then show d: "distinct (map fst (lru_items is s))"
    using lru_okD(3) [OF assms] by (auto simp: lru_items_def distinct_map inj_on_def)
  show "map_of (lru_items is s) k = (case hm_get (l_map s) k of None \<Rightarrow> None | Some i \<Rightarrow> Some (the (cells s ! i)))"
  proof (cases "hm_get (l_map s) k")
    case None
    have ne: "the (l_reverse s ! i) \<noteq> k" if i: "i \<in> set is" for i
    proof -
      obtain a where "l_reverse s ! i = Some a" using lru_ok_slot [OF assms i] by blast
      with None lru_okD(4) [OF assms, of k i] i show ?thesis by auto
    qed
    have "map_of (lru_items is s) k = None"
      unfolding lru_items_def map_of_eq_None_iff using ne by fastforce
    with None show ?thesis by simp
  next
    case (Some i)
    then have "i \<in> set is" "l_reverse s ! i = Some k" using lru_okD(4) [OF assms] by simp_all
    then have "(k, the (cells s ! i)) \<in> set (lru_items is s)"
      by (auto simp: lru_items_def intro!: image_eqI [of _ _ i])
    with Some d show ?thesis by simp
  qed
qed

text \<open>A slot of the list splits it; the other items are those with another key.\<close>

lemma lru_split:
  assumes "lru_ok is s" "hm_get (l_map s) k = Some i"
  obtains as bs where "is = as @ i # bs" "without k (lru_items is s) = lru_items (as @ bs) s"
    "l_reverse s ! i = Some k"
proof -
  have i: "i \<in> set is" "l_reverse s ! i = Some k" using lru_okD(4) [OF assms(1)] assms(2) by simp_all
  then obtain as bs where "is": "is = as @ i # bs" by (meson split_list)
  have "distinct (map fst (lru_items (as @ i # bs) s))"
    using lru_items_keys(2) [OF assms(1)] by (simp only: "is")
  then have "k \<notin> fst ` set (lru_items (as @ bs) s)"
    using i(2) by (auto simp: lru_items_def)
  then have "without k (lru_items (as @ bs) s) = lru_items (as @ bs) s"
    unfolding without_def by (intro filter_True) auto
  moreover have "without k (lru_items is s) = without k (lru_items (as @ bs) s)"
    using i(2) by (simp add: "is" without_def lru_items_def)
  ultimately show thesis using that "is" i(2) by simp
qed

text \<open>Giving up the slot \<open>i\<close> of key \<open>k\<close>: what \<open>remove\<close> and an eviction leave.\<close>

lemma erase_slot:
  assumes ok: "lru_ok (as @ i # bs) s" and k: "l_reverse s ! i = Some k"
    and s': "lru_links (as @ bs) s'" "l_map s' = hm_remove k (l_map s)"
      "l_reverse s' = (l_reverse s)[i := None]" "cells s' = (cells s)[i := None]"
      "l_free s' = l_free s @ [i]" "l_cap s' = l_cap s"
  shows "lru_ok (as @ bs) s'" "lru_items (as @ bs) s' = lru_items (as @ bs) s"
proof -
  note D = lru_okD [OF ok]
  have i: "i \<notin> set (as @ bs)" using D(3) by auto
  have rest: "l_reverse s' ! j = l_reverse s ! j" "cells s' ! j = cells s ! j" "j \<noteq> i" if "j \<in> set (as @ bs)" for j
    using i that s'(3,4) by (metis nth_list_update_neq)+
  have get: "hm_get (l_map s) k = Some i" using D(4) k by simp
  have len: "length (l_entries s') = length (l_entries s)"
    using arg_cong [OF s'(4), of length] by simp
  have "hm_get (l_map s') k' = Some j \<longleftrightarrow> j \<in> set (as @ bs) \<and> l_reverse s' ! j = Some k'" for k' j
  proof (cases "k' = k")
    case True
    then show ?thesis using D(4) [of k j] get i rest [of j] s'(2) by auto
  next
    case False
    then show ?thesis using D(4) [of k' j] k rest [of j] s'(2) by auto
  qed
  moreover have "l_reverse s' ! j \<noteq> None" if "j \<in> set (as @ bs)" for j
    using that rest(1) [OF that] ok by (auto simp: lru_ok_def)
  moreover have "length (l_map s') = length (as @ bs)"
    using hm_length_del [OF D(2), of k] get D(6) s'(2) by simp
  moreover have "mset (as @ bs) + mset (l_free s') = mset [0..<length (l_entries s')]"
    using D(8) s'(5) len by simp
  moreover have "length (l_reverse s') = length (l_entries s')"
    using D(7) len s'(3) by simp
  ultimately show "lru_ok (as @ bs) s'"
    using s' D(2,9-11) len unfolding lru_ok_def by auto
  show "lru_items (as @ bs) s' = lru_items (as @ bs) s"
    unfolding lru_items_def using rest by (intro map_cong) simp_all
qed

text \<open>The slot \<open>i\<close> moves to the front, possibly with a new value and expiry.\<close>

lemma front_slot:
  assumes ok: "lru_ok (as @ i # bs) s" and k: "l_reverse s ! i = Some k"
    and s': "lru_links (i # as @ bs) s'" "l_map s' = l_map s" "l_reverse s' = l_reverse s"
      "cells s' = (cells s)[i := Some c]" "l_free s' = l_free s" "l_cap s' = l_cap s"
  shows "lru_ok (i # as @ bs) s'" "lru_items (i # as @ bs) s' = (k, c) # lru_items (as @ bs) s"
proof -
  note D = lru_okD [OF ok]
  have i: "i \<notin> set (as @ bs)" "i < length (l_entries s)" using D(3) D(5) [of i] by auto
  have len: "length (l_entries s') = length (l_entries s)"
    using arg_cong [OF s'(4), of length] by simp
  have "mset (i # as @ bs) = mset (as @ i # bs)" by simp
  with ok s' len show "lru_ok (i # as @ bs) s'"
    unfolding lru_ok_def by simp
  have "cells s' ! j = cells s ! j" if "j \<in> set (as @ bs)" for j
    using i that s'(4) by (metis nth_list_update_neq)
  then have "lru_items (as @ bs) s' = lru_items (as @ bs) s"
    unfolding lru_items_def s'(3) by (intro map_cong) simp_all
  moreover have "cells s' ! i = Some c" using s'(4) i(2) by simp
  ultimately show "lru_items (i # as @ bs) s' = (k, c) # lru_items (as @ bs) s"
    using k s'(3) by (simp add: lru_items_def)
qed

text \<open>A slot \<open>i\<close> enters the list with a new key.\<close>

lemma new_slot:
  assumes ok: "lru_ok is s" and k: "hm_get (l_map s) k = None"
    and s': "lru_links (i # is) s'" "l_map s' = hm_insert k i (l_map s)" "l_reverse s' ! i = Some k"
      "cells s' ! i = Some c" "\<forall>j \<in> set is. l_reverse s' ! j = l_reverse s ! j \<and> cells s' ! j = cells s ! j"
      "mset (i # is) + mset (l_free s') = mset [0..<length (l_entries s')]"
      "length (l_reverse s') = length (l_entries s')" "length (l_entries s') \<le> l_cap s" "l_cap s' = l_cap s"
  shows "lru_ok (i # is) s'" "lru_items (i # is) s' = (k, c) # lru_items is s"
proof -
  note D = lru_okD [OF ok]
  have i: "i \<notin> set is" using s'(1) by (simp add: lru_links_def)
  have "hm_get (l_map s') k' = Some j \<longleftrightarrow> j \<in> set (i # is) \<and> l_reverse s' ! j = Some k'" for k' j
  proof (cases "j = i")
    case True
    then show ?thesis using D(4) [of k' j] i s'(2,3) k by auto
  next
    case False
    then show ?thesis using D(4) [of k' j] D(4) [of k j] s'(2,5) k by auto
  qed
  moreover have "length (l_map s') = length (i # is)"
    using hm_length_put [OF D(2), of k i] k D(6) s'(2) by simp
  moreover have "l_reverse s' ! j \<noteq> None" if "j \<in> set (i # is)" for j
    using that ok s'(3,5) by (auto simp: lru_ok_def)
  ultimately show "lru_ok (i # is) s'"
    using s' D(2,9-11) unfolding lru_ok_def by auto
  show "lru_items (i # is) s' = (k, c) # lru_items is s"
    using s'(3-5) by (simp add: lru_items_def)
qed

definition same_conf :: "('k, 'v) lru \<Rightarrow> ('k, 'v) lru \<Rightarrow> bool" where
  "same_conf s s' \<longleftrightarrow> l_cap s' = l_cap s \<and> l_ttl s' = l_ttl s"

lemma relinked_conf: "relinked s s' \<Longrightarrow> same_conf s s'"
  by (simp add: relinked_def same_conf_def)

lemma lru_links_l_map [simp]: "lru_links is (s\<lparr>l_map := m\<rparr>) = lru_links is s"
  by (simp add: lru_links_def)

lemma cells_other [simp]:
  "cells (s\<lparr>l_map := m\<rparr>) = cells s" "cells (s\<lparr>l_reverse := r\<rparr>) = cells s" "cells (s\<lparr>l_free := f\<rparr>) = cells s"
  by (simp_all add: cells_def)

text \<open>Clearing a slot outside the list keeps the list.\<close>

lemma lru_links_clear:
  "lru_links is s \<Longrightarrow> i \<notin> set is \<Longrightarrow>
   lru_links is (s\<lparr>l_map := m, l_entries := (l_entries s)[i := v], l_reverse := r, l_free := f\<rparr>)"
  by (simp add: lru_links_def dlseg_frame)

text \<open>Removing a key that is present: its slot leaves the list and is given back.\<close>

lemma lru_remove_present:
  assumes ok: "lru_ok is s" and get: "hm_get (l_map s) k = Some i" and sp: "is = as @ i # bs" "l_reverse s ! i = Some k"
    and e: "l_entries s ! i = Some e" "i < length (l_entries s)"
  obtains s' where "lru_remove k s = Some (Some (e_value e), s')" "lru_ok (as @ bs) s'"
    "lru_items (as @ bs) s' = lru_items (as @ bs) s" "same_conf s s'"
proof -
  have "lru_links (as @ i # bs) (s\<lparr>l_map := hm_remove k (l_map s)\<rparr>)"
    using lru_okD(1) [OF ok] sp(1) by simp
  then obtain s1 where s1: "detach i (s\<lparr>l_map := hm_remove k (l_map s)\<rparr>) = Some s1" "lru_links (as @ bs) s1"
    "relinked (s\<lparr>l_map := hm_remove k (l_map s)\<rparr>) s1" using detach_ok by blast
  have len: "length (l_entries s1) = length (l_entries s)" using relinked_length [OF s1(3)] by simp
  have c1: "cells s1 = cells s" using s1(3) by (simp add: relinked_def)
  then obtain e1 where e1: "l_entries s1 ! i = Some e1" "e_value e1 = e_value e"
    using e cells_nth [of i s1] cells_nth [of i s] len by (cases "l_entries s1 ! i") auto
  let ?s' = "s1\<lparr>l_reverse := (l_reverse s1)[i := None], l_entries := (l_entries s1)[i := None],
    l_free := l_free s1 @ [i]\<rparr>"
  have i: "i \<notin> set (as @ bs)" using lru_okD(3) [OF ok] sp(1) by auto
  have "lru_links (as @ bs) ?s'"
    using lru_links_clear [OF s1(2) i, where m = "l_map s1" and v = None and
      r = "(l_reverse s1)[i := None]" and f = "l_free s1 @ [i]"]
    by (simp add: lru_links_def)
  moreover have "cells ?s' = (cells s)[i := None]"
    using c1 cells_update [of s1 i None] by (simp add: cells_def)
  ultimately have "lru_ok (as @ bs) ?s'" "lru_items (as @ bs) ?s' = lru_items (as @ bs) s"
    using erase_slot [OF _ sp(2), of as bs ?s'] ok sp(1) s1(3) by (simp_all add: relinked_def)
  moreover have "lru_remove k s = Some (Some (e_value e), ?s')"
    using get s1 e1 e(2) len lru_okD(7) [OF ok] by (simp add: lru_remove_def relinked_def)
  moreover have "same_conf s ?s'" using s1(3) by (simp add: same_conf_def relinked_def)
  ultimately show thesis using that by blast
qed

lemma lru_remove_refines:
  assumes "lru_rep s xs"
  obtains s' where "lru_remove k s = Some (fst (spec_remove k xs), s')"
    "lru_rep s' (snd (spec_remove k xs))" "same_conf s s'"
proof -
  obtain "is" where ok: "lru_ok is s" and xs: "xs = lru_items is s"
    using assms by (auto simp: lru_rep_def)
  note mo = lru_items_keys(1) [OF ok, of k]
  show thesis
  proof (cases "hm_get (l_map s) k")
    case None
    then have "map_of xs k = None" using mo xs by simp
    moreover from this have "without k xs = xs"
      unfolding without_def by (intro filter_True) (auto simp: map_of_eq_None_iff)
    ultimately show thesis
      using that [of s] None assms by (simp add: lru_remove_def spec_remove_def same_conf_def)
  next
    case (Some i)
    obtain as bs where sp: "is = as @ i # bs" "without k (lru_items is s) = lru_items (as @ bs) s"
      "l_reverse s ! i = Some k" using lru_split [OF ok Some] .
    obtain e where e: "l_entries s ! i = Some e" "cells s ! i = Some (e_value e, e_expires_at e)"
      "i < length (l_entries s)"
      using lru_ok_slot [OF ok, of i] sp(1) by auto
    obtain s' where s': "lru_remove k s = Some (Some (e_value e), s')" "lru_ok (as @ bs) s'"
      "lru_items (as @ bs) s' = lru_items (as @ bs) s" "same_conf s s'"
      using lru_remove_present [OF ok Some sp(1,3) e(1,3)] .
    have "map_of xs k = Some (e_value e, e_expires_at e)" using mo Some e(2) xs by simp
    moreover have "lru_rep s' (without k xs)"
      unfolding lru_rep_def using s'(2,3) xs sp(2) by metis
    ultimately show thesis using that [of s'] s' by (simp add: spec_remove_def)
  qed
qed

lemma lru_touch:
  assumes ok: "lru_ok is s" and get: "hm_get (l_map s) k = Some i" and c: "cells s ! i = Some c"
  obtains s1 s2 where "detach i s = Some s1" "attach_front i s1 = Some s2"
    "lru_rep s2 ((k, c) # without k (lru_items is s))" "relinked s s2"
proof -
  obtain as bs where sp: "is = as @ i # bs" "without k (lru_items is s) = lru_items (as @ bs) s"
    "l_reverse s ! i = Some k" using lru_split [OF ok get] .
  have i: "i \<notin> set (as @ bs)" "i < length (l_entries s)"
    using lru_okD(3) [OF ok] lru_okD(5) [OF ok, of i] sp(1) by auto
  have "lru_links (as @ i # bs) s" using lru_okD(1) [OF ok] sp(1) by simp
  then obtain s1 where s1: "detach i s = Some s1" "lru_links (as @ bs) s1" "relinked s s1"
    using detach_ok by blast
  have "cells s1 ! i = Some c" "i < length (l_entries s1)"
    using s1(3) c i(2) relinked_length [OF s1(3)] by (simp_all add: relinked_def)
  then obtain e where e: "l_entries s1 ! i = Some e" "i < length (l_entries s1)"
    by (auto simp: cells_nth)
  obtain s2 where s2: "attach_front i s1 = Some s2" "lru_links (i # as @ bs) s2" "relinked s1 s2"
    using attach_front_ok [OF s1(2) i(1) e(2,1)] by blast
  have r: "relinked s s2" using s1(3) s2(3) by (rule relinked_trans)
  have "cells s2 = (cells s)[i := Some c]"
    using r c list_update_id [of "cells s" i] by (simp add: relinked_def)
  with front_slot [OF _ sp(3), of as bs s2 c] ok sp(1) s2(2) r
  have "lru_ok (i # as @ bs) s2" "lru_items (i # as @ bs) s2 = (k, c) # lru_items (as @ bs) s"
    by (simp_all add: relinked_def)
  then have "lru_rep s2 ((k, c) # without k (lru_items is s))"
    unfolding lru_rep_def sp(2) by metis
  with that s1(1) s2(1) r show thesis by blast
qed

lemma lru_get_refines:
  assumes "lru_rep s xs"
  obtains s' where "lru_get now k s = Some (fst (spec_get now k xs), s')"
    "lru_rep s' (snd (spec_get now k xs))" "same_conf s s'"
proof -
  obtain "is" where ok: "lru_ok is s" and xs: "xs = lru_items is s"
    using assms by (auto simp: lru_rep_def)
  note mo = lru_items_keys(1) [OF ok, of k]
  show thesis
  proof (cases "hm_get (l_map s) k")
    case None
    with that [of s] mo assms xs show thesis by (simp add: lru_get_def spec_get_def same_conf_def)
  next
    case (Some i)
    then have "i \<in> set is" using lru_okD(4) [OF ok] by simp
    then obtain e where e: "l_entries s ! i = Some e" "cells s ! i = Some (e_value e, e_expires_at e)"
      "i < length (l_entries s)"
      using lru_ok_slot [OF ok] by blast
    have m: "map_of xs k = Some (e_value e, e_expires_at e)" using mo Some e(2) xs by simp
    show thesis
    proof (cases "e_expires_at e < now")
      case True
      obtain s' where "lru_remove k s = Some (fst (spec_remove k xs), s')"
        "lru_rep s' (snd (spec_remove k xs))" "same_conf s s'" using lru_remove_refines [OF assms] .
      with that [of s'] True m Some e show thesis
        by (simp add: lru_get_def spec_get_def spec_remove_def)
    next
      case False
      obtain s1 s2 where t: "detach i s = Some s1" "attach_front i s1 = Some s2"
        "lru_rep s2 ((k, e_value e, e_expires_at e) # without k (lru_items is s))" "relinked s s2"
        using lru_touch [OF ok Some e(2)] .
      have i2: "i < length (l_entries s2)" "cells s2 ! i = Some (e_value e, e_expires_at e)"
        using e relinked_length [OF t(4)] t(4) by (simp_all add: relinked_def)
      then have "map_option e_value (l_entries s2 ! i) = Some (e_value e)"
        by (auto simp: cells_nth)
      with that [of s2] False m Some e t i2(1) xs relinked_conf [OF t(4)] show thesis
        by (simp add: lru_get_def spec_get_def)
    qed
  qed
qed

lemma lru_update_refines:
  assumes ok: "lru_ok is s" and get: "hm_get (l_map s) k = Some i"
  obtains s' where "lru_insert now k v s = Some s'"
    "lru_rep s' ((k, v, now + l_ttl s) # without k (lru_items is s))" "same_conf s s'"
proof -
  let ?f = "\<lambda>e. e\<lparr>e_value := v, e_expires_at := now + l_ttl s, e_prev := NULL, e_next := NULL\<rparr>"
  obtain as bs where sp: "is = as @ i # bs" "without k (lru_items is s) = lru_items (as @ bs) s"
    "l_reverse s ! i = Some k" using lru_split [OF ok get] .
  have i: "i \<notin> set (as @ bs)" "i < length (l_entries s)"
    using lru_okD(3) [OF ok] lru_okD(5) [OF ok, of i] sp(1) by auto
  have "lru_links (as @ i # bs) s" using lru_okD(1) [OF ok] sp(1) by simp
  then obtain s1 where s1: "detach i s = Some s1" "lru_links (as @ bs) s1" "relinked s s1"
    using detach_ok by blast
  have len: "length (l_entries s1) = length (l_entries s)" using relinked_length [OF s1(3)] .
  have "i \<in> set is" using sp(1) by simp
  then obtain c where "cells s ! i = Some c" using lru_ok_slot [OF ok] by blast
  then have "cells s1 ! i = Some c" using s1(3) by (simp add: relinked_def)
  then obtain e where e: "l_entries s1 ! i = Some e" using len i by (auto simp: cells_nth)
  let ?s2 = "s1\<lparr>l_entries := (l_entries s1)[i := Some (?f e)]\<rparr>"
  have m: "modify_at i ?f s1 = Some ?s2" using e len i by (simp add: modify_at_def slot_at_def)
  have "lru_links (as @ bs) ?s2" using s1(2) i by (simp add: lru_links_def dlseg_frame)
  then obtain s3 where s3: "attach_front i ?s2 = Some s3" "lru_links (i # as @ bs) s3" "relinked ?s2 s3"
    by (rule attach_front_ok [of _ _ i "?f e"]) (use i len in simp_all)
  have "cells s3 = (cells s)[i := Some (v, now + l_ttl s)]"
    using s1(3) s3(3) by (simp add: relinked_def cells_update)
  moreover have "l_map s3 = l_map s" "l_reverse s3 = l_reverse s" "l_free s3 = l_free s" "l_cap s3 = l_cap s"
    using s1(3) s3(3) by (simp_all add: relinked_def)
  ultimately have "lru_ok (i # as @ bs) s3" "lru_items (i # as @ bs) s3 = (k, v, now + l_ttl s) # lru_items (as @ bs) s"
    using front_slot [OF _ sp(3) s3(2)] ok sp(1) by simp_all
  then have "lru_rep s3 ((k, v, now + l_ttl s) # without k (lru_items is s))"
    unfolding lru_rep_def sp(2) by metis
  moreover have "lru_insert now k v s = Some s3"
    using get s1(1) m s3(1) by (simp add: lru_insert_def)
  moreover have "same_conf s s3" using s1(3) s3(3) by (simp add: relinked_def same_conf_def)
  ultimately show thesis by (intro that)
qed

lemma evict_tail_ok:
  assumes ok: "lru_ok is s"
  obtains is' s1 where "evict_tail s = Some s1" "lru_ok is' s1" "length is' < l_cap s" "same_conf s s1"
    "is' = (if length is = l_cap s then butlast is else is)" "lru_items is' s1 = lru_items is' s"
    "hm_get (l_map s) k = None \<Longrightarrow> hm_get (l_map s1) k = None"
proof (cases "length is = l_cap s")
  case False
  have "length is + length (l_free s) = length (l_entries s)"
    using arg_cong [OF lru_okD(8) [OF ok], of size] by simp
  then have "length is < l_cap s" using False lru_okD(10) [OF ok] by simp
  moreover have "evict_tail s = Some s" using False lru_okD(6) [OF ok] by (simp add: evict_tail_def)
  ultimately show thesis using that [of s "is"] ok False by (simp add: same_conf_def)
next
  case True
  with lru_okD(9) [OF ok] have "is \<noteq> []" by auto
  then obtain as i where "is": "is = as @ [i]" by (cases "is" rule: rev_cases) auto
  then have tl: "l_tail s = i" using lru_okD(1) [OF ok] by (simp add: lru_links_def)
  obtain key e where key: "l_reverse s ! i = Some key" and i: "i < length (l_entries s)"
    using lru_ok_slot [OF ok, of i] "is" by auto
  have "i \<noteq> NULL" using i lru_okD(1) [OF ok] by (simp add: lru_links_def)
  have ni: "i \<notin> set as" using lru_okD(3) [OF ok] "is" by simp
  have "lru_links (as @ i # []) s" using lru_okD(1) [OF ok] "is" by simp
  then obtain s1 where s1: "detach i s = Some s1" "lru_links (as @ []) s1" "relinked s s1"
    using detach_ok by blast
  let ?s' = "s1\<lparr>l_map := hm_remove key (l_map s1), l_entries := (l_entries s1)[i := None],
    l_reverse := (l_reverse s1)[i := None], l_free := l_free s1 @ [i]\<rparr>"
  have "evict_tail s = Some ?s'"
    using True lru_okD(6,7) [OF ok] tl \<open>i \<noteq> NULL\<close> s1 key i relinked_length [OF s1(3)]
    by (simp add: evict_tail_def relinked_def)
  moreover have "lru_links (as @ []) ?s'" using lru_links_clear [OF s1(2)] ni by simp
  moreover have "cells ?s' = (cells s)[i := None]"
    using s1(3) cells_update [of s1 i None] by (simp add: relinked_def cells_def)
  ultimately have "lru_ok (as @ []) ?s'" "lru_items (as @ []) ?s' = lru_items (as @ []) s"
    using erase_slot [OF _ key, of as "[]" ?s'] ok "is" s1(3) by (simp_all add: relinked_def)
  moreover have "hm_get (l_map ?s') k = None" if "hm_get (l_map s) k = None"
    using that s1(3) by (simp add: relinked_def)
  moreover have "same_conf s ?s'" using s1(3) by (simp add: same_conf_def relinked_def)
  moreover have "length as < l_cap s" "as = (if length is = l_cap s then butlast is else is)"
    using True "is" by simp_all
  ultimately show thesis using that [of ?s' as] \<open>evict_tail s = Some ?s'\<close> by simp
qed

text \<open>A slot from the free list or a new one, outside the list in use.\<close>

lemma alloc_slot_ok:
  assumes ok: "lru_ok is s" and room: "length is < l_cap s"
  obtains i s' where "alloc_slot k e s = Some (i, s')" "i \<notin> set is" "lru_links is s'"
    "l_map s' = l_map s" "i < length (l_entries s')" "l_entries s' ! i = Some e" "l_reverse s' ! i = Some k"
    "\<forall>j \<in> set is. l_reverse s' ! j = l_reverse s ! j \<and> cells s' ! j = cells s ! j"
    "mset (i # is) + mset (l_free s') = mset [0..<length (l_entries s')]"
    "length (l_reverse s') = length (l_entries s')" "length (l_entries s') \<le> l_cap s" "same_conf s s'"
proof (cases "l_free s" rule: rev_cases)
  case Nil
  note D = lru_okD [OF ok]
  let ?s' = "s\<lparr>l_entries := l_entries s @ [Some e], l_reverse := l_reverse s @ [Some k]\<rparr>"
  have len: "length is = length (l_entries s)" using arg_cong [OF D(8), of size] Nil by simp
  have old: "j < length (l_entries s)" if "j \<in> set is" for j using that by (rule D(5))
  have "lru_links is ?s'"
    using D(1,10,11) len room by (simp add: lru_links_def dlseg_grow)
  moreover have "\<forall>j \<in> set is. l_reverse ?s' ! j = l_reverse s ! j \<and> cells ?s' ! j = cells s ! j"
    using old D(7) by (simp add: cells_def nth_append)
  moreover have "mset (length (l_entries s) # is) = mset [0..<length (l_entries ?s')]"
    using D(8) Nil by simp
  moreover have "length (l_entries s) \<notin> set is" using old by blast
  moreover have "l_reverse ?s' ! length (l_entries s) = Some k"
    using nth_append_length [of "l_reverse s"] D(7) by simp
  ultimately show thesis
    using that [of "length (l_entries s)" ?s'] Nil D(7) len room
    by (simp add: alloc_slot_def same_conf_def)
next
  case (snoc fs i)
  note D = lru_okD [OF ok]
  let ?s' = "s\<lparr>l_free := fs, l_entries := (l_entries s)[i := Some e], l_reverse := (l_reverse s)[i := Some k]\<rparr>"
  have "mset (is @ fs @ [i]) = mset [0..<length (l_entries s)]" using D(8) snoc by (simp add: ac_simps)
  from mset_eq_imp_distinct_iff [OF this] mset_eq_setD [OF this]
  have ni: "i \<notin> set is" "i < length (l_entries s)" by auto
  have "lru_links is ?s'" using D(1) ni by (simp add: lru_links_def dlseg_frame)
  moreover have "\<forall>j \<in> set is. l_reverse ?s' ! j = l_reverse s ! j \<and> cells ?s' ! j = cells s ! j"
  proof (intro ballI conjI)
    fix j assume "j \<in> set is"
    then have "i \<noteq> j" using ni(1) by blast
    then show "l_reverse ?s' ! j = l_reverse s ! j" "cells ?s' ! j = cells s ! j"
      by (simp_all add: cells_def map_update)
  qed
  moreover have "mset (i # is) + mset fs = mset [0..<length (l_entries ?s')]"
    using D(8) snoc by simp
  ultimately show thesis
    using that [of i ?s'] snoc ni D(7,10) by (simp add: alloc_slot_def same_conf_def)
qed

lemma butlast_lru_items: "butlast (lru_items is s) = lru_items (butlast is) s"
  by (simp add: lru_items_def map_butlast)

lemma lru_insert_refines:
  assumes "lru_rep s xs"
  obtains s' where "lru_insert now k v s = Some s'"
    "lru_rep s' (spec_insert (l_cap s) k v (now + l_ttl s) xs)" "same_conf s s'"
proof -
  obtain "is" where ok: "lru_ok is s" and xs: "xs = lru_items is s"
    using assms by (auto simp: lru_rep_def)
  note mo = lru_items_keys(1) [OF ok, of k]
  show thesis
  proof (cases "hm_get (l_map s) k")
    case (Some i)
    from lru_update_refines [OF ok Some] mo Some that xs show thesis by (auto simp: spec_insert_def)
  next
    case None
    let ?e = "\<lparr>e_value = v, e_expires_at = now + l_ttl s, e_prev = NULL, e_next = NULL\<rparr>"
    obtain is' s1 where ev: "evict_tail s = Some s1" "lru_ok is' s1" "length is' < l_cap s" "same_conf s s1"
      "is' = (if length is = l_cap s then butlast is else is)" "lru_items is' s1 = lru_items is' s"
      "hm_get (l_map s1) k = None"
      using evict_tail_ok [OF ok, of k] None by blast
    have room: "length is' < l_cap s1" using ev(3,4) by (simp add: same_conf_def)
    obtain i s2 where al: "alloc_slot k ?e s1 = Some (i, s2)" "i \<notin> set is'" "lru_links is' s2"
      "l_map s2 = l_map s1" "i < length (l_entries s2)" "l_entries s2 ! i = Some ?e" "l_reverse s2 ! i = Some k"
      "\<forall>j \<in> set is'. l_reverse s2 ! j = l_reverse s1 ! j \<and> cells s2 ! j = cells s1 ! j"
      "mset (i # is') + mset (l_free s2) = mset [0..<length (l_entries s2)]"
      "length (l_reverse s2) = length (l_entries s2)" "length (l_entries s2) \<le> l_cap s1" "same_conf s1 s2"
      using alloc_slot_ok [OF ev(2) room] by blast
    let ?s3 = "s2\<lparr>l_map := hm_insert k i (l_map s2)\<rparr>"
    have "lru_links is' ?s3" using al(3) by simp
    then obtain s4 where s4: "attach_front i ?s3 = Some s4" "lru_links (i # is') s4" "relinked ?s3 s4"
      by (rule attach_front_ok [of _ _ i ?e]) (use al(2,5,6) in simp_all)
    have "cells s2 ! i = Some (v, now + l_ttl s)" using al(5,6) by (simp add: cells_nth)
    then have "lru_ok (i # is') s4" "lru_items (i # is') s4 = (k, v, now + l_ttl s) # lru_items is' s1"
      using new_slot [OF ev(2,7) s4(2), of "(v, now + l_ttl s)"] al s4(3) relinked_length [OF s4(3)]
      by (simp_all add: relinked_def same_conf_def)
    moreover have "spec_insert (l_cap s) k v (now + l_ttl s) xs = (k, v, now + l_ttl s) # lru_items is' s"
      using mo None xs ev(5) by (simp add: spec_insert_def butlast_lru_items) (simp add: lru_items_def)
    ultimately have "lru_rep s4 (spec_insert (l_cap s) k v (now + l_ttl s) xs)"
      unfolding lru_rep_def using ev(6) by metis
    moreover have "lru_insert now k v s = Some s4"
      using None ev(1) al(1) s4(1) by (simp add: lru_insert_def)
    moreover have "same_conf s s4" using ev(4) al(12) s4(3) by (simp add: same_conf_def relinked_def)
    ultimately show thesis by (intro that)
  qed
qed

lemma lru_new_rep: "0 < cap \<Longrightarrow> cap \<le> NULL \<Longrightarrow> lru_rep (lru_new cap ttl) []"
  by (auto simp: lru_rep_def lru_ok_def lru_links_def lru_new_def lru_items_def intro!: exI [of _ "[]"])

section \<open>The contract of the cache\<close>

text \<open>
  What a client relies on: no operation panics; a hit returns the value last inserted for the key;
  the cache may forget entries at any time (expiry, eviction) but never makes one up. The types
  \<open>'t\<close> and \<open>'u\<close> stand for the clock readings of a call.
\<close>

locale lossy_cache =
  fixes invar :: "'s \<Rightarrow> bool"
    and content :: "'s \<Rightarrow> 'k \<Rightarrow> 'v option"
    and insert :: "'t \<Rightarrow> 'k \<Rightarrow> 'v \<Rightarrow> 's \<Rightarrow> 's option"
    and get :: "'u \<Rightarrow> 'k \<Rightarrow> 's \<Rightarrow> ('v option \<times> 's) option"
    and remove :: "'k \<Rightarrow> 's \<Rightarrow> ('r \<times> 's) option"
  assumes insert_ok: "invar s \<Longrightarrow>
      \<exists>s'. insert now k v s = Some s' \<and> invar s' \<and> content s' \<subseteq>\<^sub>m (content s)(k \<mapsto> v)"
    and get_ok: "invar s \<Longrightarrow>
      \<exists>r s'. get now' k s = Some (r, s') \<and> invar s' \<and> content s' \<subseteq>\<^sub>m content s \<and>
        (\<forall>v. r = Some v \<longrightarrow> content s k = Some v)"
    and remove_ok: "invar s \<Longrightarrow>
      \<exists>r s'. remove k s = Some (r, s') \<and> invar s' \<and> content s' \<subseteq>\<^sub>m (content s)(k := None)"
begin

text \<open>
  A property of the cached pairs that the inserted pair has stays true of everything cached.
\<close>

definition holds :: "('k \<Rightarrow> 'v \<Rightarrow> bool) \<Rightarrow> 's \<Rightarrow> bool" where
  "holds P s \<longleftrightarrow> (\<forall>k v. content s k = Some v \<longrightarrow> P k v)"

lemma holds_le: "holds P s \<Longrightarrow> content s' \<subseteq>\<^sub>m content s \<Longrightarrow> holds P s'"
  by (auto simp: holds_def map_le_def) (metis domI)

lemma insert_holds:
  assumes "invar s" "holds P s" "P k v"
  shows "\<exists>s'. insert now k v s = Some s' \<and> invar s' \<and> holds P s'"
proof -
  obtain s' where s': "insert now k v s = Some s'" "invar s'" "content s' \<subseteq>\<^sub>m (content s)(k \<mapsto> v)"
    using insert_ok [OF assms(1)] by blast
  have "P k' v'" if "content s' k' = Some v'" for k' v'
  proof -
    have "((content s)(k \<mapsto> v)) k' = Some v'" using s'(3) that by (metis domI map_le_def)
    then show ?thesis using assms(2,3) by (auto simp: holds_def split: if_splits)
  qed
  with s' show ?thesis by (auto simp: holds_def)
qed

lemma get_holds:
  assumes "invar s" "holds P s"
  shows "\<exists>r s'. get now' k s = Some (r, s') \<and> invar s' \<and> holds P s' \<and> (\<forall>v. r = Some v \<longrightarrow> P k v)"
  using get_ok [OF assms(1), of now' k] holds_le [OF assms(2)] assms(2) by (force simp: holds_def)

lemma remove_holds:
  assumes "invar s" "\<forall>k' v. k' \<noteq> k \<longrightarrow> content s k' = Some v \<longrightarrow> P k' v"
  shows "\<exists>r s'. remove k s = Some (r, s') \<and> invar s' \<and> holds P s'"
proof -
  obtain r s' where s': "remove k s = Some (r, s')" "invar s'" "content s' \<subseteq>\<^sub>m (content s)(k := None)"
    using remove_ok [OF assms(1)] by blast
  have "P k' v'" if "content s' k' = Some v'" for k' v'
  proof -
    have "((content s)(k := None)) k' = Some v'" using s'(3) that by (metis domI map_le_def)
    then show ?thesis using assms(2) by (auto split: if_splits)
  qed
  with s' show ?thesis by (auto simp: holds_def)
qed

end

definition lru_inv :: "('k, 'v) lru \<Rightarrow> bool" where
  "lru_inv s \<longleftrightarrow> (\<exists>xs. lru_rep s xs)"

definition lru_content :: "('k, 'v) lru \<Rightarrow> 'k \<Rightarrow> 'v option" where
  "lru_content s k =
     (case hm_get (l_map s) k of None \<Rightarrow> None | Some i \<Rightarrow> map_option e_value (slot_at i s))"

lemma lru_content_rep:
  assumes "lru_rep s xs"
  shows "lru_content s k = map_option fst (map_of xs k)"
proof -
  obtain "is" where ok: "lru_ok is s" and xs: "xs = lru_items is s"
    using assms by (auto simp: lru_rep_def)
  show ?thesis
  proof (cases "hm_get (l_map s) k")
    case (Some i)
    then have "i \<in> set is" using lru_okD(4) [OF ok] by simp
    then obtain e where "l_entries s ! i = Some e" "cells s ! i = Some (e_value e, e_expires_at e)"
      "i < length (l_entries s)" using lru_ok_slot [OF ok] by blast
    with Some lru_items_keys(1) [OF ok, of k] xs show ?thesis
      by (simp add: lru_content_def slot_at_def)
  qed (simp add: lru_content_def xs lru_items_keys(1) [OF ok])
qed

lemma lru_rep_distinct: "lru_rep s xs \<Longrightarrow> distinct (map fst xs) \<and> length xs \<le> l_cap s"
proof -
  assume "lru_rep s xs"
  then obtain "is" where ok: "lru_ok is s" and xs: "xs = lru_items is s"
    by (auto simp: lru_rep_def)
  have "length is \<le> length (l_entries s)"
    using arg_cong [OF lru_okD(8) [OF ok], of size] by simp
  then show ?thesis
    using lru_items_keys(2) [OF ok] lru_okD(10) [OF ok] xs by (simp add: lru_items_def)
qed

lemma map_of_without: "map_of (without k xs) k' = (if k' = k then None else map_of xs k')"
  by (induction xs) (auto simp: without_def)

lemma map_of_butlast_le:
  assumes "distinct (map fst xs)"
  shows "map_of (butlast xs) \<subseteq>\<^sub>m map_of xs"
proof (cases xs rule: rev_cases)
  case (snoc ys y)
  with assms have "fst y \<notin> fst ` set ys" by simp
  with snoc show ?thesis
    by (auto simp: map_le_def map_add_def split: option.splits)
qed simp

lemma map_le_option: "m \<subseteq>\<^sub>m m' \<Longrightarrow> (\<lambda>k. map_option f (m k)) \<subseteq>\<^sub>m (\<lambda>k. map_option f (m' k))"
  by (auto simp: map_le_def) (metis domI option.simps(9))

interpretation lru: lossy_cache lru_inv lru_content lru_insert lru_get lru_remove
proof
  fix s :: "('k, 'v) lru" and now k v
  assume "lru_inv s"
  then obtain xs where rep: "lru_rep s xs" by (auto simp: lru_inv_def)
  have ct: "lru_content s = (\<lambda>k. map_option fst (map_of xs k))" using lru_content_rep [OF rep] by auto
  have d: "distinct (map fst xs)" using lru_rep_distinct [OF rep] by simp
  show "\<exists>s'. lru_insert now k v s = Some s' \<and> lru_inv s' \<and> lru_content s' \<subseteq>\<^sub>m (lru_content s)(k \<mapsto> v)"
  proof -
    obtain s' where s': "lru_insert now k v s = Some s'"
      "lru_rep s' (spec_insert (l_cap s) k v (now + l_ttl s) xs)" using lru_insert_refines [OF rep] .
    let ?m = "map_of (tl (spec_insert (l_cap s) k v (now + l_ttl s) xs))"
    have "?m \<subseteq>\<^sub>m map_of xs"
      using map_of_butlast_le [OF d] by (auto simp: spec_insert_def map_le_def map_of_without)
    from map_le_option [OF this, of fst]
    have "lru_content s' \<subseteq>\<^sub>m (lru_content s)(k \<mapsto> v)"
      using lru_content_rep [OF s'(2)] unfolding ct
      by (auto simp: map_le_def dom_def spec_insert_def map_of_without split: if_splits)
    with s' show ?thesis by (auto simp: lru_inv_def)
  qed
  show "\<exists>r s'. lru_get now k s = Some (r, s') \<and> lru_inv s' \<and> lru_content s' \<subseteq>\<^sub>m lru_content s \<and>
      (\<forall>v. r = Some v \<longrightarrow> lru_content s k = Some v)"
  proof -
    obtain s' where s': "lru_get now k s = Some (fst (spec_get now k xs), s')"
      "lru_rep s' (snd (spec_get now k xs))" using lru_get_refines [OF rep] .
    then show ?thesis
      using lru_content_rep [OF s'(2)] unfolding ct
      by (auto simp: lru_inv_def map_le_def spec_get_def map_of_without split: option.splits if_splits)
  qed
  show "\<exists>r s'. lru_remove k s = Some (r, s') \<and> lru_inv s' \<and> lru_content s' \<subseteq>\<^sub>m (lru_content s)(k := None)"
  proof -
    obtain s' where s': "lru_remove k s = Some (fst (spec_remove k xs), s')"
      "lru_rep s' (snd (spec_remove k xs))" using lru_remove_refines [OF rep] .
    then show ?thesis
      using lru_content_rep [OF s'(2)] unfolding ct
      by (auto simp: lru_inv_def map_le_def spec_remove_def map_of_without split: if_splits)
  qed
qed

section \<open>Properties\<close>

text \<open>
  C14. The index-linked cache implements a bounded move-to-front list: \<open>insert\<close> puts the key with
  its new value and expiry first (replacing an old one, and giving up exactly the least recently
  used item when the cache is full), \<open>get\<close> returns an unexpired value and moves it to the front or
  drops an expired one, \<open>remove\<close> takes the key out; no operation panics.
\<close>

theorem lru_refines_move_to_front:
  assumes "lru_rep s xs"
  shows "(\<exists>s'. lru_insert now k v s = Some s' \<and> lru_rep s' (spec_insert (l_cap s) k v (now + l_ttl s) xs)) \<and>
    (\<exists>s'. lru_get now k s = Some (fst (spec_get now k xs), s') \<and> lru_rep s' (snd (spec_get now k xs))) \<and>
    (\<exists>s'. lru_remove k s = Some (fst (spec_remove k xs), s') \<and> lru_rep s' (snd (spec_remove k xs)))"
  using lru_insert_refines [OF assms, of now k v] lru_get_refines [OF assms, of now k]
    lru_remove_refines [OF assms, of k]
  by metis

theorem lru_refines_move_to_front_witness:
  "\<exists>s. lru_insert 3 (1 :: nat) ''a'' (lru_new 2 10) = Some s \<and> lru_rep s [(1, ''a'', 13)]"
proof -
  have "lru_rep (lru_new 2 10 :: (nat, string) lru) []" by (rule lru_new_rep) (simp_all add: NULL_def)
  from lru_refines_move_to_front [OF this, of 3 1 "''a''"] show ?thesis
    by (simp add: spec_insert_def lru_new_def)
qed

text \<open>Histories of a cache.\<close>

inductive lru_reachable :: "nat \<Rightarrow> nat \<Rightarrow> ('k, 'v) lru \<Rightarrow> bool" for cap ttl where
  created: "lru_reachable cap ttl (lru_new cap ttl)"
| inserted: "lru_reachable cap ttl s \<Longrightarrow> lru_insert now k v s = Some s' \<Longrightarrow> lru_reachable cap ttl s'"
| got: "lru_reachable cap ttl s \<Longrightarrow> lru_get now k s = Some (r, s') \<Longrightarrow> lru_reachable cap ttl s'"
| removed: "lru_reachable cap ttl s \<Longrightarrow> lru_remove k s = Some (r, s') \<Longrightarrow> lru_reachable cap ttl s'"

lemma lru_reachable_rep:
  assumes "lru_reachable cap ttl s" "0 < cap" "cap \<le> NULL"
  shows "lru_inv s \<and> l_cap s = cap \<and> l_ttl s = ttl"
  using assms(1)
proof (induction rule: lru_reachable.induct)
  case created
  then show ?case using lru_new_rep assms by (auto simp: lru_inv_def lru_new_def)
next
  case (inserted s now k v s')
  then obtain xs where "lru_rep s xs" by (auto simp: lru_inv_def)
  from lru_insert_refines [OF this, of now k v] inserted show ?case
    by (auto simp: lru_inv_def same_conf_def)
next
  case (got s now k r s')
  then obtain xs where "lru_rep s xs" by (auto simp: lru_inv_def)
  from lru_get_refines [OF this, of now k] got show ?case
    by (auto simp: lru_inv_def same_conf_def)
next
  case (removed s k r s')
  then obtain xs where "lru_rep s xs" by (auto simp: lru_inv_def)
  from lru_remove_refines [OF this, of k] removed show ?case
    by (auto simp: lru_inv_def same_conf_def)
qed

text \<open>
  Through any history of inserts, gets and removes a cache of positive capacity holds at most
  \<open>cap\<close> keys in at most \<open>cap\<close> slots, every key of its map is served by exactly one slot, and an
  insert makes its key present with exactly the inserted value.
\<close>

theorem lru_bounded:
  assumes "lru_reachable cap ttl s" "0 < cap" "cap \<le> NULL"
  shows "length (l_map s) \<le> cap \<and> length (l_entries s) \<le> cap \<and> distinct (map snd (l_map s)) \<and>
    (\<exists>s'. lru_insert now k v s = Some s' \<and> lru_content s' k = Some v)"
proof -
  obtain xs where rep: "lru_rep s xs" and cap: "l_cap s = cap"
    using lru_reachable_rep [OF assms] by (auto simp: lru_inv_def)
  then obtain "is" where ok: "lru_ok is s" and xs: "xs = lru_items is s"
    by (auto simp: lru_rep_def)
  have "length is \<le> length (l_entries s)"
    using arg_cong [OF lru_okD(8) [OF ok], of size] by simp
  moreover have "distinct (map snd (l_map s))"
  proof -
    have d: "distinct (map fst (l_map s))" using lru_okD(2) [OF ok] by (simp add: hm_ok_def)
    have "x = y" if "x \<in> set (l_map s)" "y \<in> set (l_map s)" "snd x = snd y" for x y
    proof -
      have "hm_get (l_map s) (fst x) = Some (snd x)" "hm_get (l_map s) (fst y) = Some (snd y)"
        using d that(1,2) by simp_all
      then have "fst x = fst y" using lru_okD(4) [OF ok] that(3) by (metis option.inject)
      with that(3) show ?thesis by (simp add: prod_eq_iff)
    qed
    with d show ?thesis by (auto simp: distinct_map inj_on_def)
  qed
  moreover obtain s' where ins: "lru_insert now k v s = Some s'"
    "lru_rep s' (spec_insert (l_cap s) k v (now + l_ttl s) xs)" using lru_insert_refines [OF rep] .
  moreover have "lru_content s' k = Some v"
    using lru_content_rep [OF ins(2), of k] by (simp add: spec_insert_def)
  ultimately show ?thesis
    using lru_okD(6,10) [OF ok] cap by simp
qed

theorem lru_bounded_witness:
  "\<exists>s. lru_reachable 2 5 (s :: (nat, nat) lru) \<and> length (l_map s) \<le> 2 \<and>
     (\<exists>s'. lru_insert 7 8 9 s = Some s' \<and> lru_content s' 8 = Some 9)"
proof -
  have r: "lru_reachable 2 5 (lru_new 2 5 :: (nat, nat) lru)" by (rule lru_reachable.created)
  have "2 \<le> NULL" by (simp add: NULL_def)
  note b = lru_bounded [OF r _ this, of 7 8 9, simplified]
  show ?thesis
    by (rule exI [of _ "lru_new 2 5"]) (use r b in auto)
qed

end
