(* ===== verification/Kv.thy ===== *)
theory Kv
  imports Lru "HOL-Library.Product_Lexorder"
begin

text \<open>
  The key-value store (\<open>server/src/db/kv.rs\<close>): named databases of at most 1024 entries with a
  time to live. Clock readings (\<open>chrono::Utc::now().timestamp_millis()\<close>) are arguments, one per
  reading in the code, and so is the iteration order of the hash map that the eviction samples.
  Times are \<open>i64\<close>: compared as signed numbers, added with wrap-around. Errors carry the message of
  the code.
\<close>

section \<open>Data\<close>

record db_entry =
  de_val :: bytes
  de_ttl :: i64
  de_used_count :: u64
  de_last_used :: i64

record kv_db =
  kd_id :: string
  kd_entries :: "(string, db_entry) hash_map"

record kv_store =
  kv_dbs :: "(string, kv_db) hash_map"

type_synonym kv_iter = "(string, db_entry) hash_map \<Rightarrow> (string \<times> db_entry) list"

section \<open>One database\<close>

definition db_new :: "string \<Rightarrow> kv_db" where
  "db_new i = \<lparr>kd_id = i, kd_entries = []\<rparr>"

definition db_set :: "string \<Rightarrow> db_entry \<Rightarrow> kv_db \<Rightarrow> kv_db" where
  "db_set key entry db = db\<lparr>kd_entries := hm_insert key entry (kd_entries db)\<rparr>"

definition db_get :: "i64 \<Rightarrow> i64 \<Rightarrow> string \<Rightarrow> kv_db \<Rightarrow> db_entry option \<times> kv_db" where
  "db_get now1 now2 key db =
     (case hm_get (kd_entries db) key of
        None \<Rightarrow> (None, db)
      | Some v \<Rightarrow>
          if de_ttl v \<noteq> 0 \<and> sint (de_ttl v) < sint now1
          then (None, db\<lparr>kd_entries := hm_remove key (kd_entries db)\<rparr>)
          else let db' = db\<lparr>kd_entries := hm_insert key
                     (v\<lparr>de_used_count := de_used_count v + 1, de_last_used := now2\<rparr>) (kd_entries db)\<rparr>
               in (hm_get (kd_entries db') key, db'))"

definition db_del :: "string \<Rightarrow> kv_db \<Rightarrow> (string, unit) result \<times> kv_db" where
  "db_del key db =
     (case hm_get (kd_entries db) key of
        None \<Rightarrow> (Err (key @ '' not found''), db)
      | Some _ \<Rightarrow> (Ok (), db\<lparr>kd_entries := hm_remove key (kd_entries db)\<rparr>))"

definition db_keys :: "kv_iter \<Rightarrow> kv_db \<Rightarrow> string list" where
  "db_keys iter db = map fst (iter (kd_entries db))"

definition db_flush :: "kv_db \<Rightarrow> kv_db" where
  "db_flush db = db\<lparr>kd_entries := []\<rparr>"

text \<open>\<open>sort_by\<close> is stable and compares \<open>used_count\<close> first, then \<open>last_used\<close>.\<close>

definition sample_size :: "nat \<Rightarrow> nat" where
  "sample_size n = min (max (n div 5) 16) n"

definition usage_rank :: "string \<times> db_entry \<Rightarrow> u64 \<times> int" where
  "usage_rank x = (de_used_count (snd x), sint (de_last_used (snd x)))"

definition eviction_victims :: "kv_iter \<Rightarrow> kv_db \<Rightarrow> string list" where
  "eviction_victims iter db =
     (let sample = sample_size (length (kd_entries db));
          candidates = sort_key usage_rank (take sample (iter (kd_entries db)));
          remove_count = max (sample div 4) 1
      in map fst (take remove_count candidates))"

definition expire_least_used :: "kv_iter \<Rightarrow> kv_db \<Rightarrow> kv_db" where
  "expire_least_used iter db =
     (if sample_size (length (kd_entries db)) = 0 then db
      else db\<lparr>kd_entries := fold hm_remove (eviction_victims iter db) (kd_entries db)\<rparr>)"

section \<open>The store\<close>

definition kv_new :: kv_store where
  "kv_new = \<lparr>kv_dbs = []\<rparr>"

text \<open>\<open>get_db_mut\<close> yields the database, creating it; \<open>put_db\<close> is the write through the reference.\<close>

definition get_db_mut :: "string \<Rightarrow> kv_store \<Rightarrow> kv_db" where
  "get_db_mut db s = (case hm_get (kv_dbs s) db of None \<Rightarrow> db_new db | Some d \<Rightarrow> d)"

definition put_db :: "string \<Rightarrow> kv_db \<Rightarrow> kv_store \<Rightarrow> kv_store" where
  "put_db db d s = s\<lparr>kv_dbs := hm_insert db d (kv_dbs s)\<rparr>"

definition kv_set :: "kv_iter \<Rightarrow> i64 \<Rightarrow> i64 \<Rightarrow> string \<Rightarrow> string \<Rightarrow> bytes \<Rightarrow> i64 \<Rightarrow> kv_store \<Rightarrow> kv_store" where
  "kv_set iter now1 now2 db key val ttl s =
     (let ttl_ts = (if ttl = 0 then 0 else now1 + ttl);
          d = get_db_mut db s;
          d1 = (if length (kd_entries d) \<ge> 1024 then expire_least_used iter d else d)
      in put_db db (db_set key \<lparr>de_val = val, de_ttl = ttl_ts, de_used_count = 0, de_last_used = now2\<rparr> d1) s)"

definition kv_get :: "i64 \<Rightarrow> i64 \<Rightarrow> string \<Rightarrow> string \<Rightarrow> kv_store \<Rightarrow> db_entry option \<times> kv_store" where
  "kv_get now1 now2 db key s =
     (let (r, d) = db_get now1 now2 key (get_db_mut db s) in (r, put_db db d s))"

definition kv_del :: "string \<Rightarrow> string \<Rightarrow> kv_store \<Rightarrow> (string, unit) result \<times> kv_store" where
  "kv_del db key s = (let (r, d) = db_del key (get_db_mut db s) in (r, put_db db d s))"

definition kv_keys :: "kv_iter \<Rightarrow> string \<Rightarrow> kv_store \<Rightarrow> string list" where
  "kv_keys iter db s = (case hm_get (kv_dbs s) db of None \<Rightarrow> [] | Some d \<Rightarrow> db_keys iter d)"

definition kv_flush :: "string \<Rightarrow> kv_store \<Rightarrow> kv_store" where
  "kv_flush db s = put_db db (db_flush (get_db_mut db s)) s"

definition kv_create_db :: "string \<Rightarrow> kv_store \<Rightarrow> (string, unit) result \<times> kv_store" where
  "kv_create_db i s =
     (if hm_get (kv_dbs s) i \<noteq> None then (Err (''database '' @ i @ '' already exists''), s)
      else (Ok (), s\<lparr>kv_dbs := hm_insert i (db_new i) (kv_dbs s)\<rparr>))"

section \<open>Lookups\<close>

definition kv_entry :: "kv_store \<Rightarrow> string \<times> string \<Rightarrow> db_entry option" where
  "kv_entry s x = hm_get (kd_entries (get_db_mut (fst x) s)) (snd x)"

definition kv_content :: "kv_store \<Rightarrow> string \<times> string \<Rightarrow> bytes option" where
  "kv_content s x = map_option de_val (kv_entry s x)"

definition kv_inv :: "kv_store \<Rightarrow> bool" where
  "kv_inv s \<longleftrightarrow> hm_ok (kv_dbs s) \<and>
     (\<forall>db. hm_ok (kd_entries (get_db_mut db s)) \<and> length (kd_entries (get_db_mut db s)) \<le> 1024)"

lemma get_put_db [simp]: "get_db_mut db' (put_db db d s) = (if db' = db then d else get_db_mut db' s)"
  by (simp add: get_db_mut_def put_db_def)

lemma kv_entry_put [simp]:
  "kv_entry (put_db db d s) x = (if fst x = db then hm_get (kd_entries d) (snd x) else kv_entry s x)"
  by (simp add: kv_entry_def)

lemma kv_inv_put:
  "kv_inv s \<Longrightarrow> hm_ok (kd_entries d) \<Longrightarrow> length (kd_entries d) \<le> 1024 \<Longrightarrow> kv_inv (put_db db d s)"
  by (auto simp: kv_inv_def put_db_def get_db_mut_def)

lemma kv_inv_db: "kv_inv s \<Longrightarrow> hm_ok (kd_entries (get_db_mut db s)) \<and> length (kd_entries (get_db_mut db s)) \<le> 1024"
  by (simp add: kv_inv_def)

section \<open>Eviction\<close>

lemma iter_okD:
  assumes "iter_ok iter"
  shows "mset (iter m) = mset m" "set (iter m) = set m" "length (iter m) = length m"
    "distinct (map fst (iter m)) = distinct (map fst m)"
proof -
  show m: "mset (iter m) = mset m" using assms by (simp add: iter_ok_def)
  show "set (iter m) = set m" using m by (rule mset_eq_setD)
  show "length (iter m) = length m" using m by (rule mset_eq_length)
  show "distinct (map fst (iter m)) = distinct (map fst m)"
    using m by (intro mset_eq_imp_distinct_iff) (simp only: mset_map)
qed

lemma sort_key_take_le:
  assumes "x \<in> set (take n (sort_key f xs))" "y \<in> set (drop n (sort_key f xs))"
  shows "f x \<le> f y"
proof -
  have "sorted (map f (take n (sort_key f xs) @ drop n (sort_key f xs)))"
    by (simp only: append_take_drop_id sorted_sort_key)
  with assms show ?thesis by (simp only: map_append sorted_append) simp
qed

lemma victims_distinct:
  assumes "iter_ok iter" "hm_ok (kd_entries db)"
  shows "distinct (eviction_victims iter db)"
proof -
  let ?c = "take (sample_size (length (kd_entries db))) (iter (kd_entries db))"
  have "distinct (map fst (iter (kd_entries db)))"
    using assms iter_okD(4) [OF assms(1)] by (simp add: hm_ok_def)
  then have d: "distinct (map fst ?c)" by (simp add: take_map [symmetric])
  have "mset (map fst (sort_key usage_rank ?c)) = mset (map fst ?c)" by simp
  then have "distinct (map fst (sort_key usage_rank ?c))"
    using d by (rule mset_eq_imp_distinct_iff [THEN iffD2])
  then show ?thesis by (simp add: eviction_victims_def Let_def take_map [symmetric])
qed

lemma sample_size_le: "sample_size n \<le> n"
  by (simp add: sample_size_def)

lemma length_victims:
  assumes "iter_ok iter"
  shows "length (eviction_victims iter db) =
    min (max (sample_size (length (kd_entries db)) div 4) 1) (sample_size (length (kd_entries db)))"
  by (simp add: eviction_victims_def Let_def iter_okD(3) [OF assms] min.absorb2 [OF sample_size_le] min.commute)

lemma expire_get: "hm_get (kd_entries (expire_least_used iter db)) k =
  (if sample_size (length (kd_entries db)) \<noteq> 0 \<and> k \<in> set (eviction_victims iter db) then None
   else hm_get (kd_entries db) k)"
proof -
  have "hm_get (fold hm_remove ks m) k = (if k \<in> set ks then None else hm_get m k)"
    for ks and m :: "(string, db_entry) hash_map"
    by (induction ks arbitrary: m) auto
  then show ?thesis by (simp add: expire_least_used_def)
qed

lemma expire_ok: "hm_ok (kd_entries db) \<Longrightarrow> hm_ok (kd_entries (expire_least_used iter db))"
  using hm.invar_del_all [of "kd_entries db"] by (simp add: expire_least_used_def)

lemma fold_remove_length:
  assumes "hm_ok m" "distinct ks" "set ks \<subseteq> fst ` set m"
  shows "length (fold hm_remove ks m) = length m - length ks"
  using assms
proof (induction ks arbitrary: m)
  case (Cons k ks)
  have "set ks \<subseteq> fst ` set (hm_remove k m)"
    using Cons.prems unfolding list.set_map [symmetric] delete_keys by auto
  then have "length (fold hm_remove ks (hm_remove k m)) = length (hm_remove k m) - length ks"
    using Cons by simp
  moreover have "hm_get m k \<noteq> None" using Cons.prems(3) by (simp add: map_of_eq_None_iff)
  ultimately show ?case using hm_length_del [OF Cons.prems(1), of k] by simp
qed simp

lemma victims_subset: "iter_ok iter \<Longrightarrow> set (eviction_victims iter db) \<subseteq> fst ` set (kd_entries db)"
  using iter_okD(2) [of iter "kd_entries db"]
  by (fastforce simp: eviction_victims_def Let_def dest!: in_set_takeD)

lemma expire_length:
  assumes "iter_ok iter" "hm_ok (kd_entries db)"
  shows "length (kd_entries (expire_least_used iter db)) =
    length (kd_entries db) - min (max (sample_size (length (kd_entries db)) div 4) 1) (sample_size (length (kd_entries db)))"
  using fold_remove_length [OF assms(2) victims_distinct [OF assms] victims_subset [OF assms(1)]]
    length_victims [OF assms(1)]
  by (simp add: expire_least_used_def)

lemma hm_ok_mem: "hm_ok m \<Longrightarrow> x \<in> set m \<longleftrightarrow> hm_get m (fst x) = Some (snd x)"
  by (cases x) (simp add: hm_ok_def)

lemma expire_set:
  assumes "hm_ok (kd_entries d)" "kd_entries d \<noteq> []"
  shows "x \<in> set (kd_entries (expire_least_used iter d)) \<longleftrightarrow>
    x \<in> set (kd_entries d) \<and> fst x \<notin> set (eviction_victims iter d)"
proof -
  have "0 < sample_size (length (kd_entries d))"
    using assms(2) by (cases "kd_entries d") (simp_all add: sample_size_def)
  then show ?thesis
    using hm_ok_mem [OF expire_ok [OF assms(1)], of x] hm_ok_mem [OF assms(1), of x]
    by (auto simp: expire_get)
qed

text \<open>An evicted entry is among the first of the sorted sample.\<close>

lemma evicted_first:
  assumes "iter_ok iter" "hm_ok (kd_entries d)" "kd_entries d \<noteq> []"
    and x: "x \<in> set (kd_entries d) - set (kd_entries (expire_least_used iter d))"
  defines "n \<equiv> sample_size (length (kd_entries d))"
  shows "x \<in> set (take (max (n div 4) 1) (sort_key usage_rank (take n (iter (kd_entries d)))))"
proof -
  have "fst x \<in> set (eviction_victims iter d)" using expire_set [OF assms(2,3)] x by blast
  then obtain y where y: "fst y = fst x"
    "y \<in> set (take (max (n div 4) 1) (sort_key usage_rank (take n (iter (kd_entries d)))))"
    by (auto simp: eviction_victims_def Let_def n_def)
  have "y \<in> set (take n (iter (kd_entries d)))" using in_set_takeD [OF y(2)] by simp
  then have "y \<in> set (kd_entries d)"
    using iter_okD(2) [OF assms(1), of "kd_entries d"] by (metis in_set_takeD)
  then have "snd y = snd x"
    using hm_ok_mem [OF assms(2), of x] hm_ok_mem [OF assms(2), of y] y(1) x by simp
  with y(1) have "y = x" by (simp add: prod_eq_iff)
  with y(2) show ?thesis by simp
qed

lemma evicted_sampled:
  assumes "iter_ok iter" "hm_ok (kd_entries d)" "kd_entries d \<noteq> []"
    and "x \<in> set (kd_entries d) - set (kd_entries (expire_least_used iter d))"
  shows "x \<in> set (take (sample_size (length (kd_entries d))) (iter (kd_entries d)))"
  using in_set_takeD [OF evicted_first [OF assms]] by simp

lemma evicted_rank:
  assumes "iter_ok iter" "hm_ok (kd_entries d)" "kd_entries d \<noteq> []"
    and "x \<in> set (kd_entries d) - set (kd_entries (expire_least_used iter d))"
    and y: "y \<in> set (take (sample_size (length (kd_entries d))) (iter (kd_entries d)))"
      "y \<in> set (kd_entries (expire_least_used iter d))"
  shows "usage_rank x \<le> usage_rank y"
proof (rule sort_key_take_le [OF evicted_first [OF assms(1-4)]])
  let ?n = "sample_size (length (kd_entries d))"
  let ?s = "sort_key usage_rank (take ?n (iter (kd_entries d)))"
  let ?r = "max (?n div 4) 1"
  have "y \<in> set (take ?r ?s @ drop ?r ?s)" using y(1) by (simp only: append_take_drop_id set_sort)
  moreover have "y \<notin> set (take ?r ?s)"
    using expire_set [OF assms(2,3)] y(2) by (auto simp: eviction_victims_def Let_def)
  ultimately show "y \<in> set (drop ?r ?s)" by (simp only: set_append Un_iff) simp
qed

section \<open>The contract of the store\<close>

lemma kv_set_inv:
  assumes "kv_inv s" "iter_ok iter"
  shows "kv_inv (kv_set iter now1 now2 db key val ttl s)"
proof -
  let ?d = "get_db_mut db s"
  let ?d1 = "if length (kd_entries ?d) \<ge> 1024 then expire_least_used iter ?d else ?d"
  have d: "hm_ok (kd_entries ?d)" "length (kd_entries ?d) \<le> 1024" using kv_inv_db [OF assms(1)] by auto
  then have "length (kd_entries (expire_least_used iter ?d)) < 1024" if "length (kd_entries ?d) \<ge> 1024"
    using that expire_length [OF assms(2) d(1)] by (simp add: sample_size_def)
  then have d1: "hm_ok (kd_entries ?d1)" "length (kd_entries ?d1) < 1024"
    using d expire_ok by auto
  then have "length (kd_entries (db_set key e ?d1)) \<le> 1024" for e
    using hm_length_put [OF d1(1), of key e] by (auto simp: db_set_def)
  then show ?thesis
    using d1(1) assms(1) unfolding kv_set_def Let_def by (intro kv_inv_put) (simp_all add: db_set_def)
qed

lemma db_get_length: "hm_ok (kd_entries d) \<Longrightarrow> hm_ok (kd_entries (snd (db_get n1 n2 key d))) \<and>
    length (kd_entries (snd (db_get n1 n2 key d))) \<le> length (kd_entries d)"
  by (auto simp: db_get_def Let_def hm_length_put hm_length_del split: option.split)

lemma kv_get_inv: "kv_inv s \<Longrightarrow> kv_inv (snd (kv_get n1 n2 db key s))"
  using db_get_length [of "get_db_mut db s" n1 n2 key] kv_inv_db [of s db]
  by (auto simp: kv_get_def split: prod.split intro!: kv_inv_put)

lemma kv_del_inv: "kv_inv s \<Longrightarrow> kv_inv (snd (kv_del db key s))"
  using kv_inv_db [of s db]
  by (auto simp: kv_del_def db_del_def hm_length_del split: prod.split option.split intro!: kv_inv_put)

lemma kv_flush_inv: "kv_inv s \<Longrightarrow> kv_inv (kv_flush db s)"
  by (auto simp: kv_flush_def db_flush_def intro!: kv_inv_put)

lemma kv_create_inv: "kv_inv s \<Longrightarrow> kv_inv (snd (kv_create_db db s))"
  using kv_inv_put [of s "db_new db" db] by (auto simp: kv_create_db_def put_db_def db_new_def)

lemma kv_entry_set: "kv_entry (kv_set iter now1 now2 db key val ttl s) x =
  (if x = (db, key) then Some \<lparr>de_val = val, de_ttl = (if ttl = 0 then 0 else now1 + ttl),
       de_used_count = 0, de_last_used = now2\<rparr>
   else if fst x = db \<and> length (kd_entries (get_db_mut db s)) \<ge> 1024 \<and>
     snd x \<in> set (eviction_victims iter (get_db_mut db s)) then None
   else kv_entry s x)"
  by (cases x) (auto simp: kv_set_def Let_def db_set_def expire_get sample_size_def kv_entry_def)

lemma kv_entry_get: "kv_entry (snd (kv_get n1 n2 db key s)) x =
  (if x = (db, key) then fst (kv_get n1 n2 db key s) else kv_entry s x)"
  by (cases x) (auto simp: kv_get_def db_get_def Let_def kv_entry_def split: prod.split option.split)

lemma kv_get_result: "fst (kv_get n1 n2 db key s) =
  (case kv_entry s (db, key) of
     None \<Rightarrow> None
   | Some v \<Rightarrow> if de_ttl v \<noteq> 0 \<and> sint (de_ttl v) < sint n1 then None
       else Some (v\<lparr>de_used_count := de_used_count v + 1, de_last_used := n2\<rparr>))"
  by (auto simp: kv_get_def db_get_def Let_def kv_entry_def split: prod.split option.split)

lemma kv_entry_del: "kv_entry (snd (kv_del db key s)) x = (if x = (db, key) then None else kv_entry s x)"
  by (cases x) (auto simp: kv_del_def db_del_def kv_entry_def split: option.split)

lemma kv_entry_flush: "kv_entry (kv_flush db s) x = (if fst x = db then None else kv_entry s x)"
  by (simp add: kv_flush_def db_flush_def)

lemma kv_entry_create: "kv_entry (snd (kv_create_db db s)) x = kv_entry s x"
  by (auto simp: kv_create_db_def kv_entry_def get_db_mut_def db_new_def)

text \<open>
  The store keeps the contract of a cache over pairs of database and key, with any time to live:
  an entry may be gone (expired or evicted), but a hit is the value last set.
\<close>

interpretation kvc: lossy_cache "\<lambda>_. True" kv_content
  "\<lambda>(n1, n2, ttl) (db, key) v s. Some (kv_set iter n1 n2 db key v ttl s)"
  "\<lambda>(n1, n2) (db, key) s. Some (map_option de_val (fst (kv_get n1 n2 db key s)), snd (kv_get n1 n2 db key s))"
  "\<lambda>(db, key) s. Some (kv_del db key s)" for iter
proof
  fix s :: kv_store and x v and now :: "i64 \<times> i64 \<times> i64" and now' :: "i64 \<times> i64"
  show "\<exists>s'. (case now of (n1, n2, ttl) \<Rightarrow> \<lambda>(db, key) v s. Some (kv_set iter n1 n2 db key v ttl s)) x v s = Some s' \<and>
      True \<and> kv_content s' \<subseteq>\<^sub>m (kv_content s)(x \<mapsto> v)"
    by (cases x; cases now) (auto simp: map_le_def kv_content_def kv_entry_set split: if_splits)
  show "\<exists>r s'. (case now' of (n1, n2) \<Rightarrow> \<lambda>(db, key) s.
        Some (map_option de_val (fst (kv_get n1 n2 db key s)), snd (kv_get n1 n2 db key s))) x s = Some (r, s') \<and>
      True \<and> kv_content s' \<subseteq>\<^sub>m kv_content s \<and> (\<forall>v. r = Some v \<longrightarrow> kv_content s x = Some v)"
    by (cases x; cases now')
      (auto simp: map_le_def kv_content_def kv_entry_get kv_get_result split: if_splits option.splits)
  show "\<exists>r s'. (case x of (db, key) \<Rightarrow> \<lambda>s. Some (kv_del db key s)) s = Some (r, s') \<and> True \<and>
      kv_content s' \<subseteq>\<^sub>m (kv_content s)(x := None)"
    by (cases x) (force simp: map_le_def kv_content_def kv_entry_del [of _ _ s] prod_eq_iff split: if_splits)
qed

section \<open>Properties\<close>

text \<open>
  Histories of a store. The ghost map \<open>m\<close> has, for every database and key, the value last set and
  not deleted or flushed since.
\<close>

inductive kv_history :: "kv_iter \<Rightarrow> (string \<times> string \<Rightarrow> bytes option) \<Rightarrow> kv_store \<Rightarrow> bool" for iter where
  created: "kv_history iter Map.empty kv_new"
| set: "kv_history iter m s \<Longrightarrow>
    kv_history iter (m((db, key) \<mapsto> v)) (kv_set iter n1 n2 db key v ttl s)"
| got: "kv_history iter m s \<Longrightarrow> kv_history iter m (snd (kv_get n1 n2 db key s))"
| deleted: "kv_history iter m s \<Longrightarrow> kv_history iter (m((db, key) := None)) (snd (kv_del db key s))"
| flushed: "kv_history iter m s \<Longrightarrow>
    kv_history iter (\<lambda>x. if fst x = db then None else m x) (kv_flush db s)"
| created_db: "kv_history iter m s \<Longrightarrow> kv_history iter m (snd (kv_create_db db s))"

lemma kv_history_inv:
  assumes "kv_history iter m s" "iter_ok iter"
  shows "kv_inv s"
  using assms(1)
proof (induction rule: kv_history.induct)
  case created
  show ?case by (simp add: kv_new_def kv_inv_def get_db_mut_def db_new_def)
qed (simp_all add: kv_set_inv [OF _ assms(2)] kv_get_inv kv_del_inv kv_flush_inv kv_create_inv)

lemma kv_history_content:
  assumes "kv_history iter m s"
  shows "kv_content s \<subseteq>\<^sub>m m"
  using assms
proof (induction rule: kv_history.induct)
  case created
  show ?case by (simp add: kv_new_def kv_content_def kv_entry_def get_db_mut_def db_new_def map_le_def dom_def)
next
  case (set m s db key v n1 n2 ttl)
  have "kv_content (kv_set iter n1 n2 db key v ttl s) \<subseteq>\<^sub>m (kv_content s)((db, key) \<mapsto> v)"
    using kvc.insert_ok [of iter "(n1, n2, ttl)" "(db, key)" v s] by simp
  then show ?case using set(2) by (meson map_le_trans map_le_upd)
next
  case (got m s n1 n2 db key)
  have "kv_content (snd (kv_get n1 n2 db key s)) \<subseteq>\<^sub>m kv_content s"
    using kvc.get_ok [of "(n1, n2)" "(db, key)" s] by simp
  then show ?case using got(2) by (rule map_le_trans)
next
  case (deleted m s db key)
  then show ?case by (auto simp: map_le_def kv_content_def kv_entry_del dom_def)
next
  case (flushed m s db)
  then show ?case by (auto simp: map_le_def kv_content_def kv_entry_flush dom_def)
next
  case (created_db m s db)
  then show ?case by (auto simp: map_le_def kv_content_def kv_entry_create dom_def)
qed

text \<open>
  After \<open>set\<close>, \<open>get\<close> of the same key returns the value with its use counted, exactly as long as
  the time to live has not run out (a zero time to live, or a deadline that wraps to zero, never
  runs out); the first read after the deadline returns nothing and removes the entry.
\<close>

theorem kv_get_after_set:
  "let ttl_ts = (if ttl = 0 then 0 else t1 + ttl);
       r = kv_get n1 n2 db key (kv_set iter t1 t2 db key v ttl s)
   in fst r = (if ttl_ts \<noteq> 0 \<and> sint ttl_ts < sint n1 then None
        else Some \<lparr>de_val = v, de_ttl = ttl_ts, de_used_count = 1, de_last_used = n2\<rparr>) \<and>
      kv_entry (snd r) (db, key) = fst r"
  by (simp add: Let_def kv_get_result kv_entry_set kv_entry_get)

text \<open>
  C39. No database ever holds more than 1024 entries, through any history of operations, with any
  iteration order of the hash map.
\<close>

theorem kv_bounded:
  assumes "iter_ok iter" "kv_history iter m s" "hm_get (kv_dbs s) db = Some d"
  shows "length (kd_entries d) \<le> 1024"
  using kv_inv_db [OF kv_history_inv [OF assms(2,1)], of db] assms(3) by (simp add: get_db_mut_def)

theorem kv_bounded_witness:
  "iter_ok id \<and> kv_history id [(''d'', ''k'') \<mapsto> [7]] (kv_set id 1 1 ''d'' ''k'' [7] 0 kv_new) \<and>
   length (kd_entries (get_db_mut ''d'' (kv_set id 1 1 ''d'' ''k'' [7] 0 kv_new))) \<le> 1024"
proof -
  have i: "iter_ok id" by (simp add: iter_ok_def)
  have h: "kv_history id [(''d'', ''k'') \<mapsto> [7]] (kv_set id 1 1 ''d'' ''k'' [7] 0 kv_new)"
    using kv_history.set [OF kv_history.created] by simp
  have "hm_get (kv_dbs (kv_set id 1 1 ''d'' ''k'' [7] 0 kv_new)) ''d'' \<noteq> None"
    by (simp add: kv_set_def put_db_def Let_def)
  then obtain d where d: "hm_get (kv_dbs (kv_set id 1 1 ''d'' ''k'' [7] 0 kv_new)) ''d'' = Some d" by blast
  from kv_bounded [OF i h d] d i h show ?thesis by (simp add: get_db_mut_def)
qed

text \<open>
  C17. A read never makes up data: through any history, \<open>get\<close> returns either nothing or exactly the
  value last set for that database and key and not deleted or flushed since.
\<close>

theorem kv_get_last_set:
  assumes "kv_history iter m s" "fst (kv_get n1 n2 db key s) = Some e"
  shows "m (db, key) = Some (de_val e)"
proof -
  have "kv_content s (db, key) = Some (de_val e)"
    using kvc.get_ok [of "(n1, n2)" "(db, key)" s] assms(2) by auto
  then show ?thesis using kv_history_content [OF assms(1)] by (metis domI map_le_def)
qed

theorem kv_get_last_set_witness:
  "\<exists>m s e. kv_history id m s \<and> fst (kv_get 5 5 ''d'' ''k'' s) = Some e \<and> m (''d'', ''k'') = Some (de_val e)"
proof -
  let ?s = "kv_set id 1 1 ''d'' ''k'' [7] 0 kv_new"
  have h: "kv_history id [(''d'', ''k'') \<mapsto> [7]] ?s" using kv_history.set [OF kv_history.created] by simp
  obtain e where e: "fst (kv_get 5 5 ''d'' ''k'' ?s) = Some e"
    by (simp add: kv_get_result kv_entry_set)
  from kv_get_last_set [OF h e] h e show ?thesis by blast
qed

text \<open>
  The eviction removes the least used of the sample: with \<open>n\<close> entries it removes
  \<open>max (sample/4) 1\<close> keys, each used no more (then no more recently) than every sampled key that
  stays, and no entry outside the sample is touched.
\<close>

theorem eviction_least_used:
  assumes "iter_ok iter" "hm_ok (kd_entries d)" "kd_entries d \<noteq> []"
  shows "let n = sample_size (length (kd_entries d)); d' = expire_least_used iter d in
    length (kd_entries d') = length (kd_entries d) - max (n div 4) 1 \<and>
    (\<forall>x \<in> set (kd_entries d) - set (kd_entries d').
       x \<in> set (take n (iter (kd_entries d))) \<and>
       (\<forall>y \<in> set (take n (iter (kd_entries d))) \<inter> set (kd_entries d'). usage_rank x \<le> usage_rank y))"
proof -
  let ?n = "sample_size (length (kd_entries d))"
  let ?c = "take ?n (iter (kd_entries d))"
  have n: "0 < ?n" using assms(3) by (cases "kd_entries d") (simp_all add: sample_size_def)
  have "length (kd_entries (expire_least_used iter d)) = length (kd_entries d) - max (?n div 4) 1"
    using expire_length [OF assms(1,2)] n by (simp add: min.absorb1)
  moreover have "x \<in> set ?c" "usage_rank x \<le> usage_rank y"
    if x: "x \<in> set (kd_entries d) - set (kd_entries (expire_least_used iter d))"
      and y: "y \<in> set ?c \<inter> set (kd_entries (expire_least_used iter d))" for x y
    using that evicted_sampled [OF assms] evicted_rank [OF assms] by blast+
  ultimately show ?thesis
    using evicted_sampled [OF assms] by (simp add: Let_def)
qed

theorem eviction_least_used_witness:
  "\<exists>d. hm_ok (kd_entries d) \<and> length (kd_entries d) = 1 \<and> length (kd_entries (expire_least_used id d)) = 0"
proof -
  let ?d = "db_set ''k'' \<lparr>de_val = [1], de_ttl = 0, de_used_count = 0, de_last_used = 3\<rparr> (db_new ''d'')"
  have d: "iter_ok id" "hm_ok (kd_entries ?d)" "kd_entries ?d \<noteq> []" "length (kd_entries ?d) = 1"
    by (simp_all add: iter_ok_def db_set_def db_new_def hm_ok_def)
  note e = eviction_least_used [OF d(1-3), unfolded Let_def, THEN conjunct1]
  show ?thesis
    by (rule exI [of _ ?d]) (simp only: d e, simp add: sample_size_def)
qed

end
