(* ===== verification/Seg_List.thy ===== *)
theory Seg_List
  imports Collections
begin

text \<open>
  The segmented list (\<open>server/src/db/seg_list.rs\<close>): one 64 KB segment per item; a key owns the
  pointers of its items in order, unused segments wait in \<open>free_segs\<close>.

  Pointers move between keys and the free list, so the memory is explicit: \<open>sg_mem\<close> maps every
  allocated pointer to the bytes behind it and \<open>sg_brk\<close> is the next fresh address. Whether the
  allocator can serve the \<open>n\<close>-th growth of a call is the parameter \<open>grow_ok\<close>. The theory ends with
  the contract \<open>keyed_queue\<close> (a first-in first-out queue per key) and its interpretation.
\<close>

section \<open>Data\<close>

definition LIST_SEGMENT_SIZE :: nat where
  "LIST_SEGMENT_SIZE = 64 * 1024"

definition INITIAL_SPACE :: nat where
  "INITIAL_SPACE = 1024 * 1024 * 1024"

definition LIST_HEADER_SIZE :: nat where
  "LIST_HEADER_SIZE = 8 + 8 + 4"

datatype list_error =
    EntryTooLarge
  | AllocFailed
  | KeyNotFound
  | OutOfRange

type_synonym ptr = nat

record seg_list =
  sg_written :: "(string, ptr list) hash_map"
  sg_free :: "ptr list"
  sg_mem :: "ptr \<Rightarrow> bytes option"
  sg_brk :: ptr

section \<open>Operations\<close>

definition zero_block :: bytes where
  "zero_block = replicate LIST_SEGMENT_SIZE 0"

text \<open>\<open>count\<close> calls of \<open>alloc_zeroed\<close>: fresh pointers to zeroed segments.\<close>

definition alloc_segs :: "nat \<Rightarrow> seg_list \<Rightarrow> ptr list \<times> seg_list" where
  "alloc_segs n s =
     ([sg_brk s..<sg_brk s + n],
      s\<lparr>sg_mem := (\<lambda>p. if sg_brk s \<le> p \<and> p < sg_brk s + n then Some zero_block else sg_mem s p),
        sg_brk := sg_brk s + n\<rparr>)"

definition GROW_COUNT :: nat where
  "GROW_COUNT = INITIAL_SPACE div LIST_SEGMENT_SIZE"

text \<open>A null pointer from the allocator panics, in \<open>new\<close> and in \<open>grow_segs\<close>.\<close>

definition grow_segs :: "bool \<Rightarrow> seg_list \<Rightarrow> (list_error, unit) result \<times> seg_list" where
  "grow_segs ok s =
     (if \<not> ok then (Fault AllocPanic, s)
      else let (ps, s') = alloc_segs GROW_COUNT s in (Ok (), s'\<lparr>sg_free := sg_free s' @ ps\<rparr>))"

definition seglist_new :: "bool \<Rightarrow> (list_error, seg_list) result" where
  "seglist_new ok =
     (if \<not> ok then Fault AllocPanic
      else let (ps, s) = alloc_segs GROW_COUNT
             \<lparr>sg_written = [], sg_free = [], sg_mem = (\<lambda>_. None), sg_brk = 0\<rparr>
           in Ok (s\<lparr>sg_free := ps\<rparr>))"

text \<open>The length at offset 16 and the payload behind the header.\<close>

definition write_payload :: "bytes \<Rightarrow> bytes \<Rightarrow> bytes option" where
  "write_payload payload seg = do {
     seg1 \<leftarrow> mem_write 16 (u32_le (word_of_nat (length payload))) seg;
     if payload \<noteq> [] then mem_write LIST_HEADER_SIZE payload seg1 else Some seg1
   }"

definition read_payload :: "bytes \<Rightarrow> bytes option" where
  "read_payload seg = do {
     len_bytes \<leftarrow> mem_read 16 4 seg;
     mem_read LIST_HEADER_SIZE (unat (u32_from_le len_bytes)) seg
   }"

definition list_push :: "bool \<Rightarrow> string \<Rightarrow> bytes \<Rightarrow> seg_list \<Rightarrow> (list_error, unit) result \<times> seg_list" where
  "list_push grow_ok key payload s =
     (case (if sg_free s = [] then grow_segs grow_ok s else (Ok (), s)) of
        (Err e, s1) \<Rightarrow> (Err AllocFailed, s1)
      | (Fault f, s1) \<Rightarrow> (Fault f, s1)
      | (Ok _, s1) \<Rightarrow>
          if LIST_HEADER_SIZE + length payload > LIST_SEGMENT_SIZE then (Err EntryTooLarge, s1)
          else case sg_free s1 of
            [] \<Rightarrow> (Fault IndexPanic, s1)
          | first_free # rest \<Rightarrow>
              (case sg_mem s1 first_free \<bind> write_payload payload of
                 None \<Rightarrow> (Fault OutOfBounds, s1)
               | Some seg \<Rightarrow>
                   (Ok (), s1\<lparr>sg_free := rest,
                      sg_mem := (sg_mem s1)(first_free \<mapsto> seg),
                      sg_written := hm_insert key
                        ((case hm_get (sg_written s1) key of None \<Rightarrow> [] | Some ps \<Rightarrow> ps) @ [first_free])
                        (sg_written s1)\<rparr>)))"

text \<open>
  The unsafe block shared by \<open>pop\<close> and \<open>pop_range\<close>: copy the payload out, clear the segment, give
  the pointer back.
\<close>

definition take_segment :: "ptr \<Rightarrow> seg_list \<Rightarrow> (list_error, bytes) result \<times> seg_list" where
  "take_segment p s =
     (case sg_mem s p of
        None \<Rightarrow> (Fault OutOfBounds, s)
      | Some seg \<Rightarrow>
          (case (read_payload seg, mem_write 0 zero_block seg) of
             (Some data, Some seg') \<Rightarrow>
               (Ok data, s\<lparr>sg_mem := (sg_mem s)(p \<mapsto> seg'), sg_free := sg_free s @ [p]\<rparr>)
           | _ \<Rightarrow> (Fault OutOfBounds, s)))"

definition list_pop :: "string \<Rightarrow> seg_list \<Rightarrow> (list_error, bytes) result \<times> seg_list" where
  "list_pop key s =
     (case hm_get (sg_written s) key of
        None \<Rightarrow> (Err KeyNotFound, s)
      | Some [] \<Rightarrow> (Err KeyNotFound, s)
      | Some (seg_ptr # ps) \<Rightarrow>
          take_segment seg_ptr (s\<lparr>sg_written := hm_insert key ps (sg_written s)\<rparr>))"

fun push_all :: "(nat \<Rightarrow> bool) \<Rightarrow> string \<Rightarrow> bytes list \<Rightarrow> seg_list \<Rightarrow> (list_error, unit) result \<times> seg_list" where
  "push_all grow_ok key [] s = (Ok (), s)"
| "push_all grow_ok key (item # items) s =
     (case list_push (grow_ok 0) key item s of
        (Ok _, s') \<Rightarrow> push_all (\<lambda>i. grow_ok (Suc i)) key items s'
      | r \<Rightarrow> r)"

definition list_push_range ::
    "(nat \<Rightarrow> bool) \<Rightarrow> string \<Rightarrow> bytes list \<Rightarrow> seg_list \<Rightarrow> (list_error, unit) result \<times> seg_list" where
  "list_push_range grow_ok key items s =
     (case (if length (sg_free s) < length items then grow_segs (grow_ok 0) s else (Ok (), s)) of
        (Err e, s1) \<Rightarrow> (Err AllocFailed, s1)
      | (Fault f, s1) \<Rightarrow> (Fault f, s1)
      | (Ok _, s1) \<Rightarrow> push_all (\<lambda>i. grow_ok (Suc i)) key items s1)"

text \<open>\<open>n\<close> pops; the first error ends the loop and the items popped so far are dropped.\<close>

primrec pop_times :: "nat \<Rightarrow> string \<Rightarrow> seg_list \<Rightarrow> (list_error, bytes list) result \<times> seg_list" where
  "pop_times 0 key s = (Ok [], s)"
| "pop_times (Suc n) key s =
     (case list_pop key s of
        (Ok x, s1) \<Rightarrow>
          (case pop_times n key s1 of
             (Ok xs, s2) \<Rightarrow> (Ok (x # xs), s2)
           | r \<Rightarrow> r)
      | (Err e, s1) \<Rightarrow> (Err e, s1)
      | (Fault f, s1) \<Rightarrow> (Fault f, s1))"

text \<open>
  The result vector is reserved first (an item takes 24 bytes in it); \<open>for _ in 0..=count\<close> then runs
  \<open>count + 1\<close> times.
\<close>

definition list_pop_count :: "string \<Rightarrow> nat \<Rightarrow> seg_list \<Rightarrow> (list_error, bytes list) result \<times> seg_list" where
  "list_pop_count key n s =
     (if \<not> with_capacity_ok 24 n then (Fault CapacityPanic, s) else pop_times (n + 1) key s)"

fun take_segments :: "ptr list \<Rightarrow> seg_list \<Rightarrow> (list_error, bytes list) result \<times> seg_list" where
  "take_segments [] s = (Ok [], s)"
| "take_segments (p # ps) s =
     (case take_segment p s of
        (Ok x, s1) \<Rightarrow>
          (case take_segments ps s1 of
             (Ok xs, s2) \<Rightarrow> (Ok (x # xs), s2)
           | r \<Rightarrow> r)
      | (Err e, s1) \<Rightarrow> (Err e, s1)
      | (Fault f, s1) \<Rightarrow> (Fault f, s1))"

text \<open>\<open>drain(start..end)\<close> panics when \<open>start\<close> is greater than \<open>end\<close>.\<close>

definition list_pop_range ::
    "string \<Rightarrow> nat \<Rightarrow> nat \<Rightarrow> seg_list \<Rightarrow> (list_error, bytes list) result \<times> seg_list" where
  "list_pop_range key start end s =
     (case hm_get (sg_written s) key of
        None \<Rightarrow> (Err KeyNotFound, s)
      | Some segs \<Rightarrow>
          if end > length segs then (Err OutOfRange, s)
          else if start > end then (Fault RangePanic, s)
          else take_segments (drop start (take end segs))
                 (s\<lparr>sg_written := hm_insert key (take start segs @ drop end segs) (sg_written s)\<rparr>))"

text \<open>\<open>len\<close> inserts an empty list for an unknown key.\<close>

definition list_len :: "string \<Rightarrow> seg_list \<Rightarrow> (list_error, nat) result \<times> seg_list" where
  "list_len key s =
     (case hm_get (sg_written s) key of
        None \<Rightarrow> (Ok 0, s\<lparr>sg_written := hm_insert key [] (sg_written s)\<rparr>)
      | Some segs \<Rightarrow> (Ok (length segs), s))"

fun clear_segments :: "ptr list \<Rightarrow> seg_list \<Rightarrow> (list_error, unit) result \<times> seg_list" where
  "clear_segments [] s = (Ok (), s)"
| "clear_segments (p # ps) s =
     (case sg_mem s p \<bind> mem_write 0 zero_block of
        None \<Rightarrow> (Fault OutOfBounds, s)
      | Some seg \<Rightarrow>
          clear_segments ps (s\<lparr>sg_mem := (sg_mem s)(p \<mapsto> seg), sg_free := sg_free s @ [p]\<rparr>))"

definition list_flush :: "string \<Rightarrow> seg_list \<Rightarrow> (list_error, unit) result \<times> seg_list" where
  "list_flush key s =
     (case hm_get (sg_written s) key of
        None \<Rightarrow> (Err KeyNotFound, s)
      | Some segs \<Rightarrow>
          clear_segments segs (s\<lparr>sg_written := hm_insert key [] (sg_written s)\<rparr>))"

section \<open>Ownership invariant and abstraction\<close>

definition written_ptrs :: "seg_list \<Rightarrow> ptr list" where
  "written_ptrs s = concat (map snd (sg_written s))"

definition seg_data :: "seg_list \<Rightarrow> ptr \<Rightarrow> bytes" where
  "seg_data s p = the (sg_mem s p \<bind> read_payload)"

text \<open>
  Every allocated segment has exactly one owner: a key, the free list, or, in the middle of an
  operation, the pointers \<open>L\<close> taken out and not yet given back. Free segments are zeroed, all
  others hold a readable item.
\<close>

definition owned_with :: "ptr list \<Rightarrow> seg_list \<Rightarrow> bool" where
  "owned_with L s \<longleftrightarrow>
     hm_ok (sg_written s) \<and>
     mset (written_ptrs s) + mset (sg_free s) + mset L = mset [0..<sg_brk s] \<and>
     (\<forall>p < sg_brk s. \<exists>seg. sg_mem s p = Some seg \<and> length seg = LIST_SEGMENT_SIZE) \<and>
     (\<forall>p \<in> set (sg_free s). sg_mem s p = Some zero_block) \<and>
     (\<forall>p \<in> set (written_ptrs s) \<union> set L. sg_mem s p \<bind> read_payload \<noteq> None)"

definition list_inv :: "seg_list \<Rightarrow> bool" where
  "list_inv s \<longleftrightarrow> owned_with [] s"

text \<open>The queue of a key.\<close>

definition list_content :: "seg_list \<Rightarrow> string \<Rightarrow> bytes list option" where
  "list_content s key = map_option (map (seg_data s)) (hm_get (sg_written s) key)"

section \<open>Segments\<close>

lemma length_zero_block [simp]: "length zero_block = LIST_SEGMENT_SIZE"
  by (simp add: zero_block_def)

lemma GROW_COUNT_pos: "0 < GROW_COUNT"
  by (simp add: GROW_COUNT_def INITIAL_SPACE_def LIST_SEGMENT_SIZE_def)

lemma zero_fill [simp]: "length seg = LIST_SEGMENT_SIZE \<Longrightarrow> mem_write 0 zero_block seg = Some zero_block"
  by (simp add: mem_write_def)

text \<open>What is pushed into a segment is what is read from it.\<close>

lemma write_read_payload:
  assumes "length seg = LIST_SEGMENT_SIZE" "LIST_HEADER_SIZE + length p \<le> LIST_SEGMENT_SIZE"
  shows "\<exists>seg'. write_payload p seg = Some seg' \<and> length seg' = LIST_SEGMENT_SIZE \<and>
    read_payload seg' = Some p"
proof -
  let ?l = "u32_le (word_of_nat (length p))"
  have "write_payload p seg = mem_write 16 ?l seg \<bind> mem_write (16 + length ?l) p"
    using assms by (auto simp: write_payload_def LIST_HEADER_SIZE_def mem_write_def LIST_SEGMENT_SIZE_def)
  then have w: "write_payload p seg = mem_write 16 (?l @ p) seg"
    by (simp only: mem_write_consecutive)
  obtain seg' where seg': "mem_write 16 (?l @ p) seg = Some seg'"
    using assms mem_write_in_bounds [of 16 "?l @ p" seg] by (auto simp: LIST_HEADER_SIZE_def)
  have r: "mem_read 16 (4 + length p) seg' = Some (?l @ p)"
    using mem_write_read_same [OF seg'] by simp
  from mem_read_split [OF r] have "mem_read 16 4 seg' = Some ?l" "mem_read 20 (length p) seg' = Some p"
    by simp_all
  moreover have "length p < 2 ^ 32"
    using assms(2) by (simp add: LIST_HEADER_SIZE_def LIST_SEGMENT_SIZE_def)
  ultimately have "read_payload seg' = Some p"
    by (simp add: read_payload_def LIST_HEADER_SIZE_def)
  then show ?thesis
    using w seg' mem_write_length [OF seg'] assms(1) by simp
qed

section \<open>Ownership\<close>

lemma seg_data_written [simp]: "seg_data (s\<lparr>sg_written := w\<rparr>) = seg_data s"
  by (simp add: seg_data_def fun_eq_iff)

lemma written_update_None:
  "hm_get m k = None \<Longrightarrow>
   mset (concat (map snd (hm_insert k ws m))) = mset (concat (map snd m)) + mset ws"
  by (induction m) (auto split: if_splits)

lemma written_update_Some:
  "hm_get m k = Some vs \<Longrightarrow>
   mset (concat (map snd (hm_insert k ws m))) + mset vs = mset (concat (map snd m)) + mset ws"
  by (induction m) (auto split: if_splits)

lemma owned_distinct:
  assumes "owned_with L s"
  shows "distinct (written_ptrs s @ sg_free s @ L)"
    and "set (written_ptrs s @ sg_free s @ L) = {..<sg_brk s}"
proof -
  have m: "mset (written_ptrs s @ sg_free s @ L) = mset [0..<sg_brk s]"
    using assms by (simp add: owned_with_def add.assoc)
  show "distinct (written_ptrs s @ sg_free s @ L)"
    using mset_eq_imp_distinct_iff [OF m] by simp
  show "set (written_ptrs s @ sg_free s @ L) = {..<sg_brk s}"
    using mset_eq_setD [OF m] by (auto simp: atLeast0LessThan)
qed

lemma written_ptrsI: "hm_get (sg_written s) k = Some ps \<Longrightarrow> p \<in> set ps \<Longrightarrow> p \<in> set (written_ptrs s)"
  by (force simp: written_ptrs_def dest: map_of_SomeD)

text \<open>Items are read through owned pointers only, so a write elsewhere does not change them.\<close>

lemma list_content_cong:
  assumes "sg_written s' = sg_written s" and "\<And>p. p \<in> set (written_ptrs s) \<Longrightarrow> seg_data s' p = seg_data s p"
  shows "list_content s' = list_content s"
proof
  fix k
  show "list_content s' k = list_content s k"
  proof (cases "hm_get (sg_written s) k")
    case (Some ps)
    with assms written_ptrsI [OF Some] show ?thesis by (simp add: list_content_def)
  qed (simp add: list_content_def assms(1))
qed

lemma take_segment_ok:
  assumes "owned_with (p # L) s"
  obtains s' where "take_segment p s = (Ok (seg_data s p), s')" "owned_with L s'"
    "sg_written s' = sg_written s"
    "\<And>q. q \<in> set (written_ptrs s) \<union> set L \<Longrightarrow> seg_data s' q = seg_data s q"
proof -
  let ?s' = "s\<lparr>sg_mem := (sg_mem s)(p \<mapsto> zero_block), sg_free := sg_free s @ [p]\<rparr>"
  have p: "p \<notin> set (written_ptrs s)" "p \<notin> set L" "p < sg_brk s"
    using owned_distinct [OF assms] by auto
  obtain seg d where seg: "sg_mem s p = Some seg" "length seg = LIST_SEGMENT_SIZE" "read_payload seg = Some d"
    using assms p(3) by (fastforce simp: owned_with_def)
  have "take_segment p s = (Ok (seg_data s p), ?s')"
    using seg by (simp add: take_segment_def seg_data_def)
  moreover have "owned_with L ?s'"
    using assms p by (auto simp: owned_with_def written_ptrs_def)
  moreover have "seg_data ?s' q = seg_data s q" if "q \<in> set (written_ptrs s) \<union> set L" for q
    using that p by (auto simp: seg_data_def)
  ultimately show thesis by (intro that [of ?s']) simp_all
qed

lemma take_segments_ok:
  assumes "owned_with (ps @ L) s"
  shows "\<exists>s'. take_segments ps s = (Ok (map (seg_data s) ps), s') \<and> owned_with L s' \<and>
    sg_written s' = sg_written s \<and>
    (\<forall>q \<in> set (written_ptrs s) \<union> set L. seg_data s' q = seg_data s q)"
  using assms
proof (induction ps arbitrary: s)
  case (Cons p ps)
  from Cons.prems have "owned_with (p # (ps @ L)) s" by simp
  then obtain s1 where s1: "take_segment p s = (Ok (seg_data s p), s1)" "owned_with (ps @ L) s1"
    "sg_written s1 = sg_written s"
    "\<And>q. q \<in> set (written_ptrs s) \<union> set (ps @ L) \<Longrightarrow> seg_data s1 q = seg_data s q"
    by (rule take_segment_ok) blast
  moreover obtain s2 where "take_segments ps s1 = (Ok (map (seg_data s1) ps), s2)" "owned_with L s2"
    "sg_written s2 = sg_written s1" "\<forall>q \<in> set (written_ptrs s1) \<union> set L. seg_data s2 q = seg_data s1 q"
    using Cons.IH [OF s1(2)] by blast
  ultimately show ?case
    by (auto simp: written_ptrs_def)
qed simp

lemma clear_segments_ok:
  assumes "owned_with (ps @ L) s"
  shows "\<exists>s'. clear_segments ps s = (Ok (), s') \<and> owned_with L s' \<and> sg_written s' = sg_written s \<and>
    (\<forall>q \<in> set (written_ptrs s) \<union> set L. seg_data s' q = seg_data s q)"
  using assms
proof (induction ps arbitrary: s)
  case (Cons p ps)
  let ?s1 = "s\<lparr>sg_mem := (sg_mem s)(p \<mapsto> zero_block), sg_free := sg_free s @ [p]\<rparr>"
  have p: "p \<notin> set (written_ptrs s)" "p \<notin> set (ps @ L)" "p < sg_brk s"
    using owned_distinct [OF Cons.prems] by auto
  obtain seg where seg: "sg_mem s p = Some seg" "length seg = LIST_SEGMENT_SIZE"
    using Cons.prems p(3) by (fastforce simp: owned_with_def)
  have "owned_with (ps @ L) ?s1"
    using Cons.prems p by (auto simp: owned_with_def written_ptrs_def)
  from Cons.IH [OF this] obtain s' where s': "clear_segments ps ?s1 = (Ok (), s')" "owned_with L s'"
    "sg_written s' = sg_written s"
    "\<forall>q \<in> set (written_ptrs s) \<union> set L. seg_data s' q = seg_data ?s1 q"
    by (auto simp: written_ptrs_def)
  have "seg_data ?s1 q = seg_data s q" if "q \<in> set (written_ptrs s) \<union> set L" for q
    using that p by (auto simp: seg_data_def)
  with s' seg show ?case by auto
qed simp

text \<open>Taking pointers out of the list of a key.\<close>

lemma owned_withdraw:
  assumes inv: "list_inv s" and get: "hm_get (sg_written s) key = Some (a @ t @ b)"
  shows "owned_with t (s\<lparr>sg_written := hm_insert key (a @ b) (sg_written s)\<rparr>)" (is "owned_with t ?s'")
proof -
  have w: "mset (written_ptrs ?s') + mset t = mset (written_ptrs s)"
    using written_update_Some [OF get, of "a @ b"] by (simp add: written_ptrs_def)
  have "mset (written_ptrs ?s') + mset (sg_free s) + mset t = mset (written_ptrs s) + mset (sg_free s)"
    by (simp add: w [symmetric] ac_simps)
  also have "\<dots> = mset [0..<sg_brk s]"
    using inv by (simp add: list_inv_def owned_with_def)
  finally have "mset (written_ptrs ?s') + mset (sg_free s) + mset t = mset [0..<sg_brk s]" .
  moreover have "set (written_ptrs ?s') \<union> set t = set (written_ptrs s)"
    using arg_cong [OF w, of set_mset] by simp
  ultimately show ?thesis
    using inv by (simp add: list_inv_def owned_with_def)
qed

lemma list_content_update:
  "list_content (s\<lparr>sg_written := hm_insert key ps (sg_written s)\<rparr>)
     = (list_content s)(key \<mapsto> map (seg_data s) ps)"
  by (auto simp: list_content_def fun_eq_iff)

section \<open>Correctness of the operations\<close>

definition queue_of :: "(string \<Rightarrow> bytes list option) \<Rightarrow> string \<Rightarrow> bytes list" where
  "queue_of c key = (case c key of None \<Rightarrow> [] | Some q \<Rightarrow> q)"

lemma grow_segs_ok:
  assumes "list_inv s"
  obtains s' where "grow_segs True s = (Ok (), s')" "list_inv s'" "list_content s' = list_content s"
    "length (sg_free s') = length (sg_free s) + GROW_COUNT" "sg_written s' = sg_written s"
proof -
  let ?new = "[sg_brk s..<sg_brk s + GROW_COUNT]"
  define s' where "s' = snd (grow_segs True s)"
  have s': "s' = s\<lparr>sg_mem := (\<lambda>p. if sg_brk s \<le> p \<and> p < sg_brk s + GROW_COUNT then Some zero_block else sg_mem s p),
      sg_brk := sg_brk s + GROW_COUNT, sg_free := sg_free s @ ?new\<rparr>"
    by (simp add: s'_def grow_segs_def alloc_segs_def)
  have below: "p < sg_brk s" if "p \<in> set (written_ptrs s) \<or> p \<in> set (sg_free s)" for p
    using owned_distinct(2) assms that by (fastforce simp: list_inv_def)
  have wr: "written_ptrs s' = written_ptrs s"
    by (simp add: s' written_ptrs_def)
  have "mset (written_ptrs s) + mset (sg_free s) = mset [0..<sg_brk s]"
    using assms by (simp add: list_inv_def owned_with_def)
  then have "mset (written_ptrs s) + mset (sg_free s) + mset ?new = mset ([0..<sg_brk s] @ ?new)"
    by (simp only: mset_append)
  also have "[0..<sg_brk s] @ ?new = [0..<sg_brk s + GROW_COUNT]"
    by (rule upt_add_eq_append [symmetric]) simp
  finally have m: "mset (written_ptrs s') + mset (sg_free s') + mset [] = mset [0..<sg_brk s']"
    unfolding wr by (simp only: s' seg_list.simps mset_append add.assoc) simp
  have old: "hm_ok (sg_written s)"
    "\<And>p. p < sg_brk s \<Longrightarrow> \<exists>seg. sg_mem s p = Some seg \<and> length seg = LIST_SEGMENT_SIZE"
    "\<And>p. p \<in> set (sg_free s) \<Longrightarrow> sg_mem s p = Some zero_block"
    "\<And>p. p \<in> set (written_ptrs s) \<Longrightarrow> sg_mem s p \<bind> read_payload \<noteq> None"
    using assms by (simp_all add: list_inv_def owned_with_def)
  have "\<exists>seg. sg_mem s' p = Some seg \<and> length seg = LIST_SEGMENT_SIZE" if "p < sg_brk s'" for p
    using that old(2) [of p] by (cases "p < sg_brk s") (simp_all add: s')
  moreover have "sg_mem s' p = Some zero_block" if "p \<in> set (sg_free s')" for p
    using that old(3) [of p] by (auto simp: s')
  moreover have "sg_mem s' p \<bind> read_payload \<noteq> None" if "p \<in> set (written_ptrs s')" for p
    using that old(4) [of p] below [of p] unfolding wr by (simp add: s')
  ultimately have "list_inv s'"
    unfolding list_inv_def owned_with_def using m old(1) by (auto simp: s')
  moreover have "list_content s' = list_content s"
  proof (rule list_content_cong)
    show "seg_data s' p = seg_data s p" if "p \<in> set (written_ptrs s)" for p
      using below [of p] that by (simp add: s' seg_data_def)
  qed (simp add: s')
  ultimately show thesis
    by (intro that [of s']) (simp_all add: s'_def, simp_all add: grow_segs_def alloc_segs_def)
qed

text \<open>Writing an item into the first free segment and handing it to the key.\<close>

lemma push_into_free:
  assumes inv: "list_inv s" and free: "sg_free s = p # rest"
    and fits: "LIST_HEADER_SIZE + length x \<le> LIST_SEGMENT_SIZE"
  obtains seg where "sg_mem s p \<bind> write_payload x = Some seg"
    "list_inv (s\<lparr>sg_free := rest, sg_mem := (sg_mem s)(p \<mapsto> seg),
      sg_written := hm_insert key ((case hm_get (sg_written s) key of None \<Rightarrow> [] | Some ps \<Rightarrow> ps) @ [p])
        (sg_written s)\<rparr>)"
    "list_content (s\<lparr>sg_free := rest, sg_mem := (sg_mem s)(p \<mapsto> seg),
      sg_written := hm_insert key ((case hm_get (sg_written s) key of None \<Rightarrow> [] | Some ps \<Rightarrow> ps) @ [p])
        (sg_written s)\<rparr>) = (list_content s)(key \<mapsto> queue_of (list_content s) key @ [x])"
proof -
  let ?ps = "case hm_get (sg_written s) key of None \<Rightarrow> [] | Some ps \<Rightarrow> ps"
  have dis: "p \<notin> set (written_ptrs s)" "p \<notin> set rest" "p < sg_brk s"
    using owned_distinct [of "[]" s] inv free by (auto simp: list_inv_def)
  have "sg_mem s p = Some zero_block"
    using inv free by (simp add: list_inv_def owned_with_def)
  then obtain seg where seg: "sg_mem s p \<bind> write_payload x = Some seg"
      "length seg = LIST_SEGMENT_SIZE" "read_payload seg = Some x"
    using write_read_payload [OF length_zero_block fits] by auto
  define t where "t = s\<lparr>sg_free := rest, sg_mem := (sg_mem s)(p \<mapsto> seg)\<rparr>"
  let ?s' = "t\<lparr>sg_written := hm_insert key (?ps @ [p]) (sg_written t)\<rparr>"
  have "mset (written_ptrs ?s') = mset (written_ptrs s) + mset [p]"
    using written_update_None [of "sg_written s" key "[p]"]
      written_update_Some [of "sg_written s" key ?ps "?ps @ [p]"]
    by (cases "hm_get (sg_written s) key") (simp_all add: written_ptrs_def t_def)
  then have m: "mset (written_ptrs ?s') + mset rest + mset [] = mset [0..<sg_brk s]"
    and st: "set (written_ptrs ?s') = insert p (set (written_ptrs s))"
    using inv free by (simp_all add: list_inv_def owned_with_def ac_simps
        set_mset_mset [symmetric] del: set_mset_mset)
  have "list_inv ?s'"
    unfolding list_inv_def owned_with_def
    using inv free dis m st seg by (auto simp: t_def list_inv_def owned_with_def)
  moreover have ct: "list_content t = list_content s"
    using dis by (intro list_content_cong) (auto simp: t_def seg_data_def)
  have "seg_data t q = seg_data s q" if "q \<in> set ?ps" for q
  proof -
    have "q \<in> set (written_ptrs s)"
      using that by (cases "hm_get (sg_written s) key") (auto intro: written_ptrsI)
    with dis(1) show ?thesis by (auto simp: seg_data_def t_def)
  qed
  then have "map (seg_data t) (?ps @ [p]) = queue_of (list_content s) key @ [x]"
    using seg by (auto simp: queue_of_def list_content_def seg_data_def t_def split: option.split)
  then have "list_content ?s' = (list_content s)(key \<mapsto> queue_of (list_content s) key @ [x])"
    by (simp only: list_content_update ct)
  ultimately show thesis
    using seg by (intro that [of seg]) (simp_all add: t_def)
qed

text \<open>A free segment is there, or comes with the growth.\<close>

lemma free_segment:
  assumes inv: "list_inv s" and go: "sg_free s \<noteq> [] \<or> g"
  obtains s1 p rest where "(if sg_free s = [] then grow_segs g s else (Ok (), s)) = (Ok (), s1)"
    "list_inv s1" "list_content s1 = list_content s" "sg_free s1 = p # rest"
proof (cases "sg_free s = []")
  case True
  with go have "g" by simp
  from grow_segs_ok [OF inv] obtain s1 where s1: "grow_segs True s = (Ok (), s1)" "list_inv s1"
    "list_content s1 = list_content s" "length (sg_free s1) = length (sg_free s) + GROW_COUNT"
    by blast
  then obtain p rest where "sg_free s1 = p # rest" using GROW_COUNT_pos by (cases "sg_free s1") auto
  with that True \<open>g\<close> s1 show thesis by simp
next
  case False
  then obtain p rest where "sg_free s = p # rest" by (cases "sg_free s") auto
  with that False inv show thesis by simp
qed

lemma list_push_correct:
  assumes inv: "list_inv s" and push: "list_push g key x s = (r, s')"
  shows "r = (if sg_free s = [] \<and> \<not> g then Fault AllocPanic
              else if LIST_HEADER_SIZE + length x > LIST_SEGMENT_SIZE then Err EntryTooLarge
              else Ok ())"
    and "\<not> is_fault r \<Longrightarrow> list_inv s'"
    and "r = Ok () \<Longrightarrow> list_content s' = (list_content s)(key \<mapsto> queue_of (list_content s) key @ [x])"
    and "r = Err e \<Longrightarrow> list_content s' = list_content s"
proof -
  consider (panic) "sg_free s = []" "\<not> g" | (go) "sg_free s \<noteq> [] \<or> g" by blast
  then have "r = (if sg_free s = [] \<and> \<not> g then Fault AllocPanic
              else if LIST_HEADER_SIZE + length x > LIST_SEGMENT_SIZE then Err EntryTooLarge
              else Ok ()) \<and> (\<not> is_fault r \<longrightarrow> list_inv s') \<and>
      (r = Ok () \<longrightarrow> list_content s' = (list_content s)(key \<mapsto> queue_of (list_content s) key @ [x])) \<and>
      (r = Err e \<longrightarrow> list_content s' = list_content s)"
  proof cases
    case panic
    with push show ?thesis by (auto simp: list_push_def grow_segs_def)
  next
    case go
    obtain s1 p rest where s1: "(if sg_free s = [] then grow_segs g s else (Ok (), s)) = (Ok (), s1)"
      "list_inv s1" "list_content s1 = list_content s" and free: "sg_free s1 = p # rest"
      using free_segment [OF inv go] .
    show ?thesis
    proof (cases "LIST_HEADER_SIZE + length x \<le> LIST_SEGMENT_SIZE")
      case True
      from push_into_free [OF s1(2) free this, of key] obtain seg where
        "sg_mem s1 p \<bind> write_payload x = Some seg"
        "list_inv (s1\<lparr>sg_free := rest, sg_mem := (sg_mem s1)(p \<mapsto> seg),
          sg_written := hm_insert key ((case hm_get (sg_written s1) key of None \<Rightarrow> [] | Some ps \<Rightarrow> ps) @ [p])
            (sg_written s1)\<rparr>)"
        "list_content (s1\<lparr>sg_free := rest, sg_mem := (sg_mem s1)(p \<mapsto> seg),
          sg_written := hm_insert key ((case hm_get (sg_written s1) key of None \<Rightarrow> [] | Some ps \<Rightarrow> ps) @ [p])
            (sg_written s1)\<rparr>) = (list_content s1)(key \<mapsto> queue_of (list_content s1) key @ [x])"
        by blast
      then show ?thesis
        using push go True free s1 by (auto simp: list_push_def)
    next
      case False
      then show ?thesis
        using push go s1 by (auto simp: list_push_def)
    qed
  qed
  then show "r = (if sg_free s = [] \<and> \<not> g then Fault AllocPanic
              else if LIST_HEADER_SIZE + length x > LIST_SEGMENT_SIZE then Err EntryTooLarge
              else Ok ())" "\<not> is_fault r \<Longrightarrow> list_inv s'"
    "r = Ok () \<Longrightarrow> list_content s' = (list_content s)(key \<mapsto> queue_of (list_content s) key @ [x])"
    "r = Err e \<Longrightarrow> list_content s' = list_content s"
    by blast+
qed

lemma list_pop_some:
  assumes inv: "list_inv s" and ct: "list_content s key = Some (x # q)"
  shows "\<exists>s'. list_pop key s = (Ok x, s') \<and> list_inv s' \<and> list_content s' = (list_content s)(key \<mapsto> q)"
proof -
  obtain p ps where get: "hm_get (sg_written s) key = Some (p # ps)" and x: "x = seg_data s p"
    and q: "q = map (seg_data s) ps"
    using ct by (auto simp: list_content_def)
  let ?s1 = "s\<lparr>sg_written := hm_insert key ps (sg_written s)\<rparr>"
  have "owned_with [p] ?s1"
    using owned_withdraw [OF inv, of key "[]" "[p]" ps] get by simp
  then obtain s' where s': "take_segment p ?s1 = (Ok (seg_data ?s1 p), s')" "owned_with [] s'"
    "sg_written s' = sg_written ?s1"
    "\<And>r. r \<in> set (written_ptrs ?s1) \<union> set [] \<Longrightarrow> seg_data s' r = seg_data ?s1 r"
    by (rule take_segment_ok) blast
  have "list_content s' = list_content ?s1"
    using s'(3,4) by (intro list_content_cong) auto
  then show ?thesis
    using s' get x q by (simp add: list_pop_def list_inv_def list_content_update)
qed

lemma list_pop_none:
  "list_content s key = None \<or> list_content s key = Some [] \<Longrightarrow> list_pop key s = (Err KeyNotFound, s)"
  by (auto simp: list_content_def list_pop_def)

lemma list_pop_range_correct:
  assumes inv: "list_inv s" and ct: "list_content s key = Some q" and "a \<le> b" "b \<le> length q"
  shows "\<exists>s'. list_pop_range key a b s = (Ok (drop a (take b q)), s') \<and> list_inv s' \<and>
    list_content s' = (list_content s)(key \<mapsto> take a q @ drop b q)"
proof -
  obtain ps where get: "hm_get (sg_written s) key = Some ps" and q: "q = map (seg_data s) ps"
    using ct by (auto simp: list_content_def)
  let ?t = "drop a (take b ps)"
  let ?s1 = "s\<lparr>sg_written := hm_insert key (take a ps @ drop b ps) (sg_written s)\<rparr>"
  have split: "take a ps @ ?t @ drop b ps = ps"
    using \<open>a \<le> b\<close> by (metis append_assoc append_take_drop_id min.absorb1 take_take)
  have "owned_with (?t @ []) ?s1"
    using owned_withdraw [OF inv, of key "take a ps" ?t "drop b ps"] get by (simp add: split)
  from take_segments_ok [OF this] obtain s' where s': "take_segments ?t ?s1 = (Ok (map (seg_data s) ?t), s')"
    "owned_with [] s'" "sg_written s' = sg_written ?s1"
    "\<forall>r \<in> set (written_ptrs ?s1). seg_data s' r = seg_data ?s1 r"
    by auto
  have "list_content s' = list_content ?s1"
    using s'(3,4) by (intro list_content_cong) auto
  then show ?thesis
    using s' get q assms(3,4)
    by (simp add: list_pop_range_def list_inv_def list_content_update take_map drop_map)
qed

lemma list_flush_correct:
  assumes inv: "list_inv s" and ct: "list_content s key = Some q"
  shows "\<exists>s'. list_flush key s = (Ok (), s') \<and> list_inv s' \<and> list_content s' = (list_content s)(key \<mapsto> [])"
proof -
  obtain ps where get: "hm_get (sg_written s) key = Some ps"
    using ct by (auto simp: list_content_def)
  let ?s1 = "s\<lparr>sg_written := hm_insert key [] (sg_written s)\<rparr>"
  have "owned_with (ps @ []) ?s1"
    using owned_withdraw [OF inv, of key "[]" ps "[]"] get by simp
  from clear_segments_ok [OF this] obtain s' where s': "clear_segments ps ?s1 = (Ok (), s')"
    "owned_with [] s'" "sg_written s' = sg_written ?s1"
    "\<forall>r \<in> set (written_ptrs ?s1). seg_data s' r = seg_data ?s1 r"
    by auto
  have "list_content s' = list_content ?s1"
    using s'(3,4) by (intro list_content_cong) auto
  then show ?thesis
    using s' get by (simp add: list_flush_def list_inv_def list_content_update)
qed

lemma list_len_correct:
  assumes "list_inv s"
  shows "\<exists>s'. list_len key s = (Ok (length (queue_of (list_content s) key)), s') \<and> list_inv s' \<and>
    list_content s' = (list_content s)(key \<mapsto> queue_of (list_content s) key)"
proof (cases "hm_get (sg_written s) key")
  case None
  let ?s' = "s\<lparr>sg_written := hm_insert key [] (sg_written s)\<rparr>"
  have w: "mset (written_ptrs ?s') = mset (written_ptrs s)"
    using written_update_None [OF None, of "[]"] by (simp add: written_ptrs_def)
  then have "list_inv ?s'"
    using assms mset_eq_setD [OF w] by (simp add: list_inv_def owned_with_def)
  with None show ?thesis
    by (simp add: list_len_def list_content_update queue_of_def list_content_def [of s])
next
  case (Some ps)
  with assms show ?thesis
    by (auto simp: list_len_def queue_of_def list_content_def fun_eq_iff)
qed

section \<open>The contract of the list\<close>

text \<open>
  What the database relies on: a queue per key. A push appends to the queue of its key, a pop
  returns the oldest item, a flush empties the queue; refused calls change no queue.
\<close>

locale keyed_queue =
  fixes invar :: "'s \<Rightarrow> bool"
    and content :: "'s \<Rightarrow> string \<Rightarrow> bytes list option"
    and push :: "bool \<Rightarrow> string \<Rightarrow> bytes \<Rightarrow> 's \<Rightarrow> (list_error, unit) result \<times> 's"
    and pop :: "string \<Rightarrow> 's \<Rightarrow> (list_error, bytes) result \<times> 's"
    and flush :: "string \<Rightarrow> 's \<Rightarrow> (list_error, unit) result \<times> 's"
  assumes push_ok: "invar s \<Longrightarrow> push g k x s = (Ok u, s') \<Longrightarrow>
        invar s' \<and> content s' = (content s)(k \<mapsto> queue_of (content s) k @ [x])"
    and push_err: "invar s \<Longrightarrow> push g k x s = (Err e, s') \<Longrightarrow> invar s' \<and> content s' = content s"
    and pop_some: "invar s \<Longrightarrow> content s k = Some (x # q) \<Longrightarrow>
        \<exists>s'. pop k s = (Ok x, s') \<and> invar s' \<and> content s' = (content s)(k \<mapsto> q)"
    and pop_none: "queue_of (content s) k = [] \<Longrightarrow> pop k s = (Err KeyNotFound, s)"
    and flush_some: "invar s \<Longrightarrow> content s k = Some q \<Longrightarrow>
        \<exists>s'. flush k s = (Ok (), s') \<and> invar s' \<and> content s' = (content s)(k \<mapsto> [])"
    and flush_none: "content s k = None \<Longrightarrow> flush k s = (Err KeyNotFound, s)"
begin

text \<open>The item pushed into an empty queue is the next one popped, and nothing is left.\<close>

lemma push_pop_empty:
  assumes "invar s" "queue_of (content s) k = []" "push g k x s = (Ok u, s')"
  shows "\<exists>s2. pop k s' = (Ok x, s2) \<and> invar s2 \<and> content s2 = (content s)(k \<mapsto> [])"
proof -
  have "invar s'" "content s' = (content s)(k \<mapsto> [x])"
    using push_ok [OF assms(1,3)] assms(2) by simp_all
  then show ?thesis using pop_some [of s' k x "[]"] by simp
qed

text \<open>First in, first out: a push behind a waiting item does not overtake it.\<close>

lemma push_pop_order:
  assumes "invar s" "content s k = Some (y # q)" "push g k x s = (Ok u, s')"
  shows "\<exists>s2. pop k s' = (Ok y, s2) \<and> invar s2 \<and> content s2 = (content s)(k \<mapsto> q @ [x])"
proof -
  have "invar s'" "content s' = (content s)(k \<mapsto> y # (q @ [x]))"
    using push_ok [OF assms(1,3)] assms(2) by (simp_all add: queue_of_def)
  then show ?thesis using pop_some [of s' k y "q @ [x]"] by simp
qed

text \<open>Keys are independent.\<close>

lemma push_other_key:
  "invar s \<Longrightarrow> push g k x s = (Ok u, s') \<Longrightarrow> k' \<noteq> k \<Longrightarrow> content s' k' = content s k'"
  using push_ok by fastforce

end

interpretation seglist: keyed_queue list_inv list_content list_push list_pop list_flush
proof
  fix s :: seg_list and k
  show "list_pop k s = (Err KeyNotFound, s)" if "queue_of (list_content s) k = []"
    using that by (intro list_pop_none) (auto simp: queue_of_def split: option.splits)
  show "list_flush k s = (Err KeyNotFound, s)" if "list_content s k = None"
    using that by (simp add: list_flush_def list_content_def)
qed (auto dest: list_push_correct(2-4) intro: list_pop_some list_flush_correct)

lemma pop_times_enough:
  assumes "list_inv s" "list_content s key = Some q" "n \<le> length q"
  shows "\<exists>s'. pop_times n key s = (Ok (take n q), s') \<and> list_inv s' \<and>
    list_content s' = (list_content s)(key \<mapsto> drop n q)"
  using assms
proof (induction n arbitrary: s q)
  case 0
  then show ?case by (auto simp: fun_eq_iff)
next
  case (Suc n)
  then obtain x q' where q: "q = x # q'" by (cases q) auto
  then obtain s1 where s1: "list_pop key s = (Ok x, s1)" "list_inv s1"
      "list_content s1 = (list_content s)(key \<mapsto> q')"
    using seglist.pop_some [OF Suc.prems(1)] Suc.prems(2) by blast
  have "list_content s1 key = Some q'" using s1(3) by simp
  from Suc.IH [OF s1(2) this] Suc.prems(3) q obtain s2 where
      s2: "pop_times n key s1 = (Ok (take n q'), s2)" "list_inv s2"
      "list_content s2 = (list_content s1)(key \<mapsto> drop n q')"
    by (auto simp: fun_upd_def)
  have "list_content s2 = (list_content s)(key \<mapsto> drop n q')"
    unfolding s2(3) s1(3) by (rule fun_upd_upd)
  with s1(1) s2(1,2) q show ?case by (simp add: fun_upd_def)
qed

lemma pop_times_short:
  assumes "list_inv s" "queue_of (list_content s) key = q" "length q < n"
  shows "\<exists>s'. pop_times n key s = (Err KeyNotFound, s') \<and> list_inv s' \<and>
    queue_of (list_content s') key = [] \<and> (\<forall>k. k \<noteq> key \<longrightarrow> list_content s' k = list_content s k)"
  using assms
proof (induction n arbitrary: s q)
  case (Suc n)
  show ?case
  proof (cases q)
    case Nil
    with Suc.prems show ?thesis by (simp add: seglist.pop_none)
  next
    case (Cons x q')
    then have "list_content s key = Some (x # q')"
      using Suc.prems(2) by (auto simp: queue_of_def split: option.splits)
    then obtain s1 where s1: "list_pop key s = (Ok x, s1)" "list_inv s1"
        "list_content s1 = (list_content s)(key \<mapsto> q')"
      using seglist.pop_some [OF Suc.prems(1)] by blast
    then show ?thesis
      using Suc.IH [of s1 q'] Suc.prems(3) Cons by (auto simp: queue_of_def)
  qed
qed simp

definition item_fits :: "bytes \<Rightarrow> bool" where
  "item_fits x \<longleftrightarrow> LIST_HEADER_SIZE + length x \<le> LIST_SEGMENT_SIZE"

lemma push_all_correct:
  assumes "list_inv s"
  shows "\<exists>s'. push_all (\<lambda>_. True) key items s =
      (if list_all item_fits items then Ok () else Err EntryTooLarge, s') \<and> list_inv s' \<and>
    list_content s' = (if takeWhile item_fits items = [] then list_content s
      else (list_content s)(key \<mapsto> queue_of (list_content s) key @ takeWhile item_fits items))"
  using assms
proof (induction items arbitrary: s)
  case (Cons x items)
  obtain r s1 where push: "list_push True key x s = (r, s1)" by fastforce
  note p = list_push_correct [OF Cons.prems push]
  show ?case
  proof (cases "item_fits x")
    case True
    then have "r = Ok ()" using p(1) by (simp add: item_fits_def)
    then have s1: "list_inv s1"
      "list_content s1 = (list_content s)(key \<mapsto> queue_of (list_content s) key @ [x])"
      using p(2,3) by simp_all
    have q1: "queue_of (list_content s1) key = queue_of (list_content s) key @ [x]"
      by (simp add: s1(2) queue_of_def)
    from Cons.IH [OF s1(1)] obtain s' where s': "push_all (\<lambda>_. True) key items s1 =
        (if list_all item_fits items then Ok () else Err EntryTooLarge, s')" "list_inv s'"
      "list_content s' = (if takeWhile item_fits items = [] then list_content s1
        else (list_content s1)(key \<mapsto> queue_of (list_content s1) key @ takeWhile item_fits items))"
      by blast
    have "list_content s' = (list_content s)(key \<mapsto> queue_of (list_content s) key @ x # takeWhile item_fits items)"
      unfolding s'(3) q1 unfolding s1(2) by (simp only: fun_upd_upd append.assoc) simp
    then show ?thesis
      using s'(1,2) push True \<open>r = Ok ()\<close> by (simp add: fun_upd_def)
  next
    case False
    then have "r = Err EntryTooLarge" using p(1) by (simp add: item_fits_def)
    then show ?thesis
      using p(2,4) push False by auto
  qed
qed auto

lemma push_range_grow:
  assumes "list_inv s"
  obtains s1 where "(if length (sg_free s) < length items then grow_segs True s else (Ok (), s)) = (Ok (), s1)"
    "list_inv s1" "list_content s1 = list_content s"
  using assms grow_segs_ok [OF assms] by (metis (full_types))

lemma list_push_range_correct:
  assumes "list_inv s"
  shows "\<exists>s'. list_push_range (\<lambda>_. True) key items s =
      (if list_all item_fits items then Ok () else Err EntryTooLarge, s') \<and> list_inv s' \<and>
    list_content s' = (if takeWhile item_fits items = [] then list_content s
      else (list_content s)(key \<mapsto> queue_of (list_content s) key @ takeWhile item_fits items))"
proof -
  obtain s1 where g: "(if length (sg_free s) < length items then grow_segs True s else (Ok (), s)) = (Ok (), s1)"
    and inv1: "list_inv s1" and ct: "list_content s1 = list_content s"
    using push_range_grow [OF assms] by blast
  have "list_push_range (\<lambda>_. True) key items s = push_all (\<lambda>_. True) key items s1"
    by (simp only: list_push_range_def g prod.case result.case)
  then show ?thesis
    using push_all_correct [OF inv1, of key items] by (simp only: ct)
qed

end
