(* ===== verification/Seg_List_Props.thy ===== *)
theory Seg_List_Props
  imports Seg_List
begin

text \<open>
  The properties of the segmented list over all states it can reach: ownership of the segments,
  the first-in first-out discipline, the exact outcome of the range operations, and what a
  \<open>pop_count\<close> that runs short loses.
\<close>

section \<open>Histories of a list\<close>

text \<open>An operation that panics has no state after it.\<close>

inductive list_reachable :: "seg_list \<Rightarrow> bool" where
  created: "seglist_new ok = Ok s \<Longrightarrow> list_reachable s"
| pushed: "list_reachable s \<Longrightarrow> list_push g key x s = (r, s') \<Longrightarrow> \<not> is_fault r \<Longrightarrow> list_reachable s'"
| pushed_range: "list_reachable s \<Longrightarrow> list_push_range gs key xs s = (r, s') \<Longrightarrow> \<not> is_fault r \<Longrightarrow>
    list_reachable s'"
| popped: "list_reachable s \<Longrightarrow> list_pop key s = (rb, s') \<Longrightarrow> \<not> is_fault rb \<Longrightarrow> list_reachable s'"
| popped_count: "list_reachable s \<Longrightarrow> list_pop_count key n s = (rs, s') \<Longrightarrow> \<not> is_fault rs \<Longrightarrow>
    list_reachable s'"
| popped_range: "list_reachable s \<Longrightarrow> list_pop_range key a b s = (rs, s') \<Longrightarrow> \<not> is_fault rs \<Longrightarrow>
    list_reachable s'"
| measured: "list_reachable s \<Longrightarrow> list_len key s = (rn, s') \<Longrightarrow> list_reachable s'"
| flushed: "list_reachable s \<Longrightarrow> list_flush key s = (r, s') \<Longrightarrow> \<not> is_fault r \<Longrightarrow> list_reachable s'"

lemma seglist_new_inv:
  assumes "seglist_new ok = Ok s"
  shows "list_inv s" "list_content s = (\<lambda>_. None)" "length (sg_free s) = GROW_COUNT"
  using assms
  by (auto simp: seglist_new_def alloc_segs_def list_inv_def owned_with_def written_ptrs_def
      list_content_def split: if_splits)

lemma list_pop_cases:
  assumes "list_inv s"
  obtains (some) x q s' where "list_content s key = Some (x # q)" "list_pop key s = (Ok x, s')"
      "list_inv s'" "list_content s' = (list_content s)(key \<mapsto> q)"
  | (none) "queue_of (list_content s) key = []" "list_pop key s = (Err KeyNotFound, s)"
proof (cases "queue_of (list_content s) key")
  case Nil
  with none seglist.pop_none show thesis by blast
next
  case (Cons x q)
  then have c: "list_content s key = Some (x # q)"
    by (auto simp: queue_of_def split: option.splits)
  with seglist.pop_some [OF assms c] some show thesis by blast
qed

lemma pop_times_inv: "list_inv s \<Longrightarrow> pop_times n key s = (r, s') \<Longrightarrow> list_inv s' \<and> \<not> is_fault r"
proof (induction n arbitrary: s r)
  case (Suc n)
  from Suc.prems(1) show ?case
  proof (cases rule: list_pop_cases [where key = key])
    case (some x q s1)
    with Suc show ?thesis by (force split: result.splits prod.splits)
  qed (use Suc.prems in auto)
qed auto

lemma push_all_inv:
  "list_inv s \<Longrightarrow> push_all gs key xs s = (r, s') \<Longrightarrow> \<not> is_fault r \<Longrightarrow> list_inv s'"
proof (induction gs key xs s rule: push_all.induct)
  case (2 gs key x xs s)
  obtain r1 s1 where p: "list_push (gs 0) key x s = (r1, s1)" by fastforce
  with 2 list_push_correct(2) [OF "2.prems"(1) p] show ?case by (cases r1) auto
qed simp

lemma push_range_inv:
  assumes "list_inv s" "list_push_range gs key xs s = (r, s')" "\<not> is_fault r"
  shows "list_inv s'"
proof (cases "length (sg_free s) < length xs")
  case True
  show ?thesis
  proof (cases "gs 0")
    case g: True
    obtain s1 where "grow_segs True s = (Ok (), s1)" "list_inv s1"
      using grow_segs_ok [OF assms(1)] by blast
    with True g assms(2,3) push_all_inv show ?thesis by (auto simp: list_push_range_def)
  qed (use True assms(2,3) in \<open>auto simp: list_push_range_def grow_segs_def\<close>)
qed (use assms push_all_inv in \<open>auto simp: list_push_range_def\<close>)

lemma pop_range_cases:
  assumes "list_inv s"
  obtains (ok) q s' where "list_content s key = Some q" "a \<le> b" "b \<le> length q"
      "list_pop_range key a b s = (Ok (drop a (take b q)), s')" "list_inv s'"
      "list_content s' = (list_content s)(key \<mapsto> take a q @ drop b q)"
  | (missing) "list_content s key = None" "list_pop_range key a b s = (Err KeyNotFound, s)"
  | (range) q where "list_content s key = Some q" "length q < b" "list_pop_range key a b s = (Err OutOfRange, s)"
  | (inverted) q where "list_content s key = Some q" "b \<le> length q" "b < a"
      "list_pop_range key a b s = (Fault RangePanic, s)"
proof (cases "list_content s key")
  case None
  with missing show thesis by (simp add: list_content_def list_pop_range_def)
next
  case (Some q)
  then obtain ps where ps: "hm_get (sg_written s) key = Some ps" "length ps = length q"
    by (auto simp: list_content_def)
  consider "length q < b" | "b \<le> length q" "b < a" | "b \<le> length q" "a \<le> b" by linarith
  then show thesis
  proof cases
    case 1 with Some ps range show thesis by (simp add: list_pop_range_def)
  next
    case 2 with Some ps inverted show thesis by (simp add: list_pop_range_def)
  next
    case 3 with list_pop_range_correct [OF assms Some] Some ok show thesis by blast
  qed
qed

lemma flush_inv: "list_inv s \<Longrightarrow> list_flush key s = (r, s') \<Longrightarrow> list_inv s' \<and> \<not> is_fault r"
  using seglist.flush_some [of s key] seglist.flush_none [of s key]
  by (cases "list_content s key") auto

lemma list_reachable_inv_aux: "list_reachable s \<Longrightarrow> list_inv s"
proof (induction rule: list_reachable.induct)
  case (created ok s)
  then show ?case by (rule seglist_new_inv)
next
  case (popped s key rb s')
  from popped(4) show ?case
    by (cases rule: list_pop_cases [where key = key]) (use popped in auto)
next
  case (popped_count s key n rs s')
  then show ?case
    by (auto simp: list_pop_count_def simp del: pop_times.simps dest: pop_times_inv split: if_splits)
next
  case (popped_range s key a b rs s')
  from popped_range(4) show ?case
    by (cases rule: pop_range_cases [where key = key and a = a and b = b]) (use popped_range in auto)
next
  case (measured s key rn s')
  then show ?case using list_len_correct [of s key] by auto
qed (auto dest: list_push_correct(2) push_range_inv flush_inv)

lemma fresh_list:
  obtains s where "seglist_new True = Ok s" "list_reachable s" "list_inv s" "list_content s = (\<lambda>_. None)"
    "sg_free s \<noteq> []"
proof -
  obtain s where s: "seglist_new True = Ok s"
    by (simp add: seglist_new_def alloc_segs_def)
  then have "sg_free s \<noteq> []"
    using seglist_new_inv(3) GROW_COUNT_pos by fastforce
  with that s list_reachable.created seglist_new_inv show thesis by blast
qed

lemma loaded_list:
  assumes "list_all item_fits xs" "xs \<noteq> []"
  obtains s where "list_reachable s" "list_inv s" "list_content s = [key \<mapsto> xs]"
proof -
  obtain s0 where s0: "list_reachable s0" "list_inv s0" "list_content s0 = (\<lambda>_. None)"
    by (rule fresh_list)
  have "takeWhile item_fits xs = xs"
    using assms(1) by (simp add: list_all_iff)
  with list_push_range_correct [OF s0(2), of key xs] assms s0(3) obtain s where
    s: "list_push_range (\<lambda>_. True) key xs s0 = (Ok (), s)" "list_inv s" "list_content s = [key \<mapsto> xs]"
    by (auto simp: queue_of_def fun_upd_def)
  then show thesis
    using that list_reachable.pushed_range [OF s0(1) s(1)] by simp
qed

section \<open>Properties\<close>

text \<open>
  C4. Every 64 KB segment has exactly one owner in every state the list can reach: the pointers
  held by the keys together with the free list are exactly the allocated ones, each once (no
  segment is shared, leaked or freed twice); free segments are zeroed. Pops and flushes therefore
  never touch memory outside a segment and never panic.
\<close>

theorem segments_owned_once:
  assumes "list_reachable s"
  shows "mset (written_ptrs s @ sg_free s) = mset [0..<sg_brk s] \<and>
    (\<forall>p \<in> set (sg_free s). sg_mem s p = Some zero_block) \<and>
    \<not> is_fault (fst (list_pop key s)) \<and> \<not> is_fault (fst (list_flush key s))"
proof -
  have inv: "list_inv s" using assms by (rule list_reachable_inv_aux)
  then have "\<not> is_fault (fst (list_pop key s))"
    by (cases rule: list_pop_cases [where key = key]) auto
  moreover have "\<not> is_fault (fst (list_flush key s))"
    using flush_inv [OF inv, of key] by (metis prod.collapse)
  ultimately show ?thesis
    using inv by (auto simp: list_inv_def owned_with_def)
qed

theorem segments_owned_once_witness:
  "\<exists>s. list_reachable s \<and> list_content s ''k'' = Some [[1], [2]] \<and>
     mset (written_ptrs s @ sg_free s) = mset [0..<sg_brk s]"
proof -
  obtain s where "list_reachable s" "list_content s = [''k'' \<mapsto> [[1], [2]]]"
    by (rule loaded_list [of "[[1], [2]]" "''k''"])
      (auto simp: item_fits_def LIST_HEADER_SIZE_def LIST_SEGMENT_SIZE_def)
  with segments_owned_once [of s "''k''"] show ?thesis by (intro exI [of _ s]) simp
qed

text \<open>
  Push refines the queue of its key: it is refused exactly when the item and its header exceed
  a segment (the queues unchanged, though a growth may have happened), otherwise the item is
  appended to the queue of its key and every other key keeps its queue; it can only panic when no
  segment is free and the allocator has no memory.
\<close>

theorem list_push_refines:
  assumes "list_reachable s" "sg_free s \<noteq> [] \<or> g"
  shows "\<exists>s'. list_push g key x s = (if item_fits x then Ok () else Err EntryTooLarge, s') \<and>
    list_content s' = (if item_fits x
      then (list_content s)(key \<mapsto> queue_of (list_content s) key @ [x]) else list_content s)"
proof -
  obtain r s' where push: "list_push g key x s = (r, s')" by fastforce
  note c = list_push_correct [OF list_reachable_inv_aux [OF assms(1)] push]
  show ?thesis
  proof (cases "item_fits x")
    case True
    then have "r = Ok ()" using c(1) assms(2) by (auto simp: item_fits_def)
    with push c(3) True show ?thesis by (simp add: fun_upd_def)
  next
    case False
    then have "r = Err EntryTooLarge" using c(1) assms(2) by (auto simp: item_fits_def)
    with push c(4) False show ?thesis by simp
  qed
qed

theorem list_push_refines_witness:
  "\<exists>s s'. list_reachable s \<and> list_push False ''k'' [7] s = (Ok (), s') \<and>
     list_content s' ''k'' = Some [[7]]"
proof -
  obtain s where s: "list_reachable s" "list_content s = (\<lambda>_. None)" "sg_free s \<noteq> []"
    by (rule fresh_list)
  with list_push_refines [of s False "''k''" "[7]"] show ?thesis
    by (auto simp: queue_of_def item_fits_def LIST_HEADER_SIZE_def LIST_SEGMENT_SIZE_def)
qed

text \<open>
  C5. Pop is first in, first out: it returns the oldest item of the key byte for byte and leaves
  the rest in order, other keys untouched; on an empty or unknown key it reports \<open>KeyNotFound\<close> and
  changes nothing.
\<close>

theorem list_pop_fifo:
  assumes "list_reachable s"
  shows "case queue_of (list_content s) key of
      [] \<Rightarrow> list_pop key s = (Err KeyNotFound, s)
    | x # q \<Rightarrow> \<exists>s'. list_pop key s = (Ok x, s') \<and> list_content s' = (list_content s)(key \<mapsto> q)"
  using list_reachable_inv_aux [OF assms]
  by (cases rule: list_pop_cases [where key = key]) (simp_all add: queue_of_def fun_upd_def)

theorem list_pop_fifo_witness:
  "\<exists>s s'. list_reachable s \<and> list_pop ''k'' s = (Ok [1], s') \<and> list_content s' ''k'' = Some [[2]]"
proof -
  obtain s where "list_reachable s" "list_content s = [''k'' \<mapsto> [[1], [2]]]"
    by (rule loaded_list [of "[[1], [2]]" "''k''"])
      (auto simp: item_fits_def LIST_HEADER_SIZE_def LIST_SEGMENT_SIZE_def)
  with list_pop_fifo [of s "''k''"] show ?thesis by (auto simp: queue_of_def)
qed

text \<open>
  \<open>pop_range\<close> on every branch: the items \<open>start..end\<close> are returned in order and removed, an
  end beyond the queue is \<open>OutOfRange\<close>, an unknown key \<open>KeyNotFound\<close>, and an inverted range inside
  the queue panics in \<open>drain\<close>.
\<close>

theorem list_pop_range_exact:
  assumes "list_reachable s"
  shows "case list_content s key of
      None \<Rightarrow> list_pop_range key a b s = (Err KeyNotFound, s)
    | Some q \<Rightarrow>
        if length q < b then list_pop_range key a b s = (Err OutOfRange, s)
        else if b < a then list_pop_range key a b s = (Fault RangePanic, s)
        else \<exists>s'. list_pop_range key a b s = (Ok (drop a (take b q)), s') \<and>
          list_content s' = (list_content s)(key \<mapsto> take a q @ drop b q)"
  using list_reachable_inv_aux [OF assms]
  by (cases rule: pop_range_cases [where key = key and a = a and b = b]) (auto simp: fun_upd_def)

theorem list_pop_range_exact_witness:
  "\<exists>s s'. list_reachable s \<and> list_pop_range ''k'' 1 2 s = (Ok [[2]], s') \<and>
     list_content s' ''k'' = Some [[1], [3]] \<and> list_pop_range ''k'' 2 1 s = (Fault RangePanic, s)"
proof -
  obtain s where "list_reachable s" "list_content s = [''k'' \<mapsto> [[1], [2], [3]]]"
    by (rule loaded_list [of "[[1], [2], [3]]" "''k''"])
      (auto simp: item_fits_def LIST_HEADER_SIZE_def LIST_SEGMENT_SIZE_def)
  with list_pop_range_exact [of s "''k''" 1 2] list_pop_range_exact [of s "''k''" 2 1]
  show ?thesis by (auto simp: numeral_2_eq_2)
qed

text \<open>
  C37. \<open>pop_count\<close> with count \<open>n\<close> removes and returns the first \<open>n + 1\<close> items, one more than
  asked for; when the key has fewer than \<open>n + 1\<close> items it reports \<open>KeyNotFound\<close>, and all the items
  the key had are gone.
\<close>

theorem list_pop_count_one_more:
  assumes "list_reachable s" "with_capacity_ok 24 n"
  shows "if n < length (queue_of (list_content s) key)
    then \<exists>s'. list_pop_count key n s = (Ok (take (n + 1) (queue_of (list_content s) key)), s') \<and>
      list_content s' = (list_content s)(key \<mapsto> drop (n + 1) (queue_of (list_content s) key))
    else \<exists>s'. list_pop_count key n s = (Err KeyNotFound, s') \<and> queue_of (list_content s') key = []"
proof (cases "n < length (queue_of (list_content s) key)")
  case True
  then obtain q where q: "list_content s key = Some q" "n + 1 \<le> length q"
    by (auto simp: queue_of_def split: option.splits)
  then have "queue_of (list_content s) key = q" by (simp add: queue_of_def)
  with pop_times_enough [OF list_reachable_inv_aux [OF assms(1)] q] True assms(2)
  show ?thesis by (auto simp: list_pop_count_def fun_upd_def)
next
  case False
  with pop_times_short [OF list_reachable_inv_aux [OF assms(1)] refl, of key "n + 1"] assms(2)
  show ?thesis by (auto simp: list_pop_count_def)
qed

theorem list_pop_count_one_more_witness:
  "\<exists>s s' s2. list_reachable s \<and> list_pop_count ''k'' 1 s = (Ok [[1], [2]], s') \<and>
     list_pop_count ''k'' 2 s = (Err KeyNotFound, s2) \<and> queue_of (list_content s2) ''k'' = []"
proof -
  obtain s where s: "list_reachable s" "list_content s = [''k'' \<mapsto> [[1], [2]]]"
    by (rule loaded_list [of "[[1], [2]]" "''k''"])
      (auto simp: item_fits_def LIST_HEADER_SIZE_def LIST_SEGMENT_SIZE_def)
  have q: "queue_of (list_content s) ''k'' = [[1], [2]]"
    by (simp add: s(2) queue_of_def)
  have "\<exists>s'. list_pop_count ''k'' 1 s = (Ok [[1], [2]], s')"
    using list_pop_count_one_more [OF s(1), of 1 "''k''"] by (auto simp: q with_capacity_ok_def)
  moreover have "\<exists>s2. list_pop_count ''k'' 2 s = (Err KeyNotFound, s2) \<and> queue_of (list_content s2) ''k'' = []"
    using list_pop_count_one_more [OF s(1), of 2 "''k''"] by (simp add: q with_capacity_ok_def)
  ultimately show ?thesis using s(1) by blast
qed

text \<open>
  \<open>push_range\<close> is not atomic: with memory available it appends the items up to the first one
  that does not fit a segment, in order, and then reports \<open>EntryTooLarge\<close> with those items kept; it
  succeeds exactly when every item fits.
\<close>

theorem list_push_range_prefix:
  assumes "list_reachable s"
  shows "\<exists>s'. list_push_range (\<lambda>_. True) key items s =
      (if list_all item_fits items then Ok () else Err EntryTooLarge, s') \<and>
    queue_of (list_content s') key = queue_of (list_content s) key @ takeWhile item_fits items \<and>
    (\<forall>k. k \<noteq> key \<longrightarrow> list_content s' k = list_content s k)"
  using list_push_range_correct [OF list_reachable_inv_aux [OF assms], of key items]
  by (auto simp: queue_of_def split: if_splits)

theorem list_push_range_prefix_witness:
  "\<exists>s s'. list_reachable s \<and>
     list_push_range (\<lambda>_. True) ''k'' [[1], replicate LIST_SEGMENT_SIZE 0, [2]] s = (Err EntryTooLarge, s') \<and>
     queue_of (list_content s') ''k'' = [[1]]"
proof -
  obtain s where s: "list_reachable s" "list_content s = (\<lambda>_. None)"
    by (rule fresh_list)
  have fits: "item_fits [1]" "\<not> item_fits (replicate LIST_SEGMENT_SIZE 0)"
    by (simp_all add: item_fits_def LIST_HEADER_SIZE_def LIST_SEGMENT_SIZE_def)
  with s list_push_range_prefix [OF s(1), of "''k''" "[[1], replicate LIST_SEGMENT_SIZE 0, [2]]"]
  show ?thesis by (auto simp: queue_of_def)
qed

end
