(* ===== verification/Store_Tests.thy ===== *)
theory Store_Tests
  imports Log_Tests Kv Seg_List_Props
begin

text \<open>
  The unit tests of the key-value store (\<open>kv.rs\<close>) and of the segmented list (\<open>seg_list.rs\<close>), translated and
  shown to pass with every clock that does not overflow and every iteration order of the hash map. A test ends in
  \<open>None\<close> where an assertion or an \<open>unwrap\<close> would fail.
\<close>

section \<open>The tests of the key-value store\<close>

text \<open>The clock readings of a test, in the order the code takes them.\<close>

definition kv_test_full_cycle :: "kv_iter \<Rightarrow> (nat \<Rightarrow> i64) \<Rightarrow> unit option" where
  "kv_test_full_cycle iter t = do {
     let s1 = kv_set iter (t 0) (t 1) ''db'' ''k1'' (text_bytes ''hello'') 0 kv_new;
     let s2 = kv_set iter (t 2) (t 3) ''db'' ''k2'' (text_bytes ''world'') 0 s1;
     let (r, s3) = kv_get (t 4) (t 5) ''db'' ''k1'' s2;
     v1 \<leftarrow> r;
     check (de_val v1 = text_bytes ''hello'');
     check (length (kv_keys iter ''db'' s3) = 2);
     (_, s4) \<leftarrow> call (kv_del ''db'' ''k1'') s3;
     let (r', s5) = kv_get (t 6) (t 7) ''db'' ''k1'' s4;
     check (r' = None);
     check (kv_keys iter ''db'' (kv_flush ''db'' s5) = [])
   }"

text \<open>The clock is read twice by \<open>set\<close>, and after the pause by \<open>get\<close>.\<close>

definition test_ttl_expiry :: "kv_iter \<Rightarrow> (nat \<Rightarrow> i64) \<Rightarrow> unit option" where
  "test_ttl_expiry iter t = do {
     let s1 = kv_set iter (t 0) (t 1) ''db'' ''k1'' (text_bytes ''v'') 1 kv_new;
     check (fst (kv_get (t 2) (t 3) ''db'' ''k1'' s1) = None)
   }"

definition test_create_db_duplicate :: "unit option" where
  "test_create_db_duplicate = do {
     (_, s) \<leftarrow> call (kv_create_db ''mydb'') kv_new;
     check (is_err (fst (kv_create_db ''mydb'' s)))
   }"

section \<open>The test of the segmented list\<close>

definition list_test_full_cycle :: "unit option" where
  "list_test_full_cycle = do {
     l0 \<leftarrow> unwrap (seglist_new True);
     (_, l1) \<leftarrow> call (list_push_range (\<lambda>_. True) ''mykey'' (map (\<lambda>i. replicate 10 (word_of_nat i)) [0..<5])) l0;
     (n1, l2) \<leftarrow> call (list_len ''mykey'') l1;
     check (n1 = 5);
     (first, l3) \<leftarrow> call (list_pop ''mykey'') l2;
     check (first = replicate 10 0);
     (n2, l4) \<leftarrow> call (list_len ''mykey'') l3;
     check (n2 = 4);
     (some, l5) \<leftarrow> call (list_pop_range ''mykey'' 0 2) l4;
     check (length some = 2);
     check (some ! 0 = replicate 10 1);
     check (some ! 1 = replicate 10 2);
     (n3, l6) \<leftarrow> call (list_len ''mykey'') l5;
     check (n3 = 2);
     (_, l7) \<leftarrow> call (list_flush ''mykey'') l6;
     (n4, l8) \<leftarrow> call (list_len ''mykey'') l7;
     check (n4 = 0);
     (_, l9) \<leftarrow> call (list_push True ''mykey'' (text_bytes ''hello'')) l8;
     (val, _) \<leftarrow> call (list_pop ''mykey'') l9;
     check (val = text_bytes ''hello'')
   }"

section \<open>The tests pass\<close>

lemma kv_full_cycle_pass:
  assumes "iter_ok iter"
  shows "kv_test_full_cycle iter t = Some ()"
proof -
  note len = iter_okD(3) [OF assms]
  have "iter [] = []" using len [of "[]"] by (simp only: length_0_conv list.size)
  with len show ?thesis
    by (simp add: kv_test_full_cycle_def kv_set_def kv_get_def kv_del_def kv_keys_def kv_flush_def put_db_def get_db_mut_def
        kv_new_def db_new_def db_set_def db_get_def db_del_def db_keys_def db_flush_def call_def Let_def)
qed

text \<open>The pause of 5 ms ends after the deadline of 1 ms.\<close>

lemma ttl_expiry_pass:
  assumes "0 \<le> sint (t 0)" "sint (t 0) + 1 < sint (t 2)"
  shows "test_ttl_expiry iter t = Some ()"
proof -
  have "sint (t 0 + 1) = sint (t 0) + 1"
    using assms sint_lt [of "t 2"] by (simp add: sint_word_ariths(1) signed_take_bit_int_eq_self)
  with assms show ?thesis
    by (auto simp: test_ttl_expiry_def kv_set_def kv_get_def put_db_def get_db_mut_def kv_new_def db_new_def db_set_def
        db_get_def Let_def)
qed

lemma create_db_duplicate_pass: "test_create_db_duplicate = Some ()"
  by (simp add: test_create_db_duplicate_def kv_create_db_def kv_new_def call_def)

text \<open>The steps of a list that holds one key.\<close>

definition queue_at :: "string \<Rightarrow> bytes list \<Rightarrow> seg_list \<Rightarrow> bool" where
  "queue_at key q s \<longleftrightarrow> list_inv s \<and> list_content s key = Some q"

lemma queue_at_steps:
  assumes "queue_at key q s"
  shows "\<exists>s'. call (list_len key) s = Some (length q, s') \<and> queue_at key q s'"
    and "a \<le> b \<Longrightarrow> b \<le> length q \<Longrightarrow>
      \<exists>s'. call (list_pop_range key a b) s = Some (drop a (take b q), s') \<and> queue_at key (take a q @ drop b q) s'"
    and "\<exists>s'. call (list_flush key) s = Some ((), s') \<and> queue_at key [] s'"
    and "q = x # xs \<Longrightarrow> \<exists>s'. call (list_pop key) s = Some (x, s') \<and> queue_at key xs s'"
    and "item_fits y \<Longrightarrow> \<exists>s'. call (list_push True key y) s = Some ((), s') \<and> queue_at key (q @ [y]) s'"
proof -
  have s: "list_inv s" "list_content s key = Some q" using assms by (simp_all add: queue_at_def)
  have q: "queue_of (list_content s) key = q" by (simp add: queue_of_def s(2))
  show "\<exists>s'. call (list_len key) s = Some (length q, s') \<and> queue_at key q s'"
    using list_len_correct [OF s(1), of key] by (auto simp: call_def queue_at_def q)
  show "a \<le> b \<Longrightarrow> b \<le> length q \<Longrightarrow>
      \<exists>s'. call (list_pop_range key a b) s = Some (drop a (take b q), s') \<and> queue_at key (take a q @ drop b q) s'"
    using list_pop_range_correct [OF s, of a b] by (auto simp: call_def queue_at_def)
  show "\<exists>s'. call (list_flush key) s = Some ((), s') \<and> queue_at key [] s'"
    using list_flush_correct [OF s] by (auto simp: call_def queue_at_def)
  show "q = x # xs \<Longrightarrow> \<exists>s'. call (list_pop key) s = Some (x, s') \<and> queue_at key xs s'"
    using list_pop_some [OF s(1), of key x xs] s(2) by (auto simp: call_def queue_at_def)
  obtain r s' where push: "list_push True key y s = (r, s')" by fastforce
  note p = list_push_correct [OF s(1) push]
  show "item_fits y \<Longrightarrow> \<exists>s'. call (list_push True key y) s = Some ((), s') \<and> queue_at key (q @ [y]) s'"
    using push p(1-3) q by (auto simp: call_def queue_at_def item_fits_def)
qed

lemma queue_at_start:
  assumes "list_all item_fits items" "items \<noteq> []"
  shows "\<exists>s s'. seglist_new True = Ok s \<and> call (list_push_range (\<lambda>_. True) key items) s = Some ((), s') \<and> queue_at key items s'"
proof -
  obtain s where s: "seglist_new True = Ok s" by (simp add: seglist_new_def alloc_segs_def)
  note new = seglist_new_inv [OF s]
  have "takeWhile item_fits items = items" using assms(1) by (simp add: takeWhile_eq_all_conv list_all_iff)
  with list_push_range_correct [OF new(1), of key items] new(2) assms s show ?thesis
    by (auto simp: call_def queue_at_def queue_of_def)
qed

lemma list_full_cycle_pass: "list_test_full_cycle = Some ()"
proof -
  let ?k = "''mykey''" and ?items = "map (\<lambda>i. replicate 10 (word_of_nat i :: u8)) [0..<5]" and ?h = "text_bytes ''hello''"
  have fits: "list_all item_fits ?items" "?items \<noteq> []" "item_fits ?h"
    by (auto simp: list_all_iff item_fits_def text_bytes_def LIST_HEADER_SIZE_def LIST_SEGMENT_SIZE_def)
  have items: "?items = replicate 10 0 # tl ?items" "length ?items = 5" "length (tl ?items) = 4"
    "drop 0 (take 2 (tl ?items)) = [replicate 10 1, replicate 10 2]" "length (take 0 (tl ?items) @ drop 2 (tl ?items)) = 2"
    by (simp_all add: upt_rec)
  obtain l0 l1 where l1: "seglist_new True = Ok l0" "call (list_push_range (\<lambda>_. True) ?k ?items) l0 = Some ((), l1)" "queue_at ?k ?items l1"
    using queue_at_start [OF fits(1,2)] by blast
  obtain l2 where l2: "call (list_len ?k) l1 = Some (5, l2)" "queue_at ?k ?items l2"
    using queue_at_steps(1) [OF l1(3)] items(2) by metis
  obtain l3 where l3: "call (list_pop ?k) l2 = Some (replicate 10 0, l3)" "queue_at ?k (tl ?items) l3"
    using queue_at_steps(4) [OF l2(2) items(1)] by blast
  obtain l4 where l4: "call (list_len ?k) l3 = Some (4, l4)" "queue_at ?k (tl ?items) l4"
    using queue_at_steps(1) [OF l3(2)] items(3) by metis
  obtain l5 where l5: "call (list_pop_range ?k 0 2) l4 = Some ([replicate 10 1, replicate 10 2], l5)"
    "queue_at ?k (take 0 (tl ?items) @ drop 2 (tl ?items)) l5"
    using queue_at_steps(2) [OF l4(2), of 0 2] items(3) unfolding items(4) by auto
  obtain l6 where l6: "call (list_len ?k) l5 = Some (2, l6)" "queue_at ?k (take 0 (tl ?items) @ drop 2 (tl ?items)) l6"
    using queue_at_steps(1) [OF l5(2)] unfolding items(5) by blast
  obtain l7 where l7: "call (list_flush ?k) l6 = Some ((), l7)" "queue_at ?k [] l7"
    using queue_at_steps(3) [OF l6(2)] by blast
  obtain l8 where l8: "call (list_len ?k) l7 = Some (0, l8)" "queue_at ?k [] l8"
    using queue_at_steps(1) [OF l7(2)] by auto
  obtain l9 where l9: "call (list_push True ?k ?h) l8 = Some ((), l9)" "queue_at ?k ([] @ [?h]) l9"
    using queue_at_steps(5) [OF l8(2) fits(3)] by blast
  obtain l10 where "call (list_pop ?k) l9 = Some (?h, l10)"
    using queue_at_steps(4) [OF l9(2), of ?h "[]"] by auto
  with l1(1,2) l2(1) l3(1) l4(1) l5(1) l6(1) l7(1) l8(1) l9(1) show ?thesis
    by (simp add: list_test_full_cycle_def del: upt_rec_numeral cong: bind_first)
qed

lemmas store_tests_pass = kv_full_cycle_pass ttl_expiry_pass create_db_duplicate_pass list_full_cycle_pass

end
