(* ===== verification/Utf8.thy ===== *)
theory Utf8
  imports Prelude
begin

text \<open>
  The parts of the standard library's string handling the sources use: \<open>std::str::from_utf8\<close> (is a
  byte sequence well-formed UTF-8), \<open>str::trim\<close> over the UTF-8 bytes, and the line splitting of
  \<open>AsyncBufReadExt::lines\<close>.
\<close>

section \<open>Well-formed UTF-8\<close>

definition cont :: "u8 \<Rightarrow> bool" where
  "cont b \<longleftrightarrow> 0x80 \<le> b \<and> b \<le> 0xBF"

fun utf8_valid :: "bytes \<Rightarrow> bool" where
  "utf8_valid [] = True"
| "utf8_valid (a # bs) =
     (if a < 0x80 then utf8_valid bs
      else if 0xC2 \<le> a \<and> a \<le> 0xDF then
        (case bs of b # r \<Rightarrow> cont b \<and> utf8_valid r | _ \<Rightarrow> False)
      else if 0xE0 \<le> a \<and> a \<le> 0xEF then
        (case bs of b # c # r \<Rightarrow>
           cont b \<and> (a = 0xE0 \<longrightarrow> 0xA0 \<le> b) \<and> (a = 0xED \<longrightarrow> b \<le> 0x9F) \<and> cont c \<and> utf8_valid r
         | _ \<Rightarrow> False)
      else if 0xF0 \<le> a \<and> a \<le> 0xF4 then
        (case bs of b # c # d # r \<Rightarrow>
           cont b \<and> (a = 0xF0 \<longrightarrow> 0x90 \<le> b) \<and> (a = 0xF4 \<longrightarrow> b \<le> 0x8F) \<and> cont c \<and> cont d \<and> utf8_valid r
         | _ \<Rightarrow> False)
      else False)"

text \<open>A validated byte string as a \<open>String\<close>, and back.\<close>

definition string_of_bytes :: "bytes \<Rightarrow> string" where
  "string_of_bytes bs = map (\<lambda>b. char_of (unat b)) bs"

definition bytes_of_string :: "string \<Rightarrow> bytes" where
  "bytes_of_string s = map of_char s"

definition from_utf8 :: "bytes \<Rightarrow> string option" where
  "from_utf8 bs = (if utf8_valid bs then Some (string_of_bytes bs) else None)"

lemma string_bytes_roundtrip [simp]: "bytes_of_string (string_of_bytes bs) = bs"
proof -
  have "of_char (char_of (unat b) :: char) = b" for b :: u8
  proof -
    have "unat b mod 256 = unat b" using unsigned_less [of b, where ?'a = nat] by simp
    then have "of_char (char_of (unat b) :: char) = (of_nat (unat b) :: u8)"
      by (metis of_char_of of_nat_of_char)
    then show ?thesis by simp
  qed
  then show ?thesis by (simp add: bytes_of_string_def string_of_bytes_def map_idI)
qed

lemma bytes_string_roundtrip [simp]: "string_of_bytes (bytes_of_string s) = s"
proof -
  have "char_of (unat (of_char c :: u8)) = c" for c :: char
  proof -
    have "(of_char c :: nat) < 256" by simp
    then have "unat (of_char c :: u8) = of_char c"
      using unat_of_nat [of "of_char c", where ?'a = 8] by (simp add: of_nat_of_char)
    then show ?thesis by simp
  qed
  then show ?thesis by (simp add: bytes_of_string_def string_of_bytes_def map_idI)
qed

lemma utf8_ascii: "(\<forall>b \<in> set bs. b < 0x80) \<Longrightarrow> utf8_valid bs"
  by (induction bs rule: utf8_valid.induct) auto

section \<open>Lossy decoding\<close>

text \<open>
  \<open>String::from_utf8_lossy\<close>: the bytes of the next chunk and whether they are a character; an
  ill-formed chunk is the longest prefix of a character that is there, and becomes U+FFFD.
\<close>

definition tail_at :: "nat \<Rightarrow> bytes \<Rightarrow> bool" where
  "tail_at i bs \<longleftrightarrow> i < length bs \<and> cont (bs ! i)"

definition second_ok :: "u8 \<Rightarrow> u8 \<Rightarrow> bool" where
  "second_ok a b \<longleftrightarrow> cont b \<and> (a = 0xE0 \<longrightarrow> 0xA0 \<le> b) \<and> (a = 0xED \<longrightarrow> b \<le> 0x9F) \<and>
     (a = 0xF0 \<longrightarrow> 0x90 \<le> b) \<and> (a = 0xF4 \<longrightarrow> b \<le> 0x8F)"

definition utf8_chunk :: "u8 \<Rightarrow> bytes \<Rightarrow> bool \<times> nat" where
  "utf8_chunk a r =
     (if a < 0x80 then (True, 1)
      else if 0xC2 \<le> a \<and> a \<le> 0xDF then (if tail_at 0 r then (True, 2) else (False, 1))
      else if 0xE0 \<le> a \<and> a \<le> 0xEF then
        (if \<not> (r \<noteq> [] \<and> second_ok a (r ! 0)) then (False, 1)
         else if \<not> tail_at 1 r then (False, 2) else (True, 3))
      else if 0xF0 \<le> a \<and> a \<le> 0xF4 then
        (if \<not> (r \<noteq> [] \<and> second_ok a (r ! 0)) then (False, 1)
         else if \<not> tail_at 1 r then (False, 2)
         else if \<not> tail_at 2 r then (False, 3) else (True, 4))
      else (False, 1))"

function utf8_lossy :: "bytes \<Rightarrow> bytes" where
  "utf8_lossy [] = []"
| "utf8_lossy (a # r) =
     (let (ok, n) = utf8_chunk a r in
      (if ok then take n (a # r) else [0xEF, 0xBF, 0xBD]) @ utf8_lossy (drop n (a # r)))"
  by pat_completeness auto
termination
  by (relation "measure length") (auto simp: utf8_chunk_def split: if_splits)

definition from_utf8_lossy :: "bytes \<Rightarrow> string" where
  "from_utf8_lossy bs = string_of_bytes (utf8_lossy bs)"

lemma utf8_lead:
  fixes a :: u8
  shows "0xC2 \<le> a \<Longrightarrow> \<not> a < 0x80" "0xE0 \<le> a \<Longrightarrow> \<not> a < 0x80 \<and> \<not> a \<le> 0xDF \<and> a \<noteq> 0x80"
    "0xF0 \<le> a \<Longrightarrow> \<not> a < 0x80 \<and> \<not> a \<le> 0xDF \<and> \<not> a \<le> 0xEF \<and> a \<noteq> 0xE0 \<and> a \<noteq> 0xED"
    "a \<le> 0xEF \<Longrightarrow> a \<noteq> 0xF0 \<and> a \<noteq> 0xF4"
  by (auto simp: word_le_nat_alt word_less_nat_alt)

lemma utf8_valid_cases:
  assumes "utf8_valid (a # bs)"
  obtains (one) "a < 0x80" "utf8_valid bs"
    | (two) b r where "bs = b # r" "0xC2 \<le> a" "a \<le> 0xDF" "cont b" "utf8_valid r"
    | (three) b c r where "bs = b # c # r" "0xE0 \<le> a" "a \<le> 0xEF" "second_ok a b" "cont c" "utf8_valid r"
    | (four) b c d r where "bs = b # c # d # r" "0xF0 \<le> a" "a \<le> 0xF4" "second_ok a b" "cont c" "cont d"
        "utf8_valid r"
proof -
  consider "a < 0x80" | "0xC2 \<le> a" "a \<le> 0xDF" | "0xE0 \<le> a" "a \<le> 0xEF" | "0xF0 \<le> a" "a \<le> 0xF4"
    using assms by (simp split: if_splits)
  then show ?thesis
  proof cases
    case 1
    with assms show ?thesis by (intro one) simp_all
  next
    case 2
    with assms utf8_lead(1) [OF 2(1)] show ?thesis by (simp split: list.splits add: two)
  next
    case 3
    with assms utf8_lead(2) [OF 3(1)] utf8_lead(4) [OF 3(2)] show ?thesis
      by (simp split: list.splits add: three second_ok_def)
  next
    case 4
    with assms utf8_lead(3) [OF 4(1)] show ?thesis by (simp split: list.splits add: four second_ok_def)
  qed
qed

lemma utf8_valid_two: "0xC2 \<le> a \<Longrightarrow> a \<le> 0xDF \<Longrightarrow> cont b \<Longrightarrow> utf8_valid r \<Longrightarrow> utf8_valid (a # b # r)"
  using utf8_lead(1) [of a] by simp

lemma utf8_valid_three:
  "0xE0 \<le> a \<Longrightarrow> a \<le> 0xEF \<Longrightarrow> second_ok a b \<Longrightarrow> cont c \<Longrightarrow> utf8_valid r \<Longrightarrow> utf8_valid (a # b # c # r)"
  using utf8_lead(2) [of a] by (simp add: second_ok_def)

lemma utf8_valid_four:
  "0xF0 \<le> a \<Longrightarrow> a \<le> 0xF4 \<Longrightarrow> second_ok a b \<Longrightarrow> cont c \<Longrightarrow> cont d \<Longrightarrow> utf8_valid r \<Longrightarrow>
   utf8_valid (a # b # c # d # r)"
  using utf8_lead(3) [of a] by (simp add: second_ok_def)

lemma utf8_valid_append: "utf8_valid a \<Longrightarrow> utf8_valid b \<Longrightarrow> utf8_valid (a @ b)"
proof (induction a rule: length_induct)
  case (1 xs)
  show ?case
  proof (cases xs)
    case Nil
    with 1 show ?thesis by simp
  next
    case (Cons x bs)
    with 1 have IH: "utf8_valid r \<Longrightarrow> length r < length xs \<Longrightarrow> utf8_valid (r @ b)" for r by blast
    have "utf8_valid (x # bs)" using 1 Cons by simp
    then show ?thesis
    proof (cases rule: utf8_valid_cases)
      case one
      with IH [of bs] Cons show ?thesis by simp
    next
      case (two c r)
      with IH [of r] Cons show ?thesis by (simp del: utf8_valid.simps add: utf8_valid_two)
    next
      case (three c d r)
      with IH [of r] Cons show ?thesis by (simp del: utf8_valid.simps add: utf8_valid_three)
    next
      case (four c d e r)
      with IH [of r] Cons show ?thesis by (simp del: utf8_valid.simps add: utf8_valid_four)
    qed
  qed
qed

lemma utf8_lossy_valid: "utf8_valid bs \<Longrightarrow> utf8_lossy bs = bs"
proof (induction bs rule: length_induct)
  case (1 xs)
  show ?case
  proof (cases xs)
    case Nil
    then show ?thesis by simp
  next
    case (Cons a bs)
    with 1 have IH: "utf8_valid r \<Longrightarrow> length r < length xs \<Longrightarrow> utf8_lossy r = r" for r by blast
    have "utf8_valid (a # bs)" using 1 Cons by simp
    then show ?thesis
    proof (cases rule: utf8_valid_cases)
      case one
      with IH [of bs] Cons show ?thesis by (simp add: utf8_chunk_def)
    next
      case (two b r)
      with IH [of r] Cons utf8_lead(1) [OF two(2)] show ?thesis
        by (simp add: utf8_chunk_def tail_at_def numeral_2_eq_2)
    next
      case (three b c r)
      with IH [of r] Cons utf8_lead(2) [OF three(2)] show ?thesis
        by (simp add: utf8_chunk_def tail_at_def numeral_3_eq_3)
    next
      case (four b c d r)
      with IH [of r] Cons utf8_lead(3) [OF four(2)] show ?thesis
        by (simp add: utf8_chunk_def tail_at_def)
    qed
  qed
qed

lemma from_utf8_lossy_valid [simp]:
  "utf8_valid (bytes_of_string t) \<Longrightarrow> from_utf8_lossy (bytes_of_string t) = t"
  by (simp add: from_utf8_lossy_def utf8_lossy_valid)

section \<open>Trimming\<close>

text \<open>
  The bytes of the white space character at the front of a string, or 0: ASCII white space and the
  Unicode \<open>White_Space\<close> characters in their UTF-8 encoding; \<open>ws_end\<close> is the same for a reversed
  string and its last character.
\<close>

definition ws_ascii :: "u8 \<Rightarrow> bool" where
  "ws_ascii b \<longleftrightarrow> 9 \<le> b \<and> b \<le> 13 \<or> b = 32"

definition ws_wide :: "u8 \<Rightarrow> u8 \<Rightarrow> u8 \<Rightarrow> bool" where
  "ws_wide a b c \<longleftrightarrow> a = 0xE1 \<and> b = 0x9A \<and> c = 0x80 \<or>
     a = 0xE2 \<and> b = 0x80 \<and> (0x80 \<le> c \<and> c \<le> 0x8A \<or> c = 0xA8 \<or> c = 0xA9 \<or> c = 0xAF) \<or>
     a = 0xE2 \<and> b = 0x81 \<and> c = 0x9F \<or> a = 0xE3 \<and> b = 0x80 \<and> c = 0x80"

definition ws_start :: "bytes \<Rightarrow> nat" where
  "ws_start bs =
     (case bs of
        [] \<Rightarrow> 0
      | a # r \<Rightarrow>
          if ws_ascii a then 1
          else (case r of
             [] \<Rightarrow> 0
           | b # r' \<Rightarrow>
               if a = 0xC2 \<and> (b = 0x85 \<or> b = 0xA0) then 2
               else (case r' of [] \<Rightarrow> 0 | c # _ \<Rightarrow> if ws_wide a b c then 3 else 0)))"

definition ws_end :: "bytes \<Rightarrow> nat" where
  "ws_end rs =
     (case rs of
        [] \<Rightarrow> 0
      | c # r \<Rightarrow>
          if ws_ascii c then 1
          else (case r of
             [] \<Rightarrow> 0
           | b # r' \<Rightarrow>
               if b = 0xC2 \<and> (c = 0x85 \<or> c = 0xA0) then 2
               else (case r' of [] \<Rightarrow> 0 | a # _ \<Rightarrow> if ws_wide a b c then 3 else 0)))"

function trim_with :: "(bytes \<Rightarrow> nat) \<Rightarrow> bytes \<Rightarrow> bytes" where
  "trim_with ws bs = (if ws bs = 0 \<or> bs = [] then bs else trim_with ws (drop (ws bs) bs))"
  by auto
termination
  by (relation "measure (\<lambda>(ws, bs). length bs)") auto

declare trim_with.simps [simp del]

definition trim :: "bytes \<Rightarrow> bytes" where
  "trim bs = rev (trim_with ws_end (rev (trim_with ws_start bs)))"

text \<open>A text that starts and ends with an ASCII character other than white space is kept.\<close>

lemma trim_id:
  assumes "bs \<noteq> []" "hd bs < 0x80" "\<not> ws_ascii (hd bs)" "last bs < 0x80" "\<not> ws_ascii (last bs)"
  shows "trim bs = bs"
proof -
  have "ws_start bs = 0"
    using assms(1-3) by (cases bs) (auto simp: ws_start_def ws_wide_def split: list.split)
  moreover have "ws_end (rev bs) = 0"
    using assms(1,4,5) by (cases bs rule: rev_cases)
      (auto simp: ws_end_def ws_wide_def split: list.split dest: leD)
  ultimately show ?thesis by (simp add: trim_def trim_with.simps)
qed

section \<open>Lines\<close>

definition strip_cr :: "bytes \<Rightarrow> bytes" where
  "strip_cr l = (if l \<noteq> [] \<and> last l = 13 then butlast l else l)"

function lines_of :: "bytes \<Rightarrow> bytes list" where
  "lines_of bs =
     (if bs = [] then []
      else let l = takeWhile (\<lambda>b. b \<noteq> 10) bs; r = dropWhile (\<lambda>b. b \<noteq> 10) bs in
        if r = [] then [l] else strip_cr l # lines_of (tl r))"
  by auto
termination
proof (relation "measure length", goal_cases)
  case (2 bs l r)
  then have "length r \<le> length bs" "r \<noteq> []" by (simp_all add: length_dropWhile_le)
  then show ?case by (cases r) auto
qed simp

declare lines_of.simps [simp del]

lemma lines_of_Nil [simp]: "lines_of [] = []"
  by (simp add: lines_of.simps)

lemma lines_of_line: "10 \<notin> set l \<Longrightarrow> lines_of (l @ 10 # bs) = strip_cr l # lines_of bs"
  by (subst lines_of.simps) (auto simp: Let_def takeWhile_append2 dropWhile_append)

end
