(* ===== verification/Aof.thy ===== *)
theory Aof
  imports Utf8
begin

text \<open>
  The append-only file (\<open>server/src/db/aof.rs\<close>): its entries, their categories, the base64 text used
  to ship entries to followers, the lines the worker writes and the two loaders.

  Serialisation itself is \<open>serde_json\<close>, which is not part of the repository: \<open>to_json\<close> and
  \<open>from_json\<close> are parameters. What the code relies on is \<open>json_ok\<close>: reading back what was written
  gives the entry, and the compact text of an entry is a one-line JSON object (from \<open>{\<close> to \<open>}\<close>) in
  UTF-8. The file is the byte sequence the worker appended; creating and opening it is not modelled.
\<close>

unbundle bit_operations_syntax

section \<open>Entries\<close>

datatype aof_entry =
    KvSet string string bytes i64
  | KvDel string string
  | KvFlush string
  | LogCreateGroup string
  | LogDropGroup string
  | LogAdd string u64 bytes
  | LogAddRange string "(u64 \<times> bytes) list"
  | LogRemove string u64
  | ListPush string bytes
  | ListPushRange string "bytes list"
  | ListPop string
  | ListPopRange string nat nat
  | ListPopCount string nat
  | ListFlush string

datatype entry_category = CKv | CLog | CList

fun category :: "aof_entry \<Rightarrow> entry_category" where
  "category (KvSet _ _ _ _) = CKv"
| "category (KvDel _ _) = CKv"
| "category (KvFlush _) = CKv"
| "category (LogCreateGroup _) = CLog"
| "category (LogDropGroup _) = CLog"
| "category (LogAdd _ _ _) = CLog"
| "category (LogAddRange _ _) = CLog"
| "category (LogRemove _ _) = CLog"
| "category (ListPush _ _) = CList"
| "category (ListPushRange _ _) = CList"
| "category (ListPop _) = CList"
| "category (ListPopRange _ _ _) = CList"
| "category (ListPopCount _ _) = CList"
| "category (ListFlush _) = CList"

section \<open>Base64\<close>

definition CHARS :: string where
  "CHARS = ''ABCDEFGHIJKLMNOPQRSTUVWXYZabcdefghijklmnopqrstuvwxyz0123456789+/''"

text \<open>The character for six bits of a 24-bit group, counted from bit \<open>n\<close>.\<close>

definition sextet :: "nat \<Rightarrow> u32 \<Rightarrow> char" where
  "sextet n b = CHARS ! unat (drop_bit n b AND 63)"

definition group3 :: "u8 \<Rightarrow> u8 \<Rightarrow> u8 \<Rightarrow> u32" where
  "group3 x y z = push_bit 16 (ucast x) OR push_bit 8 (ucast y) OR ucast z"

text \<open>The loop over full groups of three bytes and the match on the one or two bytes left.\<close>

fun encode_base64 :: "bytes \<Rightarrow> string" where
  "encode_base64 (x # y # z # json) =
     (let b = group3 x y z
      in sextet 18 b # sextet 12 b # sextet 6 b # sextet 0 b # encode_base64 json)"
| "encode_base64 [x] = (let b = push_bit 16 (ucast x) in [sextet 18 b, sextet 12 b] @ ''=='')"
| "encode_base64 [x, y] =
     (let b = push_bit 16 (ucast x) OR push_bit 8 (ucast y)
      in [sextet 18 b, sextet 12 b, sextet 6 b] @ ''='')"
| "encode_base64 [] = []"

definition to_base64 :: "(aof_entry \<Rightarrow> bytes) \<Rightarrow> aof_entry \<Rightarrow> string" where
  "to_base64 to_json e = encode_base64 (to_json e)"

definition decode_char :: "u8 \<Rightarrow> u8" where
  "decode_char c =
     (if 65 \<le> c \<and> c \<le> 90 then c - 65
      else if 97 \<le> c \<and> c \<le> 122 then c - 97 + 26
      else if 48 \<le> c \<and> c \<le> 57 then c - 48 + 52
      else if c = 43 then 62
      else if c = 47 then 63
      else 0)"

definition quad4 :: "u8 \<Rightarrow> u8 \<Rightarrow> u8 \<Rightarrow> u8 \<Rightarrow> u32" where
  "quad4 p q r s = push_bit 18 (ucast (decode_char p)) OR push_bit 12 (ucast (decode_char q)) OR
     push_bit 6 (ucast (decode_char r)) OR ucast (decode_char s)"

text \<open>\<open>while i + 3 < s.len()\<close>: an incomplete last group is ignored.\<close>

fun decode_base64 :: "bytes \<Rightarrow> bytes" where
  "decode_base64 (p # q # r # s # rest) =
     (let b = quad4 p q r s
      in [ucast (drop_bit 16 b)] @ (if r \<noteq> 61 then [ucast (drop_bit 8 b)] else []) @
         (if s \<noteq> 61 then [ucast b] else []) @ decode_base64 rest)"
| "decode_base64 _ = []"

definition from_base64 :: "(bytes \<Rightarrow> aof_entry option) \<Rightarrow> string \<Rightarrow> aof_entry option" where
  "from_base64 from_json s = from_json (decode_base64 (bytes_of_string s))"

section \<open>The file\<close>

text \<open>One message of the worker's channel: the JSON text and a newline are appended.\<close>

definition aof_worker :: "(aof_entry \<Rightarrow> bytes) \<Rightarrow> aof_entry \<Rightarrow> bytes \<Rightarrow> bytes" where
  "aof_worker to_json e file = file @ to_json e @ [10]"

record aof_entries =
  ae_kv :: "aof_entry list"
  ae_list :: "aof_entry list"
  ae_log :: "aof_entry list"

definition aof_entries_len :: "aof_entries \<Rightarrow> nat" where
  "aof_entries_len es = length (ae_kv es) + length (ae_list es) + length (ae_log es)"

definition aof_entries_is_empty :: "aof_entries \<Rightarrow> bool" where
  "aof_entries_is_empty es \<longleftrightarrow> aof_entries_len es = 0"

text \<open>
  \<open>next_line\<close> fails on a line that is not UTF-8, and the loader with it; blank lines and lines that
  do not parse are skipped.
\<close>

datatype line_result = Skip | Entry aof_entry | BadLine

definition parse_line :: "(bytes \<Rightarrow> aof_entry option) \<Rightarrow> bytes \<Rightarrow> line_result" where
  "parse_line from_json l =
     (if \<not> utf8_valid l then BadLine
      else if trim l = [] then Skip
      else case from_json (trim l) of Some e \<Rightarrow> Entry e | None \<Rightarrow> Skip)"

fun push_entry :: "aof_entry \<Rightarrow> aof_entries \<Rightarrow> aof_entries" where
  "push_entry e es =
     (case category e of
        CKv \<Rightarrow> es\<lparr>ae_kv := ae_kv es @ [e]\<rparr>
      | CLog \<Rightarrow> es\<lparr>ae_log := ae_log es @ [e]\<rparr>
      | CList \<Rightarrow> es\<lparr>ae_list := ae_list es @ [e]\<rparr>)"

fun load_separated_lines :: "(bytes \<Rightarrow> aof_entry option) \<Rightarrow> bytes list \<Rightarrow> aof_entries \<Rightarrow> aof_entries option" where
  "load_separated_lines from_json [] es = Some es"
| "load_separated_lines from_json (l # ls) es =
     (case parse_line from_json l of
        BadLine \<Rightarrow> None
      | Skip \<Rightarrow> load_separated_lines from_json ls es
      | Entry e \<Rightarrow> load_separated_lines from_json ls (push_entry e es))"

text \<open>The file, if it exists.\<close>

definition load_aof_separated :: "(bytes \<Rightarrow> aof_entry option) \<Rightarrow> bytes option \<Rightarrow> aof_entries option" where
  "load_aof_separated from_json file =
     (case file of
        None \<Rightarrow> Some \<lparr>ae_kv = [], ae_list = [], ae_log = []\<rparr>
      | Some bs \<Rightarrow> load_separated_lines from_json (lines_of bs) \<lparr>ae_kv = [], ae_list = [], ae_log = []\<rparr>)"

fun load_lines :: "(bytes \<Rightarrow> aof_entry option) \<Rightarrow> bytes list \<Rightarrow> aof_entry list option" where
  "load_lines from_json [] = Some []"
| "load_lines from_json (l # ls) =
     (case parse_line from_json l of
        BadLine \<Rightarrow> None
      | Skip \<Rightarrow> load_lines from_json ls
      | Entry e \<Rightarrow> map_option ((#) e) (load_lines from_json ls))"

definition load_aof :: "(bytes \<Rightarrow> aof_entry option) \<Rightarrow> bytes option \<Rightarrow> aof_entry list option" where
  "load_aof from_json file = (case file of None \<Rightarrow> Some [] | Some bs \<Rightarrow> load_lines from_json (lines_of bs))"

section \<open>What the code relies on in the JSON library\<close>

definition json_ok :: "(aof_entry \<Rightarrow> bytes) \<Rightarrow> (bytes \<Rightarrow> aof_entry option) \<Rightarrow> aof_entry \<Rightarrow> bool" where
  "json_ok to_json from_json e \<longleftrightarrow>
     from_json (to_json e) = Some e \<and> utf8_valid (to_json e) \<and> 10 \<notin> set (to_json e) \<and>
     to_json e \<noteq> [] \<and> hd (to_json e) = 123 \<and> last (to_json e) = 125"

section \<open>Lemmas\<close>

lemma decode_sextets:
  "v < 64 \<Longrightarrow> decode_char (of_char (CHARS ! v)) = of_nat v \<and> of_char (CHARS ! v) \<noteq> (61 :: u8) \<and>
     of_char (CHARS ! v) < (0x80 :: u8)"
proof -
  have "list_all (\<lambda>v. decode_char (of_char (CHARS ! v)) = of_nat v \<and> of_char (CHARS ! v) \<noteq> (61 :: u8) \<and>
      of_char (CHARS ! v) < (0x80 :: u8)) [0..<64]"
    by code_simp
  then show "v < 64 \<Longrightarrow> decode_char (of_char (CHARS ! v)) = of_nat v \<and> of_char (CHARS ! v) \<noteq> (61 :: u8) \<and>
     of_char (CHARS ! v) < (0x80 :: u8)" by (auto simp: list_all_iff)
qed

lemma decode_sextet: "decode_char (of_char (sextet n b)) = ucast (drop_bit n b AND 63)"
  "of_char (sextet n b) \<noteq> (61 :: u8)" "of_char (sextet n b) < (0x80 :: u8)"
proof -
  have "drop_bit n b AND 63 \<le> 63" by (rule word_and_le1)
  then have "unat (drop_bit n b AND 63) < 64" by (simp add: word_le_nat_alt)
  from decode_sextets [OF this] show "decode_char (of_char (sextet n b)) = ucast (drop_bit n b AND 63)"
    "of_char (sextet n b) \<noteq> (61 :: u8)" "of_char (sextet n b) < (0x80 :: u8)"
    by (auto simp: sextet_def)
qed

lemma mask6: "(63 :: u32) = mask 6"
  by (simp add: mask_eq_exp_minus_1)

text \<open>The four sextets of a group put together again.\<close>

lemma regroup_sextets:
  "push_bit 18 (ucast (ucast (drop_bit 18 b AND 63 :: u32) :: u8)) OR
   push_bit 12 (ucast (ucast (drop_bit 12 b AND 63) :: u8)) OR
   push_bit 6 (ucast (ucast (drop_bit 6 b AND 63) :: u8)) OR
   ucast (ucast (drop_bit 0 b AND 63) :: u8) = (take_bit 24 b :: u32)" (is "?l = _")
  unfolding mask6
proof (rule bit_word_eqI)
  fix n :: nat
  consider "n < 6" | "6 \<le> n" "n < 12" | "12 \<le> n" "n < 18" | "18 \<le> n" "n < 24" | "24 \<le> n" by linarith
  then show "bit (push_bit 18 (ucast (ucast (drop_bit 18 b AND mask 6 :: u32) :: u8) :: u32) OR
      push_bit 12 (ucast (ucast (drop_bit 12 b AND mask 6) :: u8)) OR
      push_bit 6 (ucast (ucast (drop_bit 6 b AND mask 6) :: u8)) OR
      ucast (ucast (drop_bit 0 b AND mask 6) :: u8)) n = bit (take_bit 24 b) n"
    by cases (auto simp: bit_simps)
qed

lemma group3_bytes:
  "ucast (drop_bit 16 (group3 x y z)) = x" "ucast (drop_bit 8 (group3 x y z)) = y" "ucast (group3 x y z) = z"
  "take_bit 24 (group3 x y z) = group3 x y z"
  unfolding group3_def by (rule bit_word_eqI, auto simp: bit_simps dest: bit_imp_le_length)+

lemma quad4_sextets: "quad4 (of_char (sextet 18 (group3 x y z))) (of_char (sextet 12 (group3 x y z)))
    (of_char (sextet 6 (group3 x y z))) (of_char (sextet 0 (group3 x y z))) = group3 x y z"
  unfolding quad4_def decode_sextet regroup_sextets by (rule group3_bytes)

text \<open>Padding decodes to zero bits, which is what the missing bytes would have given.\<close>

lemma low_sextets_zero:
  "drop_bit 0 (group3 x y 0) AND 63 = 0" "drop_bit 6 (group3 x 0 0) AND 63 = 0"
  unfolding group3_def mask6 by (rule bit_word_eqI, auto simp: bit_simps)+

lemma decode_pad: "decode_char 61 = 0"
  by (simp add: decode_char_def)

lemma quad4_pad1: "quad4 (of_char (sextet 18 (group3 x y 0))) (of_char (sextet 12 (group3 x y 0)))
    (of_char (sextet 6 (group3 x y 0))) 61 = group3 x y 0"
  using quad4_sextets [of x y 0] by (simp add: quad4_def decode_sextet low_sextets_zero decode_pad del: drop_bit_0)

lemma quad4_pad2: "quad4 (of_char (sextet 18 (group3 x 0 0))) (of_char (sextet 12 (group3 x 0 0))) 61 61 = group3 x 0 0"
  using quad4_sextets [of x 0 0] by (simp add: quad4_def decode_sextet low_sextets_zero decode_pad del: drop_bit_0)

lemma base64_bytes: "decode_base64 (bytes_of_string (encode_base64 bs)) = bs"
proof (induction bs rule: encode_base64.induct)
  case (1 x y z json)
  then show ?case
    by (simp add: bytes_of_string_def Let_def quad4_sextets decode_sextet group3_bytes)
next
  case (2 x)
  have "push_bit 16 (ucast x) = group3 x 0 0" by (simp add: group3_def)
  then show ?case
    using quad4_pad2 [of x] group3_bytes(1) [of x 0 0] by (simp add: bytes_of_string_def Let_def)
next
  case (3 x y)
  have "push_bit 16 (ucast x) OR push_bit 8 (ucast y) = group3 x y 0" by (simp add: group3_def)
  then show ?case
    using quad4_pad1 [of x y] group3_bytes(1,2) [of x y 0]
    by (simp add: bytes_of_string_def Let_def decode_sextet)
qed (simp add: bytes_of_string_def)

text \<open>The text is ASCII, so it survives as UTF-8; and it decodes to the entry it was made from.\<close>

lemma base64_ascii: "list_all (\<lambda>c. (of_char c :: u8) < 0x80) (encode_base64 bs)"
  by (induction bs rule: encode_base64.induct) (simp_all add: Let_def decode_sextet)

lemma base64_entry: "json_ok to_json from_json e \<Longrightarrow> from_base64 from_json (to_base64 to_json e) = Some e"
  by (simp add: from_base64_def to_base64_def base64_bytes json_ok_def)

section \<open>Properties\<close>

text \<open>The file after a sequence of writes.\<close>

definition written_file :: "(aof_entry \<Rightarrow> bytes) \<Rightarrow> aof_entry list \<Rightarrow> bytes" where
  "written_file to_json es = fold (aof_worker to_json) es []"

lemma written_file_append: "fold (aof_worker to_json) es f = f @ concat (map (\<lambda>e. to_json e @ [10]) es)"
  by (induction es arbitrary: f) (simp_all add: aof_worker_def)

lemma parse_written:
  assumes "json_ok to_json from_json e"
  shows "strip_cr (to_json e) = to_json e" "parse_line from_json (to_json e) = Entry e"
proof -
  have "trim (to_json e) = to_json e"
    using assms by (intro trim_id) (auto simp: json_ok_def ws_ascii_def)
  then show "parse_line from_json (to_json e) = Entry e"
    using assms by (auto simp: parse_line_def json_ok_def)
  show "strip_cr (to_json e) = to_json e" using assms by (simp add: strip_cr_def json_ok_def)
qed

lemma load_written_lines:
  "list_all (json_ok to_json from_json) es \<Longrightarrow>
   load_lines from_json (lines_of (concat (map (\<lambda>e. to_json e @ [10]) es))) = Some es"
proof (induction es)
  case (Cons e es)
  then have "10 \<notin> set (to_json e)" by (simp add: json_ok_def)
  then show ?case using Cons parse_written [of to_json from_json e] by (simp add: lines_of_line)
qed simp

text \<open>Separating is loading and sorting by category.\<close>

lemma load_separated_lines_eq:
  "load_separated_lines from_json ls es =
     map_option (\<lambda>xs. \<lparr>ae_kv = ae_kv es @ filter (\<lambda>e. category e = CKv) xs,
        ae_list = ae_list es @ filter (\<lambda>e. category e = CList) xs,
        ae_log = ae_log es @ filter (\<lambda>e. category e = CLog) xs\<rparr>) (load_lines from_json ls)"
proof (induction ls arbitrary: es)
  case (Cons l ls)
  then show ?case
    by (auto simp: option.map_comp o_def split: line_result.split entry_category.split)
qed simp

text \<open>
  What the writer wrote is what the loaders read: after any sequence of writes \<open>load_aof\<close> returns
  exactly the entries in order, and \<open>load_aof_separated\<close> returns them split by category, each
  category in the order of the file. A line in front of them that
  does not parse is skipped without losing an entry.
\<close>

theorem load_after_write:
  assumes "list_all (json_ok to_json from_json) es"
  shows "load_aof from_json (Some (written_file to_json es)) = Some es \<and>
    load_aof_separated from_json (Some (written_file to_json es)) =
      Some \<lparr>ae_kv = filter (\<lambda>e. category e = CKv) es, ae_list = filter (\<lambda>e. category e = CList) es,
            ae_log = filter (\<lambda>e. category e = CLog) es\<rparr> \<and>
    (\<forall>l. 10 \<notin> set l \<and> parse_line from_json (strip_cr l) = Skip \<longrightarrow>
       load_aof from_json (Some (l @ 10 # written_file to_json es)) = Some es)"
  using load_written_lines [OF assms]
  by (simp add: load_aof_def load_aof_separated_def load_separated_lines_eq written_file_def
      written_file_append lines_of_line)

theorem load_after_write_witness:
  "let e = KvFlush ''d''; tj = (\<lambda>_. [123, 65, 66, 125]); fj = (\<lambda>bs. if bs = [123, 65, 66, 125] then Some e else None) in
   list_all (json_ok tj fj) [e, e] \<and> load_aof fj (Some (written_file tj [e, e])) = Some [e, e]"
proof -
  let ?e = "KvFlush ''d''" and ?tj = "\<lambda>_ :: aof_entry. [123, 65, 66, 125] :: bytes"
  let ?fj = "\<lambda>bs. if bs = [123, 65, 66, 125 :: u8] then Some (KvFlush ''d'') else None"
  have ok: "list_all (json_ok ?tj ?fj) [?e, ?e]" by (simp add: json_ok_def)
  with load_after_write [OF ok] show ?thesis by (simp add: Let_def)
qed

end
