(* ===== verification/Aof_Tests.thy ===== *)
theory Aof_Tests
  imports Store_Tests Aof
begin

text \<open>
  The unit tests of the append-only file (\<open>aof.rs\<close>), translated and shown to pass for every JSON library that reads
  back what it wrote. The tests that load a text of their own also say what the library makes of its lines.
\<close>

section \<open>The tests\<close>

text \<open>
  The file is removed first, the writer is dropped after the last entry, and the pause lets the worker drain its
  channel.
\<close>

definition write_and_load :: "(aof_entry \<Rightarrow> bytes) \<Rightarrow> (bytes \<Rightarrow> aof_entry option) \<Rightarrow> aof_entry list \<Rightarrow> aof_entries option" where
  "write_and_load to_json from_json es = load_aof_separated from_json (Some (fold (aof_worker to_json) es []))"

definition test_load_nonexistent_file :: "(bytes \<Rightarrow> aof_entry option) \<Rightarrow> unit option" where
  "test_load_nonexistent_file from_json = do {
     result \<leftarrow> load_aof_separated from_json None;
     check (aof_entries_is_empty result)
   }"

definition kv_routing :: "aof_entry list" where
  "kv_routing = [KvSet ''d'' ''k'' [1] 0, KvDel ''d'' ''k'', KvFlush ''d'']"

definition test_kv_entries_routed_correctly :: "(aof_entry \<Rightarrow> bytes) \<Rightarrow> (bytes \<Rightarrow> aof_entry option) \<Rightarrow> unit option" where
  "test_kv_entries_routed_correctly to_json from_json = do {
     loaded \<leftarrow> write_and_load to_json from_json kv_routing;
     check (length (ae_kv loaded) = 3);
     check (ae_log loaded = []);
     check (ae_list loaded = []);
     check (ae_kv loaded ! 0 = KvSet ''d'' ''k'' [1] 0);
     check (ae_kv loaded ! 1 = KvDel ''d'' ''k'');
     check (ae_kv loaded ! 2 = KvFlush ''d'')
   }"

definition log_routing :: "aof_entry list" where
  "log_routing = [LogCreateGroup ''g'', LogAdd ''g'' 1 [9], LogAddRange ''g'' [(1, [1]), (2, [2])], LogRemove ''g'' 5, LogDropGroup ''g'']"

definition test_log_entries_routed_correctly :: "(aof_entry \<Rightarrow> bytes) \<Rightarrow> (bytes \<Rightarrow> aof_entry option) \<Rightarrow> unit option" where
  "test_log_entries_routed_correctly to_json from_json = do {
     loaded \<leftarrow> write_and_load to_json from_json log_routing;
     check (length (ae_log loaded) = 5);
     check (ae_kv loaded = []);
     check (ae_list loaded = []);
     check (ae_log loaded ! 0 = LogCreateGroup ''g'');
     check (ae_log loaded ! 3 = LogRemove ''g'' 5)
   }"

definition list_routing :: "aof_entry list" where
  "list_routing = [ListPush ''l'' [1], ListPushRange ''l'' [[1], [2]], ListPop ''l'', ListPopRange ''l'' 0 3,
     ListPopCount ''l'' 2, ListFlush ''l'']"

definition test_list_entries_routed_correctly :: "(aof_entry \<Rightarrow> bytes) \<Rightarrow> (bytes \<Rightarrow> aof_entry option) \<Rightarrow> unit option" where
  "test_list_entries_routed_correctly to_json from_json = do {
     loaded \<leftarrow> write_and_load to_json from_json list_routing;
     check (length (ae_list loaded) = 6);
     check (ae_kv loaded = []);
     check (ae_log loaded = []);
     check (ae_list loaded ! 2 = ListPop ''l'');
     check (ae_list loaded ! 3 = ListPopRange ''l'' 0 3)
   }"

definition mixed_entries :: "aof_entry list" where
  "mixed_entries = [KvSet ''d'' ''k'' [1, 2] 10, LogCreateGroup ''g1'', LogAdd ''g'' 100 [9], ListPush ''l'' [3, 4], ListPop ''l'']"

definition test_mixed_entries_total_count :: "(aof_entry \<Rightarrow> bytes) \<Rightarrow> (bytes \<Rightarrow> aof_entry option) \<Rightarrow> unit option" where
  "test_mixed_entries_total_count to_json from_json = do {
     loaded \<leftarrow> write_and_load to_json from_json mixed_entries;
     check (length (ae_kv loaded) = 1);
     check (length (ae_log loaded) = 2);
     check (length (ae_list loaded) = 2);
     check (aof_entries_len loaded = 5)
   }"

text \<open>The text \<open>{"op":"KvFlush","db":"..."}\<close> of the tests.\<close>

definition flush_text :: "string \<Rightarrow> bytes" where
  "flush_text db = text_bytes (''{\"op\":\"KvFlush\",\"db\":\"'' @ db @ ''\"}'')"

definition test_corrupt_lines_are_skipped :: "(bytes \<Rightarrow> aof_entry option) \<Rightarrow> unit option" where
  "test_corrupt_lines_are_skipped from_json = do {
     entries \<leftarrow> load_aof_separated from_json
       (Some (flush_text ''x'' @ [10] @ text_bytes ''NOT_JSON'' @ [10] @ flush_text ''y'' @ [10]));
     check (length (ae_kv entries) = 2)
   }"

definition test_empty_lines_are_skipped :: "(bytes \<Rightarrow> aof_entry option) \<Rightarrow> unit option" where
  "test_empty_lines_are_skipped from_json = do {
     entries \<leftarrow> load_aof_separated from_json (Some ([10, 10] @ flush_text ''x'' @ [10, 10]));
     check (length (ae_kv entries) = 1)
   }"

text \<open>Three writers, one after the other, on the same file.\<close>

definition writer_entry :: "nat \<Rightarrow> aof_entry" where
  "writer_entry i = KvSet ''d'' (''k'' @ [char_of (48 + i)]) [word_of_nat i] 0"

definition test_multiple_writers_append :: "(aof_entry \<Rightarrow> bytes) \<Rightarrow> (bytes \<Rightarrow> aof_entry option) \<Rightarrow> unit option" where
  "test_multiple_writers_append to_json from_json = do {
     entries \<leftarrow> load_aof_separated from_json (Some (fold (\<lambda>i. fold (aof_worker to_json) [writer_entry i]) [0..<3] []));
     check (length (ae_kv entries) = 3)
   }"

section \<open>The tests pass\<close>

lemma write_and_load_sorts:
  assumes "list_all (json_ok to_json from_json) es"
  shows "write_and_load to_json from_json es =
    Some \<lparr>ae_kv = filter (\<lambda>e. category e = CKv) es, ae_list = filter (\<lambda>e. category e = CList) es,
      ae_log = filter (\<lambda>e. category e = CLog) es\<rparr>"
  using load_written_lines [OF assms]
  by (simp add: write_and_load_def load_aof_separated_def load_separated_lines_eq written_file_append)

lemma nonexistent_file_pass: "test_load_nonexistent_file from_json = Some ()"
  by (simp add: test_load_nonexistent_file_def load_aof_separated_def aof_entries_is_empty_def aof_entries_len_def)

lemma kv_routing_pass:
  "list_all (json_ok to_json from_json) kv_routing \<Longrightarrow> test_kv_entries_routed_correctly to_json from_json = Some ()"
  by (simp add: test_kv_entries_routed_correctly_def write_and_load_sorts) (simp add: kv_routing_def)

lemma log_routing_pass:
  "list_all (json_ok to_json from_json) log_routing \<Longrightarrow> test_log_entries_routed_correctly to_json from_json = Some ()"
  by (simp add: test_log_entries_routed_correctly_def write_and_load_sorts) (simp add: log_routing_def)

lemma list_routing_pass:
  "list_all (json_ok to_json from_json) list_routing \<Longrightarrow> test_list_entries_routed_correctly to_json from_json = Some ()"
  by (simp add: test_list_entries_routed_correctly_def write_and_load_sorts) (simp add: list_routing_def)

lemma mixed_entries_pass:
  "list_all (json_ok to_json from_json) mixed_entries \<Longrightarrow> test_mixed_entries_total_count to_json from_json = Some ()"
  by (simp add: test_mixed_entries_total_count_def write_and_load_sorts) (simp add: mixed_entries_def aof_entries_len_def)

lemma multiple_writers_pass:
  assumes "list_all (json_ok to_json from_json) (map writer_entry [0..<3])"
  shows "test_multiple_writers_append to_json from_json = Some ()"
proof -
  have "fold (\<lambda>i. fold (aof_worker to_json) [writer_entry i]) [0..<3] [] = fold (aof_worker to_json) (map writer_entry [0..<3]) []"
    by (simp add: upt_rec)
  then show ?thesis
    using write_and_load_sorts [OF assms]
    by (simp add: test_multiple_writers_append_def write_and_load_def writer_entry_def upt_rec)
qed

text \<open>A line of visible ASCII text is handed to the JSON library as it is.\<close>

definition plain_line :: "bytes \<Rightarrow> bool" where
  "plain_line l \<longleftrightarrow> l \<noteq> [] \<and> list_all (\<lambda>b. 0x20 < b \<and> b < 0x7F) l"

lemma plain_line:
  assumes "plain_line l"
  shows "10 \<notin> set l" "strip_cr l = l" "parse_line from_json l = (case from_json l of Some e \<Rightarrow> Entry e | None \<Rightarrow> Skip)"
proof -
  have b: "0x20 < b" "b < 0x7F" if "b \<in> set l" for b using assms that by (auto simp: plain_line_def list_all_iff)
  have ends: "l \<noteq> []" "hd l \<in> set l" "last l \<in> set l" using assms by (auto simp: plain_line_def)
  show "10 \<notin> set l" using b(1) [of 10] by auto
  have "last l \<noteq> 13" using b(1) [OF ends(3)] by auto
  then show "strip_cr l = l" by (simp add: strip_cr_def)
  have ascii: "c < 0x80 \<and> \<not> ws_ascii c" if "c \<in> set l" for c
    using b [OF that] by (auto simp: ws_ascii_def word_less_nat_alt word_le_nat_alt)
  have "utf8_valid l" using ascii by (intro utf8_ascii) (simp add: list_all_iff)
  moreover have "trim l = l" using ascii ends by (intro trim_id) auto
  ultimately show "parse_line from_json l = (case from_json l of Some e \<Rightarrow> Entry e | None \<Rightarrow> Skip)"
    using ends(1) by (simp add: parse_line_def)
qed

lemma test_lines: "plain_line (flush_text ''x'')" "plain_line (flush_text ''y'')" "plain_line (text_bytes ''NOT_JSON'')"
  by (simp_all add: plain_line_def flush_text_def text_bytes_def word_less_nat_alt)

lemma load_line:
  assumes "plain_line l"
  shows "load_lines from_json (lines_of (l @ 10 # bs)) =
    (case from_json l of Some e \<Rightarrow> map_option ((#) e) (load_lines from_json (lines_of bs)) | None \<Rightarrow> load_lines from_json (lines_of bs))"
  by (simp add: lines_of_line plain_line [OF assms] split: option.split)

lemma load_blank: "load_lines from_json (lines_of (10 # bs)) = load_lines from_json (lines_of bs)"
  using lines_of_line [of "[]" bs] by (simp add: strip_cr_def parse_line_def trim_def trim_with.simps)

lemma corrupt_lines_pass:
  assumes "from_json (flush_text ''x'') = Some (KvFlush ''x'')" "from_json (flush_text ''y'') = Some (KvFlush ''y'')"
    "from_json (text_bytes ''NOT_JSON'') = None"
  shows "test_corrupt_lines_are_skipped from_json = Some ()"
  by (simp add: test_corrupt_lines_are_skipped_def load_aof_separated_def load_separated_lines_eq load_line test_lines assms)

lemma empty_lines_pass:
  assumes "from_json (flush_text ''x'') = Some (KvFlush ''x'')"
  shows "test_empty_lines_are_skipped from_json = Some ()"
  by (simp add: test_empty_lines_are_skipped_def load_aof_separated_def load_separated_lines_eq load_line load_blank test_lines assms)

lemmas aof_tests_pass = nonexistent_file_pass kv_routing_pass log_routing_pass list_routing_pass mixed_entries_pass
  corrupt_lines_pass empty_lines_pass multiple_writers_pass

end
