(* ===== verification/Log_Groups.thy ===== *)
theory Log_Groups
  imports Seg_Log_Props Lru
begin

text \<open>
  Log groups (\<open>server/src/db/groups.rs\<close>, and \<open>build_key\<close> of \<open>lru.rs\<close>): every group is a segmented
  log with a read cache in front of it, keyed by a hash of the group name and the entry id.

  The standard library leaves the algorithm of \<open>DefaultHasher\<close> unspecified, so the hash of a byte
  sequence is the parameter \<open>h\<close>; nothing is assumed of it beyond being a function. Clock readings
  of the cache and the answers of the allocator are parameters. The mutex around the log is never
  contended here (the manager is borrowed exclusively) and is not modelled.

  The locale \<open>cached_log\<close> combines the contracts of the log and of the cache and carries the
  coherence argument; it is interpreted on the two components.
\<close>

section \<open>Data\<close>

datatype group_error =
    GroupNotFound string
  | GroupAlreadyExists string
  | GLogError log_error

record group_stats =
  gs_total_entries :: u64
  gs_total_segments :: nat
  gs_next_id :: u64

record log_entry =
  le_id :: u64
  le_timestamp :: u64
  le_len :: nat
  le_payload :: bytes

record group =
  g_name :: string
  g_log :: seg_log
  g_cache :: "(u64, log_entry) lru"

record group_manager =
  gm_groups :: "(string, group) hash_map"

section \<open>One group\<close>

text \<open>\<open>str::hash\<close> writes the bytes and \<open>0xff\<close>, \<open>u64::hash\<close> the eight bytes of the number.\<close>

definition build_key :: "(bytes \<Rightarrow> u64) \<Rightarrow> string \<Rightarrow> u64 \<Rightarrow> u64" where
  "build_key h key i = h (map of_char key @ [0xFF] @ u64_le i)"

text \<open>The cache keeps entries for 30 seconds; its clock counts nanoseconds.\<close>

definition group_new :: "(nat \<Rightarrow> bool) \<Rightarrow> string \<Rightarrow> (group_error, group) result" where
  "group_new alloc name =
     (case seglog_new alloc of
        Ok l \<Rightarrow> Ok \<lparr>g_name = name, g_log = l, g_cache = lru_new 100000 (30 * 10 ^ 9)\<rparr>
      | Err e \<Rightarrow> Err (GLogError e)
      | Fault p \<Rightarrow> Fault p)"

definition cache_put :: "(bytes \<Rightarrow> u64) \<Rightarrow> nat \<Rightarrow> u64 \<Rightarrow> u64 \<Rightarrow> bytes \<Rightarrow> group \<Rightarrow> group option" where
  "cache_put h now i ts payload g = do {
     c \<leftarrow> lru_insert now (build_key h (g_name g) i)
       \<lparr>le_id = i, le_timestamp = ts, le_len = length payload, le_payload = payload\<rparr> (g_cache g);
     Some (g\<lparr>g_cache := c\<rparr>)
   }"

definition cache_invalidate :: "(bytes \<Rightarrow> u64) \<Rightarrow> u64 \<Rightarrow> group \<Rightarrow> group option" where
  "cache_invalidate h i g = do {
     (_, c) \<leftarrow> lru_remove (build_key h (g_name g) i) (g_cache g);
     Some (g\<lparr>g_cache := c\<rparr>)
   }"

text \<open>
  The bodies of the manager's operations on the group they found. A panic inside the cache would
  surface as \<open>UnwrapPanic\<close>.
\<close>

definition group_add :: "(bytes \<Rightarrow> u64) \<Rightarrow> bool \<Rightarrow> nat \<Rightarrow> u64 \<Rightarrow> bytes \<Rightarrow> group \<Rightarrow> (group_error, u64) result \<times> group" where
  "group_add h alloc now ts payload g =
     (case append_entry alloc ts payload (g_log g) of
        (Ok i, l) \<Rightarrow>
          (case cache_put h now i ts payload (g\<lparr>g_log := l\<rparr>) of
             None \<Rightarrow> (Fault UnwrapPanic, g\<lparr>g_log := l\<rparr>)
           | Some g' \<Rightarrow> (Ok i, g'))
      | (Err e, l) \<Rightarrow> (Err (GLogError e), g\<lparr>g_log := l\<rparr>)
      | (Fault p, l) \<Rightarrow> (Fault p, g\<lparr>g_log := l\<rparr>))"

text \<open>The loop of \<open>add_range\<close> over the remaining entries, threading \<open>last_id\<close>.\<close>

fun group_add_rest :: "(bytes \<Rightarrow> u64) \<Rightarrow> (nat \<Rightarrow> bool) \<Rightarrow> (nat \<Rightarrow> nat) \<Rightarrow> u64 \<Rightarrow> (u64 \<times> bytes) list \<Rightarrow> group
    \<Rightarrow> (group_error, u64) result \<times> group" where
  "group_add_rest h alloc now last_id [] g = (Ok last_id, g)"
| "group_add_rest h alloc now last_id ((ts, payload) # es) g =
     (case group_add h (alloc 0) (now 0) ts payload g of
        (Ok i, g') \<Rightarrow> group_add_rest h (\<lambda>n. alloc (Suc n)) (\<lambda>n. now (Suc n)) i es g'
      | r \<Rightarrow> r)"

definition group_add_range :: "(bytes \<Rightarrow> u64) \<Rightarrow> (nat \<Rightarrow> bool) \<Rightarrow> (nat \<Rightarrow> nat) \<Rightarrow> u64 \<times> bytes \<Rightarrow> (u64 \<times> bytes) list
    \<Rightarrow> group \<Rightarrow> (group_error, u64 \<times> u64) result \<times> group" where
  "group_add_range h alloc now e es g =
     (case group_add h (alloc 0) (now 0) (fst e) (snd e) g of
        (Ok first_id, g1) \<Rightarrow>
          (case group_add_rest h (\<lambda>n. alloc (Suc n)) (\<lambda>n. now (Suc n)) first_id es g1 of
             (Ok last_id, g2) \<Rightarrow> (Ok (first_id, last_id), g2)
           | (Err x, g2) \<Rightarrow> (Err x, g2)
           | (Fault p, g2) \<Rightarrow> (Fault p, g2))
      | (Err x, g1) \<Rightarrow> (Err x, g1)
      | (Fault p, g1) \<Rightarrow> (Fault p, g1))"

definition group_read :: "(bytes \<Rightarrow> u64) \<Rightarrow> nat \<Rightarrow> u64 \<Rightarrow> group \<Rightarrow> (group_error, entry) result \<times> group" where
  "group_read h now i g =
     (case lru_get now (build_key h (g_name g) i) (g_cache g) of
        None \<Rightarrow> (Fault UnwrapPanic, g)
      | Some (Some cached, c) \<Rightarrow> (Ok (le_id cached, le_timestamp cached, le_payload cached), g\<lparr>g_cache := c\<rparr>)
      | Some (None, c) \<Rightarrow> (map_err GLogError (log_read i (g_log g)), g\<lparr>g_cache := c\<rparr>))"

text \<open>The ids \<open>start..=end\<close>.\<close>

definition id_range :: "u64 \<Rightarrow> u64 \<Rightarrow> u64 list" where
  "id_range start end = map word_of_nat [unat start..<Suc (unat end)]"

text \<open>
  The loop of \<open>read_range\<close> over the cache: the entries found, whether it ran to the end, and the
  cache afterwards.
\<close>

fun read_cached :: "(bytes \<Rightarrow> u64) \<Rightarrow> (nat \<Rightarrow> nat) \<Rightarrow> string \<Rightarrow> u64 list \<Rightarrow> (u64, log_entry) lru
    \<Rightarrow> (entry list \<times> bool \<times> (u64, log_entry) lru) option" where
  "read_cached h now name [] c = Some ([], True, c)"
| "read_cached h now name (i # ids) c =
     (case lru_get (now 0) (build_key h name i) c of
        None \<Rightarrow> None
      | Some (None, c') \<Rightarrow> Some ([], False, c')
      | Some (Some e, c') \<Rightarrow>
          (case read_cached h (\<lambda>n. now (Suc n)) name ids c' of
             None \<Rightarrow> None
           | Some (es, b, c2) \<Rightarrow> Some ((le_id e, le_timestamp e, le_payload e) # es, b, c2)))"

text \<open>The length of the range wraps; an element of the result vector takes 40 bytes.\<close>

definition group_read_range :: "(bytes \<Rightarrow> u64) \<Rightarrow> (nat \<Rightarrow> nat) \<Rightarrow> u64 \<Rightarrow> u64 \<Rightarrow> group
    \<Rightarrow> (group_error, entry list) result \<times> group" where
  "group_read_range h now start end g =
     (let range_len = unat (end - start + 1) in
      if \<not> with_capacity_ok 40 range_len then (Fault CapacityPanic, g)
      else case read_cached h now (g_name g) (id_range start end) (g_cache g) of
        None \<Rightarrow> (Fault UnwrapPanic, g)
      | Some (cached, all_cached, c) \<Rightarrow>
          let g' = g\<lparr>g_cache := c\<rparr> in
          if all_cached \<and> length cached = range_len then (Ok cached, g')
          else (map_err GLogError (log_read_range start end (g_log g)), g'))"

fun invalidate_all :: "(bytes \<Rightarrow> u64) \<Rightarrow> u64 list \<Rightarrow> group \<Rightarrow> group option" where
  "invalidate_all h [] g = Some g"
| "invalidate_all h (i # ids) g = do { g' \<leftarrow> cache_invalidate h i g; invalidate_all h ids g' }"

definition group_remove :: "(bytes \<Rightarrow> u64) \<Rightarrow> u64 \<Rightarrow> group \<Rightarrow> (group_error, unit) result \<times> group" where
  "group_remove h up_to_id g =
     (case log_trim up_to_id (g_log g) of
        (Ok removed_ids, l) \<Rightarrow>
          (case invalidate_all h removed_ids (g\<lparr>g_log := l\<rparr>) of
             None \<Rightarrow> (Fault UnwrapPanic, g\<lparr>g_log := l\<rparr>)
           | Some g' \<Rightarrow> (Ok (), g'))
      | (Err e, l) \<Rightarrow> (Err (GLogError e), g\<lparr>g_log := l\<rparr>)
      | (Fault p, l) \<Rightarrow> (Fault p, g\<lparr>g_log := l\<rparr>))"

section \<open>The manager\<close>

definition gm_new :: group_manager where
  "gm_new = \<lparr>gm_groups = []\<rparr>"

definition create_group :: "(nat \<Rightarrow> bool) \<Rightarrow> string \<Rightarrow> group_manager \<Rightarrow> (group_error, unit) result \<times> group_manager" where
  "create_group alloc name m =
     (if hm_get (gm_groups m) name \<noteq> None then (Err (GroupAlreadyExists name), m)
      else case group_new alloc name of
        Ok g \<Rightarrow> (Ok (), m\<lparr>gm_groups := hm_insert name g (gm_groups m)\<rparr>)
      | Err e \<Rightarrow> (Err e, m)
      | Fault p \<Rightarrow> (Fault p, m))"

definition drop_group :: "string \<Rightarrow> group_manager \<Rightarrow> (group_error, unit) result \<times> group_manager" where
  "drop_group name m =
     (if hm_get (gm_groups m) name = None then (Err (GroupNotFound name), m)
      else (Ok (), m\<lparr>gm_groups := hm_remove name (gm_groups m)\<rparr>))"

text \<open>\<open>get_mut(group).ok_or_else(..)?\<close> followed by a body on that group.\<close>

definition with_group :: "string \<Rightarrow> (group \<Rightarrow> (group_error, 'a) result \<times> group) \<Rightarrow> group_manager
    \<Rightarrow> (group_error, 'a) result \<times> group_manager" where
  "with_group name f m =
     (case hm_get (gm_groups m) name of
        None \<Rightarrow> (Err (GroupNotFound name), m)
      | Some g \<Rightarrow> (case f g of (r, g') \<Rightarrow> (r, m\<lparr>gm_groups := hm_insert name g' (gm_groups m)\<rparr>)))"

definition gm_add :: "(bytes \<Rightarrow> u64) \<Rightarrow> bool \<Rightarrow> nat \<Rightarrow> string \<Rightarrow> u64 \<Rightarrow> bytes \<Rightarrow> group_manager
    \<Rightarrow> (group_error, u64) result \<times> group_manager" where
  "gm_add h alloc now name ts payload m = with_group name (group_add h alloc now ts payload) m"

definition gm_add_range :: "(bytes \<Rightarrow> u64) \<Rightarrow> (nat \<Rightarrow> bool) \<Rightarrow> (nat \<Rightarrow> nat) \<Rightarrow> string \<Rightarrow> (u64 \<times> bytes) list
    \<Rightarrow> group_manager \<Rightarrow> (group_error, u64 \<times> u64) result \<times> group_manager" where
  "gm_add_range h alloc now name entries m =
     (case entries of
        [] \<Rightarrow> (Err (GLogError EntryNotFound), m)
      | e # es \<Rightarrow> with_group name (group_add_range h alloc now e es) m)"

definition gm_read :: "(bytes \<Rightarrow> u64) \<Rightarrow> nat \<Rightarrow> string \<Rightarrow> u64 \<Rightarrow> group_manager
    \<Rightarrow> (group_error, entry) result \<times> group_manager" where
  "gm_read h now name i m = with_group name (group_read h now i) m"

definition gm_read_range :: "(bytes \<Rightarrow> u64) \<Rightarrow> (nat \<Rightarrow> nat) \<Rightarrow> string \<Rightarrow> u64 \<Rightarrow> u64 \<Rightarrow> group_manager
    \<Rightarrow> (group_error, entry list) result \<times> group_manager" where
  "gm_read_range h now name start end m = with_group name (group_read_range h now start end) m"

definition gm_remove :: "(bytes \<Rightarrow> u64) \<Rightarrow> string \<Rightarrow> u64 \<Rightarrow> group_manager
    \<Rightarrow> (group_error, unit) result \<times> group_manager" where
  "gm_remove h name up_to_id m = with_group name (group_remove h up_to_id) m"

definition list_groups :: "((string, group) hash_map \<Rightarrow> (string \<times> group) list) \<Rightarrow> group_manager \<Rightarrow> string list" where
  "list_groups iter m = map fst (iter (gm_groups m))"

definition gm_group_stats :: "string \<Rightarrow> group_manager \<Rightarrow> (group_error, group_stats) result" where
  "gm_group_stats name m =
     (case hm_get (gm_groups m) name of
        None \<Rightarrow> Err (GroupNotFound name)
      | Some g \<Rightarrow> Ok \<lparr>gs_total_entries = total_entries (g_log g), gs_total_segments = total_segments (g_log g),
          gs_next_id = sl_next_id (g_log g)\<rparr>)"

section \<open>A log behind a cache\<close>

locale cached_log =
  log: log_store linv entries nxt app rd trim +
  cache: lossy_cache cinv content insert get remove
  for linv :: "'l \<Rightarrow> bool" and entries nxt app rd trim
    and cinv :: "'c \<Rightarrow> bool" and content :: "'c \<Rightarrow> 'k \<Rightarrow> 'v option" and insert and get and remove +
  fixes key :: "u64 \<Rightarrow> 'k" and entry_of :: "'v \<Rightarrow> entry"
begin

text \<open>Everything cached is a live entry, filed under the key of its id.\<close>

definition cached_live :: "'l \<Rightarrow> 'k \<Rightarrow> 'v \<Rightarrow> bool" where
  "cached_live l k v \<longleftrightarrow> entry_of v \<in> set (entries l) \<and> k = key (fst (entry_of v))"

definition coherent :: "'l \<Rightarrow> 'c \<Rightarrow> bool" where
  "coherent l c \<longleftrightarrow> linv l \<and> cinv c \<and> cache.holds (cached_live l) c"

lemma coherent_append:
  assumes "coherent l c" "nxt l \<noteq> - 1" "app alloc ts p l = (Ok i, l')" "entry_of v = (i, ts, p)"
  shows "\<exists>c'. insert now (key i) v c = Some c' \<and> coherent l' c'"
proof -
  have l': "linv l'" "entries l' = entries l @ [(i, ts, p)]"
    using log.app_ok [OF _ assms(2,3)] assms(1) by (auto simp: coherent_def)
  have "cache.holds (cached_live l') c" "cached_live l' (key i) v"
    using assms(1,4) l'(2) by (auto simp: coherent_def cached_live_def cache.holds_def)
  then show ?thesis
    using cache.insert_holds assms(1) l'(1) by (auto simp: coherent_def)
qed

lemma coherent_failed_append:
  "coherent l c \<Longrightarrow> app alloc ts p l = (Err e, l') \<Longrightarrow> coherent l' c"
  using log.app_err [of l alloc ts p e l'] by (simp add: coherent_def cached_live_def [abs_def])

lemma coherent_get:
  assumes "coherent l c"
  shows "\<exists>r c'. get now (key i) c = Some (r, c') \<and> coherent l c' \<and>
    (\<forall>v. r = Some v \<longrightarrow> entry_of v \<in> set (entries l) \<and> key (fst (entry_of v)) = key i)"
  using cache.get_holds [of c "cached_live l" now "key i"] assms
  by (fastforce simp: coherent_def cached_live_def)

text \<open>A hit of an id whose key no other live id has is what the log would have answered.\<close>

lemma hit_is_read:
  assumes "linv l" "entry_of v \<in> set (entries l)" "key (fst (entry_of v)) = key i"
    and "\<forall>j \<in> fst ` set (entries l). key j = key i \<longrightarrow> j = i"
  shows "rd i l = Ok (entry_of v)"
proof -
  have "fst (entry_of v) = i" using assms(2-4) by force
  then have "map_of (entries l) i = Some (snd (entry_of v))"
    using assms(2) log.distinct_ids [OF assms(1)] by (metis map_of_is_SomeI prod.collapse)
  then show ?thesis
    using log.read_is_lookup [OF assms(1)] \<open>fst (entry_of v) = i\<close> by (auto split: prod.split)
qed

text \<open>After a trim, whatever is cached and not live has the key of a removed id.\<close>

lemma trim_stale:
  assumes "coherent l c" "trim n l = (Ok ids, l')"
  shows "linv l'" "cache.holds (\<lambda>k v. k \<in> key ` set ids \<or> cached_live l' k v) c"
proof -
  have l': "linv l'" "entries l' = filter (\<lambda>(i, e). n \<le> i) (entries l)"
    "ids = filter (\<lambda>i. i < n) (map fst (entries l))"
    using log.trim_ok [of l n] assms by (auto simp: coherent_def)
  then show "linv l'" by simp
  show "cache.holds (\<lambda>k v. k \<in> key ` set ids \<or> cached_live l' k v) c"
    using assms(1) l'(2,3) by (fastforce simp: coherent_def cached_live_def cache.holds_def)
qed

lemma remove_stale:
  assumes "cinv c" "cache.holds (\<lambda>k v. k \<in> key ` set (i # ids) \<or> P k v) c"
  shows "\<exists>r c'. remove (key i) c = Some (r, c') \<and> cinv c' \<and> cache.holds (\<lambda>k v. k \<in> key ` set ids \<or> P k v) c'"
  using assms by (intro cache.remove_holds) (auto simp: cache.holds_def)

end

definition entry_of_cached :: "log_entry \<Rightarrow> entry" where
  "entry_of_cached e = (le_id e, le_timestamp e, le_payload e)"

interpretation gl: cached_log log_inv log_entries sl_next_id append_entry log_read log_trim
  lru_inv lru_content lru_insert lru_get lru_remove "build_key h name" entry_of_cached for h name
  by unfold_locales

section \<open>Invariant of the manager\<close>

definition group_ok :: "(bytes \<Rightarrow> u64) \<Rightarrow> group \<Rightarrow> bool" where
  "group_ok h g \<longleftrightarrow> gl.coherent h (g_name g) (g_log g) (g_cache g)"

definition gm_ok :: "(bytes \<Rightarrow> u64) \<Rightarrow> group_manager \<Rightarrow> bool" where
  "gm_ok h m \<longleftrightarrow> hm_ok (gm_groups m) \<and>
     (\<forall>name g. hm_get (gm_groups m) name = Some g \<longrightarrow> g_name g = name \<and> group_ok h g)"

text \<open>The live entries of a group, and the absence of hash collisions with an id.\<close>

definition gm_entries :: "group_manager \<Rightarrow> string \<Rightarrow> entry list option" where
  "gm_entries m name = map_option (\<lambda>g. log_entries (g_log g)) (hm_get (gm_groups m) name)"

definition no_collision :: "(bytes \<Rightarrow> u64) \<Rightarrow> string \<Rightarrow> entry list \<Rightarrow> u64 \<Rightarrow> bool" where
  "no_collision h name es i \<longleftrightarrow> (\<forall>j \<in> fst ` set es. build_key h name j = build_key h name i \<longrightarrow> j = i)"

lemma group_okD: "group_ok h g \<Longrightarrow> log_inv (g_log g)"
  by (simp add: group_ok_def gl.coherent_def)

lemma group_new_ok: "group_new alloc name = Ok g \<Longrightarrow> group_ok h g \<and> g_name g = name \<and>
    log_entries (g_log g) = [] \<and> sl_next_id (g_log g) = 1"
proof -
  assume "group_new alloc name = Ok g"
  then obtain l where l: "seglog_new alloc = Ok l"
    and g: "g = \<lparr>g_name = name, g_log = l, g_cache = lru_new 100000 (30 * 10 ^ 9)\<rparr>"
    by (auto simp: group_new_def split: result.splits)
  have "lru_rep (lru_new 100000 (30 * 10 ^ 9) :: (u64, log_entry) lru) []"
    by (rule lru_new_rep) (simp_all add: NULL_def)
  then have "lru_inv (g_cache g)" using g by (auto simp: lru_inv_def)
  moreover have "lru_content (g_cache g) k = None" for k
    by (simp add: g lru_new_def lru_content_def)
  ultimately show ?thesis
    using log_new_inv [OF l] g by (simp add: group_ok_def gl.coherent_def lru.holds_def)
qed

lemma group_add_correct:
  assumes ok: "group_ok h g" and ids: "sl_next_id (g_log g) \<noteq> - 1" and add: "group_add h alloc now ts p g = (r, g')"
    and nf: "\<not> is_fault r"
  shows "group_ok h g'" "g_name g' = g_name g"
    "r = Ok i \<Longrightarrow> i = sl_next_id (g_log g) \<and> log_entries (g_log g') = log_entries (g_log g) @ [(i, ts, p)] \<and>
       sl_next_id (g_log g') = sl_next_id (g_log g) + 1"
    "r = Err e \<Longrightarrow> log_entries (g_log g') = log_entries (g_log g) \<and> sl_next_id (g_log g') = sl_next_id (g_log g)"
proof -
  have inv: "log_inv (g_log g)" using ok by (rule group_okD)
  obtain ra l where app: "append_entry alloc ts p (g_log g) = (ra, l)" by fastforce
  have "group_ok h g' \<and> g_name g' = g_name g \<and>
    (r = Ok i \<longrightarrow> i = sl_next_id (g_log g) \<and> log_entries (g_log g') = log_entries (g_log g) @ [(i, ts, p)] \<and>
       sl_next_id (g_log g') = sl_next_id (g_log g) + 1) \<and>
    (r = Err e \<longrightarrow> log_entries (g_log g') = log_entries (g_log g) \<and> sl_next_id (g_log g') = sl_next_id (g_log g))"
  proof (cases ra)
    case (Ok j)
    let ?v = "\<lparr>le_id = j, le_timestamp = ts, le_len = length p, le_payload = p\<rparr>"
    have co: "gl.coherent h (g_name g) (g_log g) (g_cache g)" using ok by (simp add: group_ok_def)
    have "\<exists>c. lru_insert now (build_key h (g_name g) j) ?v (g_cache g) = Some c \<and> gl.coherent h (g_name g) l c"
      by (rule gl.coherent_append [OF co ids]) (use app Ok in \<open>simp_all add: entry_of_cached_def\<close>)
    then obtain c where c: "lru_insert now (build_key h (g_name g) j) ?v (g_cache g) = Some c"
      "gl.coherent h (g_name g) l c" by blast
    then have "r = Ok j" "g' = g\<lparr>g_log := l, g_cache := c\<rparr>"
      using add app Ok by (auto simp: group_add_def cache_put_def)
    with c(2) seglog.app_ok [OF inv ids] app Ok show ?thesis by (auto simp: group_ok_def)
  next
    case (Err x)
    then have "r = Err (GLogError x)" "g' = g\<lparr>g_log := l\<rparr>" using add app by (auto simp: group_add_def)
    moreover have "gl.coherent h (g_name g) l (g_cache g)"
      using gl.coherent_failed_append [of h "g_name g" "g_log g" "g_cache g"] ok app Err by (auto simp: group_ok_def)
    ultimately show ?thesis using seglog.app_err [OF inv] app Err by (auto simp: group_ok_def)
  next
    case (Fault x)
    with add app nf show ?thesis by (auto simp: group_add_def)
  qed
  then show "group_ok h g'" "g_name g' = g_name g"
    "r = Ok i \<Longrightarrow> i = sl_next_id (g_log g) \<and> log_entries (g_log g') = log_entries (g_log g) @ [(i, ts, p)] \<and>
       sl_next_id (g_log g') = sl_next_id (g_log g) + 1"
    "r = Err e \<Longrightarrow> log_entries (g_log g') = log_entries (g_log g) \<and> sl_next_id (g_log g') = sl_next_id (g_log g)"
    by blast+
qed

lemma group_read_correct:
  assumes ok: "group_ok h g" and rd: "group_read h now i g = (r, g')"
  shows "group_ok h g'" "g_name g' = g_name g" "g_log g' = g_log g"
    "r = map_err GLogError (log_read i (g_log g)) \<or>
     (\<exists>e \<in> set (log_entries (g_log g)). r = Ok e \<and> build_key h (g_name g) (fst e) = build_key h (g_name g) i)"
    "no_collision h (g_name g) (log_entries (g_log g)) i \<Longrightarrow> r = map_err GLogError (log_read i (g_log g))"
proof -
  have co: "gl.coherent h (g_name g) (g_log g) (g_cache g)" using ok by (simp add: group_ok_def)
  obtain x c where get: "lru_get now (build_key h (g_name g) i) (g_cache g) = Some (x, c)"
    "gl.coherent h (g_name g) (g_log g) c"
    and hit: "\<And>v. x = Some v \<Longrightarrow> entry_of_cached v \<in> set (log_entries (g_log g)) \<and>
      build_key h (g_name g) (fst (entry_of_cached v)) = build_key h (g_name g) i"
    using gl.coherent_get [OF co, of now i] by blast
  have g': "g' = g\<lparr>g_cache := c\<rparr>"
    using rd get by (auto simp: group_read_def split: option.splits)
  with get show "group_ok h g'" "g_name g' = g_name g" "g_log g' = g_log g"
    by (simp_all add: group_ok_def)
  have r: "r = (case x of None \<Rightarrow> map_err GLogError (log_read i (g_log g)) | Some v \<Rightarrow> Ok (entry_of_cached v))"
    using rd get by (auto simp: group_read_def entry_of_cached_def split: option.splits)
  show "r = map_err GLogError (log_read i (g_log g)) \<or>
     (\<exists>e \<in> set (log_entries (g_log g)). r = Ok e \<and> build_key h (g_name g) (fst e) = build_key h (g_name g) i)"
    using r hit by (cases x) auto
  show "r = map_err GLogError (log_read i (g_log g))" if nc: "no_collision h (g_name g) (log_entries (g_log g)) i"
  proof (cases x)
    case (Some v)
    have "log_read i (g_log g) = Ok (entry_of_cached v)"
      by (rule gl.hit_is_read [of _ _ h "g_name g"]) (use hit [OF Some] group_okD [OF ok] nc in \<open>auto simp: no_collision_def\<close>)
    with r Some show ?thesis by simp
  qed (use r in simp)
qed

lemma invalidate_all_ok:
  assumes "lru_inv (g_cache g)"
    "lru.holds (\<lambda>k v. k \<in> build_key h (g_name g) ` set ids \<or> P k v) (g_cache g)"
  shows "\<exists>g'. invalidate_all h ids g = Some g' \<and> g_name g' = g_name g \<and> g_log g' = g_log g \<and>
    lru_inv (g_cache g') \<and> lru.holds P (g_cache g')"
  using assms
proof (induction ids arbitrary: g)
  case (Cons i ids)
  obtain r c where c: "lru_remove (build_key h (g_name g) i) (g_cache g) = Some (r, c)" "lru_inv c"
    "lru.holds (\<lambda>k v. k \<in> build_key h (g_name g) ` set ids \<or> P k v) c"
    using gl.remove_stale [OF Cons.prems] by blast
  then show ?case
    using Cons.IH [of "g\<lparr>g_cache := c\<rparr>"] by (auto simp: cache_invalidate_def)
qed (simp add: lru.holds_def)

lemma group_remove_correct:
  assumes ok: "group_ok h g"
  shows "\<exists>g'. group_remove h n g = (Ok (), g') \<and> group_ok h g' \<and> g_name g' = g_name g \<and>
    log_entries (g_log g') = filter (\<lambda>(i, e). n \<le> i) (log_entries (g_log g)) \<and>
    sl_next_id (g_log g') = sl_next_id (g_log g)"
proof -
  have co: "gl.coherent h (g_name g) (g_log g) (g_cache g)" using ok by (simp add: group_ok_def)
  obtain ids l where tr: "log_trim n (g_log g) = (Ok ids, l)" "log_inv l" "sl_next_id l = sl_next_id (g_log g)"
    "log_entries l = filter (\<lambda>(i, e). n \<le> i) (log_entries (g_log g))"
    using seglog.trim_ok [OF group_okD [OF ok], of n] by auto
  note st = gl.trim_stale [OF co tr(1)]
  have "lru_inv (g_cache (g\<lparr>g_log := l\<rparr>))" using co by (simp add: gl.coherent_def)
  moreover have "lru.holds (\<lambda>k v. k \<in> build_key h (g_name (g\<lparr>g_log := l\<rparr>)) ` set ids \<or> gl.cached_live h (g_name g) l k v)
      (g_cache (g\<lparr>g_log := l\<rparr>))"
    using st(2) by simp
  ultimately obtain g' where g': "invalidate_all h ids (g\<lparr>g_log := l\<rparr>) = Some g'" "g_name g' = g_name g"
    "g_log g' = l" "lru_inv (g_cache g')" "lru.holds (gl.cached_live h (g_name g) l) (g_cache g')"
    using invalidate_all_ok [of "g\<lparr>g_log := l\<rparr>" h ids "gl.cached_live h (g_name g) l"] by auto
  then have "group_ok h g'" using tr(2) by (simp add: group_ok_def gl.coherent_def)
  with g' tr show ?thesis by (simp add: group_remove_def)
qed

section \<open>Range reads\<close>

lemma set_id_range: "set (id_range a b) = {i. a \<le> i \<and> i \<le> b}"
proof -
  have "i \<in> set (id_range a b) \<longleftrightarrow> unat a \<le> unat i \<and> unat i \<le> unat b" for i
  proof
    assume "i \<in> set (id_range a b)"
    then obtain n where n: "unat a \<le> n" "n \<le> unat b" "i = word_of_nat n"
      by (auto simp: id_range_def less_Suc_eq_le)
    then have "n < 2 ^ 64" using unsigned_less [of b, where ?'a = nat] by simp
    with n show "unat a \<le> unat i \<and> unat i \<le> unat b" by (simp add: unat_of_nat)
  next
    assume "unat a \<le> unat i \<and> unat i \<le> unat b"
    then have "unat i \<in> set [unat a..<Suc (unat b)]"
      by (simp only: set_upt atLeastLessThan_iff less_Suc_eq_le)
    then show "i \<in> set (id_range a b)"
      unfolding id_range_def list.set_map by (intro image_eqI [of _ _ "unat i"]) simp_all
  qed
  then show ?thesis by (auto simp: word_le_nat_alt)
qed

lemma sorted_id_range: "sorted_wrt (<) (id_range a b)"
proof -
  have "word_of_nat x < (word_of_nat y :: u64)" if "x < y" "y \<le> unat b" for x y
  proof -
    have "y < 2 ^ 64" using that(2) unsigned_less [of b, where ?'a = nat] by simp
    with that(1) show ?thesis by (simp add: word_less_nat_alt unat_of_nat)
  qed
  then show ?thesis
    unfolding id_range_def sorted_wrt_map by (intro sorted_wrt_mono_rel [OF _ sorted_wrt_upt]) auto
qed

lemma read_cached_ok:
  assumes "gl.coherent h name l c" "\<forall>i \<in> set ids. no_collision h name (log_entries l) i"
  shows "\<exists>es b c'. read_cached h now name ids c = Some (es, b, c') \<and> gl.coherent h name l c' \<and>
    (b \<longrightarrow> map Ok es = map (\<lambda>i. log_read i l) ids)"
  using assms
proof (induction ids arbitrary: c now)
  case (Cons i ids)
  obtain x c1 where get: "lru_get (now 0) (build_key h name i) c = Some (x, c1)" "gl.coherent h name l c1"
    and hit: "\<And>v. x = Some v \<Longrightarrow> entry_of_cached v \<in> set (log_entries l) \<and>
      build_key h name (fst (entry_of_cached v)) = build_key h name i"
    using gl.coherent_get [OF Cons.prems(1), of "now 0" i] by blast
  show ?case
  proof (cases x)
    case None
    with get show ?thesis by (intro exI [of _ "[]"] exI [of _ False] exI [of _ c1]) simp
  next
    case (Some v)
    have "log_read i l = Ok (entry_of_cached v)"
      by (rule gl.hit_is_read [of _ _ h name])
        (use hit [OF Some] Cons.prems in \<open>auto simp: no_collision_def gl.coherent_def\<close>)
    moreover obtain es b c' where "read_cached h (\<lambda>n. now (Suc n)) name ids c1 = Some (es, b, c')"
      "gl.coherent h name l c'" "b \<longrightarrow> map Ok es = map (\<lambda>i. log_read i l) ids"
      using Cons.IH [OF get(2), of "\<lambda>n. now (Suc n)"] Cons.prems(2) by auto
    ultimately show ?thesis
      using get(1) Some by (auto simp: entry_of_cached_def [of v])
  qed
qed (auto intro: exI [of _ True])

text \<open>When every id of a range is live, the entries in id order are the range of the log.\<close>

lemma full_range:
  assumes inv: "log_inv l" and all: "map Ok es = map (\<lambda>i. log_read i l) (id_range a b)"
  shows "es = filter (\<lambda>(i, e). a \<le> i \<and> i \<le> b) (log_entries l)" (is "_ = ?F")
proof -
  let ?v = "\<lambda>i. (i, the (map_of (log_entries l) i))"
  have read: "\<exists>x. map_of (log_entries l) i = Some x" if "i \<in> set (id_range a b)" for i
  proof -
    have "log_read i l \<in> set (map Ok es)" using all that by simp
    then show ?thesis by (auto simp: seglog.read_is_lookup [OF inv] split: option.splits)
  qed
  have "map (\<lambda>i. log_read i l) (id_range a b) = map Ok (map ?v (id_range a b))"
    using read by (fastforce simp: seglog.read_is_lookup [OF inv] split: prod.split)
  then have es: "es = map ?v (id_range a b)"
    using all by (metis (no_types, lifting) inj_map_eq_map injI result.inject(1))
  have "i \<in> set (map fst ?F) \<longleftrightarrow> i \<in> set (id_range a b)" for i
    using read [of i] map_of_eq_None_iff [of "log_entries l" i]
    by (auto simp: filter_key_map_fst set_id_range)
  then have "set (map fst ?F) = set (id_range a b)" by blast
  moreover have "sorted_wrt (<) (map fst ?F)"
    unfolding filter_key_map_fst using seglog.ids_sorted [OF inv] by (rule sorted_wrt_filter)
  ultimately have ids: "map fst ?F = id_range a b"
    using strict_sorted_equal [OF sorted_id_range] by blast
  have "?v (fst e) = e" if "e \<in> set ?F" for e
  proof -
    have "(fst e, snd e) \<in> set (log_entries l)" using that by simp
    then show ?thesis using map_of_is_SomeI [OF seglog.distinct_ids [OF inv], of "fst e" "snd e"] by simp
  qed
  then have "?F = map ?v (map fst ?F)" unfolding map_map by (intro map_idI [symmetric]) simp
  then show ?thesis using es ids by simp
qed

lemma group_read_range_correct:
  assumes ok: "group_ok h g" and ab: "a \<le> b" and cap: "with_capacity_ok 40 (unat (b - a + 1))"
    and nc: "\<forall>i. a \<le> i \<and> i \<le> b \<longrightarrow> no_collision h (g_name g) (log_entries (g_log g)) i"
  shows "\<exists>g'. group_read_range h now a b g =
      (Ok (filter (\<lambda>(i, e). a \<le> i \<and> i \<le> b) (log_entries (g_log g))), g') \<and>
    group_ok h g' \<and> g_name g' = g_name g \<and> g_log g' = g_log g"
proof -
  have co: "gl.coherent h (g_name g) (g_log g) (g_cache g)" using ok by (simp add: group_ok_def)
  obtain es x c where rc: "read_cached h now (g_name g) (id_range a b) (g_cache g) = Some (es, x, c)"
    "gl.coherent h (g_name g) (g_log g) c" "x \<longrightarrow> map Ok es = map (\<lambda>i. log_read i (g_log g)) (id_range a b)"
    using read_cached_ok [OF co, of "id_range a b" now] nc by (auto simp: set_id_range)
  have inv: "log_inv (g_log g)" using ok by (rule group_okD)
  let ?F = "filter (\<lambda>(i, e). a \<le> i \<and> i \<le> b) (log_entries (g_log g))"
  have "log_read_range a b (g_log g) = Ok ?F" using log_read_range_spec [OF inv] ab by auto
  moreover have "es = ?F" if x using full_range [OF inv] rc(3) that by blast
  ultimately have "group_read_range h now a b g = (Ok ?F, g\<lparr>g_cache := c\<rparr>)"
    using rc(1) cap by (auto simp: group_read_range_def Let_def)
  with rc(2) show ?thesis by (simp add: group_ok_def)
qed

text \<open>An inverted range never reads the cache.\<close>

lemma group_read_range_inverted:
  assumes "b < a"
  shows "group_read_range h now a b g =
    (if a = b + 1 then Ok [] else if \<not> with_capacity_ok 40 (unat (b - a + 1)) then Fault CapacityPanic
     else Fault RangePanic, g)"
proof -
  have "id_range a b = []"
    using assms by (simp add: id_range_def word_less_nat_alt)
  moreover have "b - a + 1 = b + 1 - a" by (simp add: algebra_simps)
  then have "unat (b - a + 1) = 0 \<longleftrightarrow> a = b + 1"
    using right_minus_eq [of "b + 1" a] by (simp only: unat_eq_zero) auto
  ultimately show ?thesis
    using assms by (auto simp: group_read_range_def Let_def log_read_range_def with_capacity_ok_def)
qed

end
