(* ===== verification/Log_Groups_Props.thy ===== *)
theory Log_Groups_Props
  imports Log_Groups
begin

text \<open>
  The properties of the log groups: coherence of the read cache with the log, isolation of groups,
  range reads on every branch, and the partial effect of a failed \<open>add_range\<close>.
\<close>

section \<open>Operations through the manager\<close>

lemma gm_okD:
  assumes "gm_ok h m" "hm_get (gm_groups m) name = Some g"
  shows "group_ok h g" "g_name g = name" "gm_entries m name = Some (log_entries (g_log g))"
  using assms by (auto simp: gm_ok_def gm_entries_def)

lemma gm_entriesE:
  assumes "gm_entries m name = Some es"
  obtains g where "hm_get (gm_groups m) name = Some g" "es = log_entries (g_log g)"
  using assms by (auto simp: gm_entries_def)

lemma gm_ok_put:
  "gm_ok h m \<Longrightarrow> group_ok h g \<Longrightarrow> g_name g = name \<Longrightarrow>
   gm_ok h (m\<lparr>gm_groups := hm_insert name g (gm_groups m)\<rparr>)"
  by (auto simp: gm_ok_def)

lemma gm_entries_put:
  "gm_entries (m\<lparr>gm_groups := hm_insert name g (gm_groups m)\<rparr>) =
     (gm_entries m)(name \<mapsto> log_entries (g_log g))"
  by (auto simp: gm_entries_def fun_eq_iff)

text \<open>A body that keeps its group well-formed keeps the manager well-formed.\<close>

lemma with_group_ok:
  assumes "gm_ok h m" "with_group name f m = (r, m')"
    and "\<And>g g'. hm_get (gm_groups m) name = Some g \<Longrightarrow> f g = (r, g') \<Longrightarrow> group_ok h g \<Longrightarrow>
      group_ok h g' \<and> g_name g' = g_name g"
  shows "gm_ok h m'"
proof (cases "hm_get (gm_groups m) name")
  case None
  with assms(1,2) show ?thesis by (simp add: with_group_def)
next
  case (Some g)
  obtain g' where "f g = (r, g')" "m' = m\<lparr>gm_groups := hm_insert name g' (gm_groups m)\<rparr>"
    using assms(2) Some by (auto simp: with_group_def split: prod.splits)
  with assms(3) [OF Some] gm_okD [OF assms(1) Some] gm_ok_put [OF assms(1)] show ?thesis by auto
qed

text \<open>Ids are spent after \<open>2 ^ 64 - 1\<close> appends to one group; \<open>n\<close> more fit.\<close>

definition ids_left :: "nat \<Rightarrow> group \<Rightarrow> bool" where
  "ids_left n g \<longleftrightarrow> unat (sl_next_id (g_log g)) + n < 2 ^ 64"

lemma ids_leftD: "ids_left (Suc n) g \<Longrightarrow> sl_next_id (g_log g) \<noteq> - 1"
  by (auto simp: ids_left_def unsigned_minus_1_eq_mask mask_eq_exp_minus_1)

text \<open>Entries with consecutive ids.\<close>

fun numbered :: "u64 \<Rightarrow> (u64 \<times> bytes) list \<Rightarrow> entry list" where
  "numbered i [] = []"
| "numbered i ((ts, p) # es) = (i, ts, p) # numbered (i + 1) es"

lemma group_add_rest_correct:
  assumes "group_ok h g" "ids_left (length es) g"
    "group_add_rest h alloc now j es g = (r, g')" "\<not> is_fault r"
  shows "group_ok h g' \<and> g_name g' = g_name g \<and>
    (\<exists>k \<le> length es. log_entries (g_log g') = log_entries (g_log g) @ numbered (sl_next_id (g_log g)) (take k es) \<and>
      (k = length es \<longrightarrow> r = Ok (if es = [] then j else sl_next_id (g_log g) + word_of_nat (length es - 1))) \<and>
      (k < length es \<longrightarrow> (\<exists>e. r = Err (GLogError e))))"
  using assms
proof (induction es arbitrary: g j alloc now)
  case (Cons e es)
  obtain ts p where e: "e = (ts, p)" by fastforce
  obtain ra g1 where add: "group_add h (alloc 0) (now 0) ts p g = (ra, g1)" by fastforce
  have ids: "sl_next_id (g_log g) \<noteq> - 1" using Cons.prems(2) ids_leftD by simp
  note A = group_add_correct [OF Cons.prems(1) ids add]
  show ?case
  proof (cases ra)
    case (Ok i)
    then have g1: "group_ok h g1" "g_name g1 = g_name g" "i = sl_next_id (g_log g)"
      "log_entries (g_log g1) = log_entries (g_log g) @ [(i, ts, p)]"
      "sl_next_id (g_log g1) = sl_next_id (g_log g) + 1" using A by auto
    have "ids_left (length es) g1"
      using Cons.prems(2) unat_plus_one [OF ids] g1(5) by (simp add: ids_left_def)
    moreover have "group_add_rest h (\<lambda>n. alloc (Suc n)) (\<lambda>n. now (Suc n)) i es g1 = (r, g')"
      using Cons.prems(3) add e Ok by simp
    ultimately obtain k where k: "group_ok h g'" "g_name g' = g_name g1" "k \<le> length es"
      "log_entries (g_log g') = log_entries (g_log g1) @ numbered (sl_next_id (g_log g1)) (take k es)"
      "k = length es \<longrightarrow> r = Ok (if es = [] then i else sl_next_id (g_log g1) + word_of_nat (length es - 1))"
      "k < length es \<longrightarrow> (\<exists>e. r = Err (GLogError e))"
      using Cons.IH [OF g1(1)] Cons.prems(4) by metis
    then have "log_entries (g_log g') = log_entries (g_log g) @ numbered (sl_next_id (g_log g)) (take (Suc k) (e # es))"
      using g1 e by simp
    moreover have "Suc k = length (e # es) \<longrightarrow> r = Ok (sl_next_id (g_log g) + word_of_nat (length es))"
      using k(5) g1(3,5) by (cases es) (simp_all add: algebra_simps)
    ultimately show ?thesis
      using k(1-3,6) g1(2) by (intro conjI exI [of _ "Suc k"]) simp_all
  next
    case (Err x)
    then have "r = Err x" "g' = g1" "\<exists>y. x = GLogError y"
      using Cons.prems(3) add e by (auto simp: group_add_def split: prod.splits result.splits option.splits)
    then show ?thesis using A(1,2,4) Err by (intro conjI exI [of _ 0]) simp_all
  next
    case (Fault x)
    then show ?thesis using Cons.prems(3,4) add e by auto
  qed
qed auto

text \<open>An \<open>add_range\<close> is the loop over all its entries.\<close>

lemma group_add_range_rest:
  "group_add_range h alloc now e es g =
     (case group_add_rest h alloc now 0 (e # es) g of
        (Ok last_id, g') \<Rightarrow> (case group_add h (alloc 0) (now 0) (fst e) (snd e) g of
           (Ok first_id, _) \<Rightarrow> (Ok (first_id, last_id), g') | (Err x, _) \<Rightarrow> (Err x, g') | (Fault p, _) \<Rightarrow> (Fault p, g'))
      | (Err x, g') \<Rightarrow> (Err x, g')
      | (Fault p, g') \<Rightarrow> (Fault p, g'))"
  by (cases e) (auto simp: group_add_range_def split: prod.split result.split)

lemma group_add_range_correct:
  assumes "group_ok h g" "ids_left (length (e # es)) g"
    "group_add_range h alloc now e es g = (r, g')" "\<not> is_fault r"
  defines "nid \<equiv> sl_next_id (g_log g)"
  shows "group_ok h g' \<and> g_name g' = g_name g \<and>
    (\<exists>k \<le> length (e # es). log_entries (g_log g') = log_entries (g_log g) @ numbered nid (take k (e # es)) \<and>
      (k = length (e # es) \<longrightarrow> r = Ok (nid, nid + word_of_nat (length es))) \<and>
      (k < length (e # es) \<longrightarrow> (\<exists>x. r = Err (GLogError x))))"
proof -
  obtain rr g2 where rest: "group_add_rest h alloc now 0 (e # es) g = (rr, g2)" by fastforce
  obtain ra g1 where add: "group_add h (alloc 0) (now 0) (fst e) (snd e) g = (ra, g1)" by fastforce
  have def: "(r, g') = (case rr of Ok j \<Rightarrow> (case ra of Ok i \<Rightarrow> (Ok (i, j), g2) | Err x \<Rightarrow> (Err x, g2) | Fault p \<Rightarrow> (Fault p, g2))
      | Err x \<Rightarrow> (Err x, g2) | Fault p \<Rightarrow> (Fault p, g2))"
    using assms(3) by (simp only: group_add_range_rest rest add prod.case)
  have nf: "\<not> is_fault rr" and g': "g' = g2"
    using def assms(4) by (auto split: result.splits)
  have first: "ra = Ok i \<Longrightarrow> i = nid" for i
    using group_add_correct(3) [OF assms(1) ids_leftD add] assms(2) by (simp add: nid_def)
  have ra: "\<exists>i. ra = Ok i" if "\<exists>i. rr = Ok i"
    using rest that add by (cases e; cases ra) auto
  have ok: "r = Ok (nid, i)" if "rr = Ok i" for i
  proof -
    obtain j where "ra = Ok j" using ra \<open>rr = Ok i\<close> by blast
    then show ?thesis using def first [of j] \<open>rr = Ok i\<close> by simp
  qed
  have err: "r = Err x" if "rr = Err x" for x
    using def that by simp
  obtain k where k: "group_ok h g2" "g_name g2 = g_name g" "k \<le> length (e # es)"
    "log_entries (g_log g2) = log_entries (g_log g) @ numbered nid (take k (e # es))"
    "k = length (e # es) \<longrightarrow> rr = Ok (nid + word_of_nat (length es))"
    "k < length (e # es) \<longrightarrow> (\<exists>x. rr = Err (GLogError x))"
    using group_add_rest_correct [OF assms(1,2) rest nf, folded nid_def] by auto
  show ?thesis
    unfolding g' by (intro conjI exI [of _ k]) (use k ok err in blast)+
qed

section \<open>Histories\<close>

text \<open>
  Every state a manager can be in; a call that panics has no state after it, and a group is not
  appended to beyond its last id.
\<close>

inductive gm_reachable :: "(bytes \<Rightarrow> u64) \<Rightarrow> group_manager \<Rightarrow> bool" for h where
  created: "gm_reachable h gm_new"
| created_group: "gm_reachable h m \<Longrightarrow> create_group alloc name m = (r, m') \<Longrightarrow> \<not> is_fault r \<Longrightarrow> gm_reachable h m'"
| dropped: "gm_reachable h m \<Longrightarrow> drop_group name m = (r, m') \<Longrightarrow> gm_reachable h m'"
| added: "gm_reachable h m \<Longrightarrow> pred_option (ids_left 1) (hm_get (gm_groups m) name) \<Longrightarrow>
    gm_add h al now name ts p m = (ri, m') \<Longrightarrow> \<not> is_fault ri \<Longrightarrow> gm_reachable h m'"
| added_range: "gm_reachable h m \<Longrightarrow> pred_option (ids_left (length es)) (hm_get (gm_groups m) name) \<Longrightarrow>
    gm_add_range h alloc clock name es m = (rr, m') \<Longrightarrow> \<not> is_fault rr \<Longrightarrow> gm_reachable h m'"
| read: "gm_reachable h m \<Longrightarrow> gm_read h now name i m = (re, m') \<Longrightarrow> gm_reachable h m'"
| read_range: "gm_reachable h m \<Longrightarrow> gm_read_range h clock name a b m = (res, m') \<Longrightarrow> \<not> is_fault res \<Longrightarrow>
    gm_reachable h m'"
| removed: "gm_reachable h m \<Longrightarrow> gm_remove h name n m = (r, m') \<Longrightarrow> gm_reachable h m'"

lemma read_cached_coherent:
  assumes "gl.coherent h name l c"
  shows "\<exists>es b c'. read_cached h now name ids c = Some (es, b, c') \<and> gl.coherent h name l c'"
  using assms
proof (induction ids arbitrary: c now)
  case (Cons i ids)
  obtain x c1 where get: "lru_get (now 0) (build_key h name i) c = Some (x, c1)" "gl.coherent h name l c1"
    using gl.coherent_get [OF Cons.prems, of "now 0" i] by blast
  with Cons.IH [OF get(2), of "\<lambda>n. now (Suc n)"] show ?case by (cases x) auto
qed (auto intro: exI [of _ True])

lemma group_remove_ok:
  "group_ok h g \<Longrightarrow> group_remove h n g = (r, g') \<Longrightarrow> group_ok h g' \<and> g_name g' = g_name g"
  using group_remove_correct [of h g n] by auto

lemma group_read_range_ok:
  assumes "group_ok h g" "group_read_range h clock a b g = (r, g')"
  shows "group_ok h g' \<and> g_name g' = g_name g"
proof -
  have "gl.coherent h (g_name g) (g_log g) (g_cache g)" using assms(1) by (simp add: group_ok_def)
  from read_cached_coherent [OF this, of clock "id_range a b"] obtain es x c where
    rc: "read_cached h clock (g_name g) (id_range a b) (g_cache g) = Some (es, x, c)"
    "gl.coherent h (g_name g) (g_log g) c" by blast
  then have "g' = g \<or> g' = g\<lparr>g_cache := c\<rparr>"
    using assms(2) by (auto simp: group_read_range_def Let_def split: if_splits)
  then show ?thesis using assms(1) rc(2) by (auto simp: group_ok_def)
qed

lemma gm_reachable_ok: "gm_reachable h m \<Longrightarrow> gm_ok h m"
proof (induction rule: gm_reachable.induct)
  case created
  show ?case by (simp add: gm_ok_def gm_new_def)
next
  case (created_group m alloc name r m')
  then show ?case
    using group_new_ok gm_ok_put by (fastforce simp: create_group_def split: if_splits result.splits)
next
  case (dropped m name r m')
  then show ?case by (auto simp: gm_ok_def drop_group_def split: if_splits)
next
  case (added m name al now ts p ri m')
  show ?case
  proof (rule with_group_ok [OF added(5)])
    show "with_group name (group_add h al now ts p) m = (ri, m')" using added(3) by (simp add: gm_add_def)
  qed (use added group_add_correct(1,2) ids_leftD [of 0] in fastforce)
next
  case (added_range m es name alloc clock rr m')
  show ?case
  proof (cases es)
    case Nil
    with added_range show ?thesis by (simp add: gm_add_range_def)
  next
    case (Cons e es')
    show ?thesis
    proof (rule with_group_ok [OF added_range(5)])
      show "with_group name (group_add_range h alloc clock e es') m = (rr, m')"
        using added_range(3) Cons by (simp add: gm_add_range_def)
    qed (use added_range(2,4) Cons group_add_range_correct in fastforce)
  qed
next
  case (read m now name i re m')
  then show ?case
    using group_read_correct(1,2) by (intro with_group_ok [OF read(3)]) (auto simp: gm_read_def)
next
  case (read_range m clock name a b res m')
  then show ?case
    using group_read_range_ok by (intro with_group_ok [OF read_range(4)]) (auto simp: gm_read_range_def)
next
  case (removed m name n r m')
  then show ?case
    using group_remove_ok by (intro with_group_ok [OF removed(3)]) (auto simp: gm_remove_def)
qed

lemma fresh_group:
  obtains m g where "gm_reachable h m" "hm_get (gm_groups m) name = Some g" "gm_groups m = [(name, g)]"
    "group_ok h g" "log_entries (g_log g) = []" "sl_next_id (g_log g) = 1" "log_ready (g_log g)"
    "sl_write_cursor (g_log g) = 0" "g_name g = name"
proof -
  obtain l where l: "seglog_new (\<lambda>_. True) = Ok l" "log_ready l" "sl_write_cursor l = 0" by (rule fresh_log)
  let ?g = "\<lparr>g_name = name, g_log = l, g_cache = lru_new 100000 (30 * 10 ^ 9)\<rparr>"
  let ?m = "gm_new\<lparr>gm_groups := hm_insert name ?g (gm_groups gm_new)\<rparr>"
  have g: "group_new (\<lambda>_. True) name = Ok ?g" using l by (simp add: group_new_def)
  then have "create_group (\<lambda>_. True) name gm_new = (Ok (), ?m)"
    by (simp add: create_group_def gm_new_def)
  then have "gm_reachable h ?m" using gm_reachable.created_group [OF gm_reachable.created] by simp
  with that [of ?m ?g] group_new_ok [OF g] l show thesis by (simp add: gm_new_def)
qed

lemma first_add:
  assumes "HEADER_SIZE + length p \<le> SEGMENT_SIZE"
  obtains m m' where "gm_reachable h m" "gm_entries m = [name \<mapsto> []]"
    "pred_option (ids_left 1) (hm_get (gm_groups m) name)" "gm_add h True 0 name ts p m = (Ok 1, m')"
proof -
  obtain m g where m: "gm_reachable h m" "hm_get (gm_groups m) name = Some g" "gm_groups m = [(name, g)]"
    "group_ok h g" "log_entries (g_log g) = []" "sl_next_id (g_log g) = 1" "log_ready (g_log g)"
    "sl_write_cursor (g_log g) = 0" by (rule fresh_group)
  obtain r g' where add: "group_add h True 0 ts p g = (r, g')" by fastforce
  have "fst (append_entry True ts p (g_log g)) = Ok 1"
    using append_entry_outcome [OF group_okD [OF m(4)] m(7)] assms m(6,8) by (simp add: append_outcome_def)
  then obtain l where app: "append_entry True ts p (g_log g) = (Ok 1, l)" by (metis prod.collapse)
  have ids: "sl_next_id (g_log g) \<noteq> - 1" using m(6) by simp
  have co: "gl.coherent h (g_name g) (g_log g) (g_cache g)" using m(4) by (simp add: group_ok_def)
  have "r = Ok 1"
    using gl.coherent_append [OF co ids app, of "\<lparr>le_id = 1, le_timestamp = ts, le_len = length p, le_payload = p\<rparr>" 0]
      add app by (auto simp: group_add_def cache_put_def entry_of_cached_def)
  then have "gm_add h True 0 name ts p m = (Ok 1, m\<lparr>gm_groups := hm_insert name g' (gm_groups m)\<rparr>)"
    using add m(2) by (simp add: gm_add_def with_group_def)
  moreover have "gm_entries m = [name \<mapsto> []]" using m(3,5) by (auto simp: gm_entries_def)
  ultimately show thesis using that m(1,2,6) by (simp add: ids_left_def)
qed

lemma gm_add_entries:
  assumes "gm_reachable h m" "gm_entries m name = Some es"
    and "pred_option (ids_left 1) (hm_get (gm_groups m) name)" "gm_add h alloc now name ts p m = (r, m')"
  shows "(\<forall>i. r = Ok i \<longrightarrow> i \<notin> fst ` set es \<and> gm_entries m' = (gm_entries m)(name \<mapsto> es @ [(i, ts, p)])) \<and>
    (\<forall>e. r = Err e \<longrightarrow> gm_entries m' = gm_entries m)"
proof -
  obtain g where g: "hm_get (gm_groups m) name = Some g" "es = log_entries (g_log g)"
    using gm_entriesE [OF assms(2)] .
  note ok = gm_okD [OF gm_reachable_ok [OF assms(1)] g(1)]
  have ids: "sl_next_id (g_log g) \<noteq> - 1" using assms(3) g(1) ids_leftD [of 0] by simp
  obtain g' where ad: "group_add h alloc now ts p g = (r, g')"
    and m': "m' = m\<lparr>gm_groups := hm_insert name g' (gm_groups m)\<rparr>"
    using assms(4) g(1) by (auto simp: gm_add_def with_group_def split: prod.splits)
  have new: "sl_next_id (g_log g) \<notin> fst ` set es"
    using seglog.ids_below [OF group_okD [OF ok(1)]] g(2) by fastforce
  have "i \<notin> fst ` set es \<and> log_entries (g_log g') = es @ [(i, ts, p)]" if "r = Ok i" for i
    using group_add_correct(3) [OF ok(1) ids ad] that g(2) new by simp
  moreover have "log_entries (g_log g') = es" if "r = Err e" for e
    using group_add_correct(4) [OF ok(1) ids ad] that g(2) by auto
  ultimately show ?thesis
    using assms(2) unfolding m' gm_entries_put by (simp add: fun_upd_idem)
qed

lemma one_entry_group:
  assumes "HEADER_SIZE + length p \<le> SEGMENT_SIZE"
  obtains m where "gm_reachable h m" "gm_entries m = [name \<mapsto> [(1, ts, p)]]"
proof -
  obtain m m' where m: "gm_reachable h m" "gm_entries m = [name \<mapsto> []]"
    "pred_option (ids_left 1) (hm_get (gm_groups m) name)" "gm_add h True 0 name ts p m = (Ok 1, m')"
    using assms by (rule first_add)
  then have "gm_entries m' = [name \<mapsto> [(1, ts, p)]]" using gm_add_entries [OF m(1) _ m(3,4)] by simp
  with that gm_reachable.added [OF m(1,3,4)] show thesis by simp
qed

lemma gm_read_lookup:
  assumes "gm_reachable h m" "gm_entries m name = Some es" "no_collision h name es i"
  shows "fst (gm_read h now name i m) = (case map_of es i of
      None \<Rightarrow> Err (GLogError EntryNotFound) | Some (ts, p) \<Rightarrow> Ok (i, ts, p))"
proof -
  obtain g where g: "hm_get (gm_groups m) name = Some g" "es = log_entries (g_log g)"
    using gm_entriesE [OF assms(2)] .
  note ok = gm_okD [OF gm_reachable_ok [OF assms(1)] g(1)]
  obtain r g' where rd: "group_read h now i g = (r, g')" by fastforce
  have "r = map_err GLogError (log_read i (g_log g))"
    using group_read_correct(5) [OF ok(1) rd] assms(3) ok(2) g(2) by simp
  then show ?thesis
    using g rd by (auto simp: gm_read_def with_group_def seglog.read_is_lookup [OF group_okD [OF ok(1)]]
        split: option.split)
qed

lemma one_entry_read:
  obtains m where "gm_reachable h m" "gm_entries m = [''g'' \<mapsto> [(1, 9, [3])]]"
    "fst (gm_read h now ''g'' 1 m) = Ok (1, 9, [3])"
proof -
  obtain m where m: "gm_reachable h m" "gm_entries m = [''g'' \<mapsto> [(1, 9, [3])]]"
    by (rule one_entry_group [of "[3]" h "''g''" 9]) (simp add: HEADER_SIZE_def SEGMENT_SIZE_def)
  then have "fst (gm_read h now ''g'' 1 m) = Ok (1, 9, [3])"
    using gm_read_lookup [OF m(1), of "''g''" "[(1, 9, [3])]" 1 now] by (simp add: no_collision_def)
  with that m show thesis by blast
qed

section \<open>Properties\<close>

text \<open>
  C12. The cache is transparent: in every reachable state a read of an id whose hash collides with
  no other live id of the group answers exactly what the log holds for it, whether it is served
  from the cache or from the log.
\<close>

theorem group_read_coherent:
  assumes "gm_reachable h m" "gm_entries m name = Some es" "no_collision h name es i"
  shows "fst (gm_read h now name i m) = (case map_of es i of
      None \<Rightarrow> Err (GLogError EntryNotFound) | Some (ts, p) \<Rightarrow> Ok (i, ts, p))"
  using assms by (rule gm_read_lookup)

theorem group_read_coherent_witness:
  "\<exists>m. gm_reachable (\<lambda>_. 0) m \<and> fst (gm_read (\<lambda>_. 0) 5 ''g'' 1 m) = Ok (1, 9, [3])"
proof -
  obtain m where m: "gm_reachable (\<lambda>_. 0) m" "gm_entries m = [''g'' \<mapsto> [(1, 9, [3])]]"
    by (rule one_entry_group [of "[3]" "\<lambda>_. 0" "''g''" 9]) (simp add: HEADER_SIZE_def SEGMENT_SIZE_def)
  with group_read_coherent [OF m(1), of "''g''" "[(1, 9, [3])]" 1 5] show ?thesis
    by (auto simp: no_collision_def)
qed

text \<open>
  C13. No read is stale, even under hash collisions: whatever a read returns is a live entry of that
  very group (never one that was trimmed, or an entry of another group), and its id hashes to the
  same cache key as the id asked for.
\<close>

theorem group_read_live:
  assumes "gm_reachable h m" "fst (gm_read h now name i m) = Ok e"
  shows "\<exists>es. gm_entries m name = Some es \<and> e \<in> set es \<and> build_key h name (fst e) = build_key h name i"
proof -
  obtain g where g: "hm_get (gm_groups m) name = Some g"
    using assms(2) by (cases "hm_get (gm_groups m) name") (auto simp: gm_read_def with_group_def)
  note ok = gm_okD [OF gm_reachable_ok [OF assms(1)] g]
  obtain g' where rd: "group_read h now i g = (Ok e, g')"
    using assms(2) g by (auto simp: gm_read_def with_group_def split: prod.splits)
  have "e \<in> set (log_entries (g_log g)) \<and> fst e = i"
    if "Ok e = map_err GLogError (log_read i (g_log g))"
    using that by (auto simp: seglog.read_is_lookup [OF group_okD [OF ok(1)]] dest: map_of_SomeD split: option.splits)
  then show ?thesis using group_read_correct(4) [OF ok(1) rd] ok(2,3) by auto
qed

theorem group_read_live_witness:
  "\<exists>m es. gm_reachable (\<lambda>_. 0) m \<and> fst (gm_read (\<lambda>_. 0) 5 ''g'' 1 m) = Ok (1, 9, [3]) \<and>
     gm_entries m ''g'' = Some es \<and> (1, 9, [3]) \<in> set es"
proof -
  obtain m where m: "gm_reachable (\<lambda>_. 0) m" "fst (gm_read (\<lambda>_. 0) 5 ''g'' 1 m) = Ok (1, 9, [3])"
    by (rule one_entry_read)
  with group_read_live [OF m] show ?thesis by blast
qed

text \<open>
  An add touches one group only: on success the entry gets the next id and is appended to the
  entries of its group; on a log error no group changes its entries; unknown groups are refused.
\<close>

theorem group_add_isolated:
  assumes "gm_reachable h m" "gm_entries m name = Some es"
    and "pred_option (ids_left 1) (hm_get (gm_groups m) name)" "gm_add h alloc now name ts p m = (r, m')"
  shows "(\<forall>i. r = Ok i \<longrightarrow> i \<notin> fst ` set es \<and> gm_entries m' = (gm_entries m)(name \<mapsto> es @ [(i, ts, p)])) \<and>
    (\<forall>e. r = Err e \<longrightarrow> gm_entries m' = gm_entries m)"
  using assms by (rule gm_add_entries)

theorem group_add_isolated_witness:
  "\<exists>m m' r. gm_reachable (\<lambda>_. 0) m \<and> gm_add (\<lambda>_. 0) True 3 ''g'' 7 (replicate SEGMENT_SIZE 0) m = (r, m') \<and>
     r = Err (GLogError log_error.EntryTooLarge) \<and> gm_entries m' = gm_entries m"
proof -
  let ?p = "replicate SEGMENT_SIZE 0 :: bytes"
  obtain m g where m: "gm_reachable (\<lambda>_. 0) m" "hm_get (gm_groups m) ''g'' = Some g"
    "log_entries (g_log g) = []" "sl_next_id (g_log g) = 1"
    by (rule fresh_group [of "\<lambda>_. 0" "''g''"])
  obtain r m' where ad: "gm_add (\<lambda>_. 0) True 3 ''g'' 7 ?p m = (r, m')" by fastforce
  have e: "gm_entries m ''g'' = Some []" using m by (simp add: gm_entries_def)
  have ids: "pred_option (ids_left 1) (hm_get (gm_groups m) ''g'')" using m by (simp add: ids_left_def)
  have r: "r = Err (GLogError log_error.EntryTooLarge)"
    using ad m(2) by (auto simp: gm_add_def with_group_def group_add_def append_entry_def HEADER_SIZE_def)
  from group_add_isolated [OF m(1) e ids ad] r m(1) ad show ?thesis by blast
qed

text \<open>
  Remove trims the log of its group and the cache with it: it never fails, exactly the entries
  from the cutoff on remain, and a read below the cutoff reports \<open>EntryNotFound\<close> although the
  entry may have been cached a moment ago.
\<close>

theorem group_remove_invalidates:
  assumes "gm_reachable h m" "gm_entries m name = Some es" "i < n" "no_collision h name es i"
  shows "\<exists>m'. gm_remove h name n m = (Ok (), m') \<and>
    gm_entries m' = (gm_entries m)(name \<mapsto> filter (\<lambda>(j, e). n \<le> j) es) \<and>
    fst (gm_read h now name i m') = Err (GLogError EntryNotFound)"
proof -
  obtain g where g: "hm_get (gm_groups m) name = Some g" "es = log_entries (g_log g)"
    using gm_entriesE [OF assms(2)] .
  note ok = gm_okD [OF gm_reachable_ok [OF assms(1)] g(1)]
  obtain g' where g': "group_remove h n g = (Ok (), g')" "group_ok h g'" "g_name g' = g_name g"
    "log_entries (g_log g') = filter (\<lambda>(j, e). n \<le> j) es"
    using group_remove_correct [OF ok(1), of n] g(2) by auto
  let ?m' = "m\<lparr>gm_groups := hm_insert name g' (gm_groups m)\<rparr>"
  obtain r g2 where rd: "group_read h now i g' = (r, g2)" by fastforce
  have "no_collision h (g_name g') (log_entries (g_log g')) i"
    using assms(4) g'(3,4) ok(2) by (auto simp: no_collision_def)
  then have "r = map_err GLogError (log_read i (g_log g'))"
    using group_read_correct(5) [OF g'(2) rd] by simp
  moreover have "log_read i (g_log g') = Err EntryNotFound"
    using seglog.read_is_lookup [OF group_okD [OF g'(2)], of i] g'(4) assms(3)
    by (simp add: map_of_filter_key)
  ultimately have "fst (gm_read h now name i ?m') = Err (GLogError EntryNotFound)"
    using rd by (simp add: gm_read_def with_group_def)
  moreover have "gm_remove h name n m = (Ok (), ?m')"
    using g(1) g'(1) by (simp add: gm_remove_def with_group_def)
  ultimately show ?thesis by (intro exI [of _ ?m'] conjI) (simp_all only: gm_entries_put g'(4))
qed

theorem group_remove_invalidates_witness:
  "\<exists>m m'. gm_reachable (\<lambda>_. 0) m \<and> fst (gm_read (\<lambda>_. 0) 5 ''g'' 1 m) = Ok (1, 9, [3]) \<and>
     gm_remove (\<lambda>_. 0) ''g'' 2 m = (Ok (), m') \<and>
     fst (gm_read (\<lambda>_. 0) 6 ''g'' 1 m') = Err (GLogError EntryNotFound)"
proof -
  obtain m where m: "gm_reachable (\<lambda>_. 0) m" "gm_entries m = [''g'' \<mapsto> [(1, 9, [3])]]"
    "fst (gm_read (\<lambda>_. 0) 5 ''g'' 1 m) = Ok (1, 9, [3])" by (rule one_entry_read)
  with group_remove_invalidates [OF m(1), of "''g''" "[(1, 9, [3])]" 1 2 6] show ?thesis
    by (auto simp: no_collision_def)
qed

text \<open>
  C38. What a range read of an existing group does on every range, when no id of the range has a hash
  collision with a live entry's key. The result is reserved first, with the length
  \<open>end - start + 1\<close> in 64 bits: a length whose entries would exceed \<open>isize::MAX\<close> bytes panics, which
  covers \<open>1..=u64::MAX\<close>, so asking for everything from an id on is no way to read a log. A range
  whose reservation is granted returns the live entries in it in id order (from the cache when every
  id is cached, from the log otherwise); \<open>start = end + 1\<close> returns nothing; any other inverted range
  panics, in the reservation or in \<open>BTreeMap::range\<close>, which documents a panic for \<open>start > end\<close>.
\<close>

theorem group_read_range_exact:
  assumes "gm_reachable h m" "gm_entries m name = Some es"
    and "\<forall>i. a \<le> i \<and> i \<le> b \<longrightarrow> no_collision h name es i"
  shows "fst (gm_read_range h clock name a b m) =
      (if \<not> with_capacity_ok 40 (unat (b - a + 1)) then Fault CapacityPanic
       else if a \<le> b then Ok (filter (\<lambda>(i, e). a \<le> i \<and> i \<le> b) es)
       else if a = b + 1 then Ok [] else Fault RangePanic) \<and>
    fst (gm_read_range h clock name 1 (- 1) m) = Fault CapacityPanic"
proof -
  obtain g where g: "hm_get (gm_groups m) name = Some g" "es = log_entries (g_log g)"
    using gm_entriesE [OF assms(2)] .
  note ok = gm_okD [OF gm_reachable_ok [OF assms(1)] g(1)]
  have r: "fst (gm_read_range h clock name i j m) = fst (group_read_range h clock i j g)" for i j
    using g(1) by (simp add: gm_read_range_def with_group_def split: prod.split)
  have full: "fst (group_read_range h clock i j g) = Fault CapacityPanic" if "\<not> with_capacity_ok 40 (unat (j - i + 1))" for i j
    using that by (simp add: group_read_range_def)
  have "fst (group_read_range h clock a b g) = Ok (filter (\<lambda>(i, e). a \<le> i \<and> i \<le> b) es)"
    if "a \<le> b" "with_capacity_ok 40 (unat (b - a + 1))"
    using group_read_range_correct [OF ok(1) that, of clock] assms(3) ok(2) g(2) by auto
  moreover have "\<not> with_capacity_ok 40 (unat (- 1 - 1 + 1 :: u64))"
    by (simp add: with_capacity_ok_def unsigned_minus_1_eq_mask mask_eq_exp_minus_1)
  ultimately show ?thesis
    using group_read_range_inverted [of b a h clock g] full [of b a] full [of "- 1" 1] by (auto simp: not_le r)
qed

theorem group_read_range_exact_witness:
  "\<exists>m. gm_reachable (\<lambda>_. 0) m \<and>
     fst (gm_read_range (\<lambda>_. 0) (\<lambda>_. 5) ''g'' 1 1 m) = Ok [(1, 9, [3])] \<and>
     fst (gm_read_range (\<lambda>_. 0) (\<lambda>_. 5) ''g'' 1 (- 1) m) = Fault CapacityPanic \<and>
     fst (gm_read_range (\<lambda>_. 0) (\<lambda>_. 5) ''g'' 9 2 m) = Fault CapacityPanic"
proof -
  obtain m where m: "gm_reachable (\<lambda>_. 0) m" "gm_entries m = [''g'' \<mapsto> [(1, 9, [3])]]"
    by (rule one_entry_read)
  have e: "gm_entries m ''g'' = Some [(1, 9, [3])]" using m by simp
  have "\<forall>i. 1 \<le> i \<and> i \<le> 1 \<longrightarrow> no_collision (\<lambda>_. 0) ''g'' [(1, 9, [3])] i"
    by (auto simp: no_collision_def dest: order.antisym)
  from group_read_range_exact [OF m(1) e this, of "\<lambda>_. 5"]
  have "fst (gm_read_range (\<lambda>_. 0) (\<lambda>_. 5) ''g'' 1 1 m) = Ok [(1, 9, [3])]"
    "fst (gm_read_range (\<lambda>_. 0) (\<lambda>_. 5) ''g'' 1 (- 1) m) = Fault CapacityPanic"
    by (simp_all add: with_capacity_ok_def)
  moreover have inverted: "\<forall>i. 9 \<le> i \<and> i \<le> 2 \<longrightarrow> no_collision (\<lambda>_. 0) ''g'' [(1, 9, [3])] i"
    by (auto dest: order.trans)
  have "fst (gm_read_range (\<lambda>_. 0) (\<lambda>_. 5) ''g'' 9 2 m) = Fault CapacityPanic"
    using group_read_range_exact [OF m(1) e inverted, of "\<lambda>_. 5"] by (simp add: with_capacity_ok_def)
  ultimately show ?thesis using m(1) by blast
qed

text \<open>
  \<open>add_range\<close> is not atomic: when it fails, the entries before the failing one stay appended,
  with consecutive ids, and when it succeeds all of them are, and the ids returned are the first
  and the last.
\<close>

theorem group_add_range_prefix:
  assumes "gm_reachable h m" "hm_get (gm_groups m) name = Some g" "ids_left (length (e # es)) g"
    and "gm_add_range h alloc clock name (e # es) m = (r, m')" "\<not> is_fault r"
  shows "\<exists>k \<le> length (e # es).
    gm_entries m' = (gm_entries m)(name \<mapsto> log_entries (g_log g) @ numbered (sl_next_id (g_log g)) (take k (e # es))) \<and>
    (k = length (e # es) \<longrightarrow> r = Ok (sl_next_id (g_log g), sl_next_id (g_log g) + word_of_nat (length es))) \<and>
    (k < length (e # es) \<longrightarrow> (\<exists>x. r = Err (GLogError x)))"
proof -
  obtain g' where ad: "group_add_range h alloc clock e es g = (r, g')"
    and m': "m' = m\<lparr>gm_groups := hm_insert name g' (gm_groups m)\<rparr>"
    using assms(2,4) by (auto simp: gm_add_range_def with_group_def split: prod.splits)
  have "group_ok h g" using gm_okD(1) [OF gm_reachable_ok [OF assms(1)] assms(2)] .
  from group_add_range_correct [OF this assms(3) ad assms(5)] obtain k where
    "k \<le> length (e # es)" "log_entries (g_log g') = log_entries (g_log g) @ numbered (sl_next_id (g_log g)) (take k (e # es))"
    "k = length (e # es) \<longrightarrow> r = Ok (sl_next_id (g_log g), sl_next_id (g_log g) + word_of_nat (length es))"
    "k < length (e # es) \<longrightarrow> (\<exists>x. r = Err (GLogError x))" by blast
  then show ?thesis unfolding m' gm_entries_put by (intro exI [of _ k]) simp
qed

theorem group_add_range_prefix_witness:
  "\<exists>m m' r. gm_reachable (\<lambda>_. 0) m \<and>
     gm_add_range (\<lambda>_. 0) (\<lambda>_. True) (\<lambda>_. 3) ''g'' [(7, replicate SEGMENT_SIZE 0)] m = (r, m') \<and>
     r = Err (GLogError log_error.EntryTooLarge) \<and> gm_entries m' ''g'' = Some []"
proof -
  let ?e = "(7, replicate SEGMENT_SIZE 0) :: u64 \<times> bytes"
  obtain m g where m: "gm_reachable (\<lambda>_. 0) m" "hm_get (gm_groups m) ''g'' = Some g"
    "log_entries (g_log g) = []" "sl_next_id (g_log g) = 1"
    by (rule fresh_group [of "\<lambda>_. 0" "''g''"])
  obtain r m' where ad: "gm_add_range (\<lambda>_. 0) (\<lambda>_. True) (\<lambda>_. 3) ''g'' [?e] m = (r, m')" by fastforce
  have r: "r = Err (GLogError log_error.EntryTooLarge)"
    using ad m(2) by (auto simp: gm_add_range_def group_add_range_def with_group_def group_add_def append_entry_def HEADER_SIZE_def)
  have ids: "ids_left (length [?e]) g" using m by (simp add: ids_left_def)
  have nf: "\<not> is_fault r" using r by simp
  obtain k where k: "k \<le> length [?e]"
    "gm_entries m' = (gm_entries m)(''g'' \<mapsto> log_entries (g_log g) @ numbered (sl_next_id (g_log g)) (take k [?e]))"
    "k = length [?e] \<longrightarrow> r = Ok (sl_next_id (g_log g), sl_next_id (g_log g) + word_of_nat (length ([] :: (u64 \<times> bytes) list)))"
    using group_add_range_prefix [OF m(1,2) ids ad nf] by blast
  have "k = 0" using k(1,3) r by (cases k) auto
  with k(2) m(1,3) ad r show ?thesis by auto
qed

end
