(* ===== verification/Db.thy ===== *)
theory Db
  imports Seg_List_Props Kv Log_Groups_Props Aof
begin

text \<open>
  The database (\<open>server/src/db/db.rs\<close>): the key-value store, the list and the log groups behind one
  interface that writes every successful change to the append-only file and to an optional event
  channel, the replay of that file at start-up, and the variant of the replay a follower runs.

  The readings and choices of the environment during one call (hash function, allocator, clocks,
  iteration order) are collected in \<open>env\<close>. The writer's queue is the list of entries sent to it.
  The read-write locks serialise calls and are not modelled; a panic has no result (\<open>Fault\<close>, or
  \<open>None\<close> in a replay).
\<close>

section \<open>Data\<close>

record env =
  ev_hash :: "bytes \<Rightarrow> u64"
  ev_alloc :: "nat \<Rightarrow> bool"
  ev_grow :: "nat \<Rightarrow> bool"
  ev_clock :: "nat \<Rightarrow> nat"
  ev_now :: "nat \<Rightarrow> i64"
  ev_iter :: kv_iter

record stores =
  st_kv :: kv_store
  st_list :: seg_list
  st_gm :: group_manager

record db =
  d_st :: stores
  d_aof :: "aof_entry list"
  d_event_tx :: "aof_entry list option"

datatype db_error =
    LogCreateGroupError group_error
  | LogDropGroupError group_error
  | LogAppendError group_error
  | LogAppendRangeError group_error
  | LogReadError group_error
  | LogReadRangeError group_error
  | LogRemoveError group_error
  | LogGroupStatsError group_error
  | KVSetError string
  | KVGetError string
  | KVDelError string
  | KVKeysError string
  | KVFlushError string
  | ListPushError list_error
  | ListPushRangeError list_error
  | ListPopError list_error
  | ListPopRangeError list_error
  | ListPopCountError list_error
  | ListLenError list_error
  | ListFlushError list_error

section \<open>Operations\<close>

text \<open>\<open>event_tx.send\<close> and \<open>aof.write\<close> followed by it.\<close>

definition send_event :: "aof_entry \<Rightarrow> db \<Rightarrow> db" where
  "send_event e s = s\<lparr>d_event_tx := map_option (\<lambda>es. es @ [e]) (d_event_tx s)\<rparr>"

definition emit :: "aof_entry \<Rightarrow> db \<Rightarrow> db" where
  "emit e s = send_event e (s\<lparr>d_aof := d_aof s @ [e]\<rparr>)"

text \<open>The end of a changing operation: \<open>map_err(..)?\<close>, then the entry is recorded.\<close>

definition finish :: "('e \<Rightarrow> db_error) \<Rightarrow> aof_entry \<Rightarrow> ('e, 'a) result \<Rightarrow> db \<Rightarrow> (db_error, 'a) result \<times> db" where
  "finish c e r s = (case r of Ok x \<Rightarrow> (Ok x, emit e s) | Err x \<Rightarrow> (Err (c x), s) | Fault p \<Rightarrow> (Fault p, s))"

definition set_kv :: "kv_store \<Rightarrow> db \<Rightarrow> db" where
  "set_kv k s = s\<lparr>d_st := d_st s\<lparr>st_kv := k\<rparr>\<rparr>"

definition set_list :: "seg_list \<Rightarrow> db \<Rightarrow> db" where
  "set_list l s = s\<lparr>d_st := d_st s\<lparr>st_list := l\<rparr>\<rparr>"

definition set_gm :: "group_manager \<Rightarrow> db \<Rightarrow> db" where
  "set_gm m s = s\<lparr>d_st := d_st s\<lparr>st_gm := m\<rparr>\<rparr>"

definition db_kv_set :: "env \<Rightarrow> string \<Rightarrow> string \<Rightarrow> bytes \<Rightarrow> i64 \<Rightarrow> db \<Rightarrow> (db_error, unit) result \<times> db" where
  "db_kv_set v db key val ttl s =
     finish KVSetError (KvSet db key val ttl) (Ok ())
       (set_kv (kv_set (ev_iter v) (ev_now v 0) (ev_now v 1) db key val ttl (st_kv (d_st s))) s)"

definition db_kv_get :: "env \<Rightarrow> string \<Rightarrow> string \<Rightarrow> db \<Rightarrow> (db_error, db_entry option) result \<times> db" where
  "db_kv_get v db key s =
     (let (r, k) = kv_get (ev_now v 0) (ev_now v 1) db key (st_kv (d_st s)) in (Ok r, set_kv k s))"

definition db_kv_del :: "string \<Rightarrow> string \<Rightarrow> db \<Rightarrow> (db_error, unit) result \<times> db" where
  "db_kv_del db key s =
     (let (r, k) = kv_del db key (st_kv (d_st s)) in finish KVDelError (KvDel db key) r (set_kv k s))"

definition db_kv_keys :: "env \<Rightarrow> string \<Rightarrow> db \<Rightarrow> (db_error, string list) result" where
  "db_kv_keys v db s = Ok (kv_keys (ev_iter v) db (st_kv (d_st s)))"

text \<open>\<open>kv_flush\<close> sends the event but does not write the file.\<close>

definition db_kv_flush :: "string \<Rightarrow> db \<Rightarrow> (db_error, unit) result \<times> db" where
  "db_kv_flush db s = (Ok (), send_event (KvFlush db) (set_kv (kv_flush db (st_kv (d_st s))) s))"

definition db_log_create_group :: "env \<Rightarrow> string \<Rightarrow> db \<Rightarrow> (db_error, unit) result \<times> db" where
  "db_log_create_group v name s =
     (let (r, m) = create_group (ev_alloc v) name (st_gm (d_st s))
      in finish LogCreateGroupError (LogCreateGroup name) r (set_gm m s))"

definition db_log_drop_group :: "string \<Rightarrow> db \<Rightarrow> (db_error, unit) result \<times> db" where
  "db_log_drop_group name s =
     (let (r, m) = drop_group name (st_gm (d_st s))
      in finish LogDropGroupError (LogDropGroup name) r (set_gm m s))"

definition db_log_add :: "env \<Rightarrow> string \<Rightarrow> u64 \<Rightarrow> bytes \<Rightarrow> db \<Rightarrow> (db_error, u64) result \<times> db" where
  "db_log_add v grp ts payload s =
     (let (r, m) = gm_add (ev_hash v) (ev_alloc v 0) (ev_clock v 0) grp ts payload (st_gm (d_st s))
      in finish LogAppendError (LogAdd grp ts payload) r (set_gm m s))"

definition db_log_add_range :: "env \<Rightarrow> string \<Rightarrow> (u64 \<times> bytes) list \<Rightarrow> db \<Rightarrow> (db_error, u64 \<times> u64) result \<times> db" where
  "db_log_add_range v grp entries s =
     (let (r, m) = gm_add_range (ev_hash v) (ev_alloc v) (ev_clock v) grp entries (st_gm (d_st s))
      in finish LogAppendRangeError (LogAddRange grp entries) r (set_gm m s))"

definition db_log_read :: "env \<Rightarrow> string \<Rightarrow> u64 \<Rightarrow> db \<Rightarrow> (db_error, entry) result \<times> db" where
  "db_log_read v grp i s =
     (let (r, m) = gm_read (ev_hash v) (ev_clock v 0) grp i (st_gm (d_st s))
      in (map_err LogReadError r, set_gm m s))"

definition db_log_read_range :: "env \<Rightarrow> string \<Rightarrow> u64 \<Rightarrow> u64 \<Rightarrow> db \<Rightarrow> (db_error, entry list) result \<times> db" where
  "db_log_read_range v grp start end s =
     (let (r, m) = gm_read_range (ev_hash v) (ev_clock v) grp start end (st_gm (d_st s))
      in (map_err LogReadRangeError r, set_gm m s))"

definition db_log_remove :: "env \<Rightarrow> string \<Rightarrow> u64 \<Rightarrow> db \<Rightarrow> (db_error, unit) result \<times> db" where
  "db_log_remove v grp up_to_id s =
     (let (r, m) = gm_remove (ev_hash v) grp up_to_id (st_gm (d_st s))
      in finish LogRemoveError (LogRemove grp up_to_id) r (set_gm m s))"

definition db_log_list_groups :: "((string, group) hash_map \<Rightarrow> (string \<times> group) list) \<Rightarrow> db
    \<Rightarrow> (db_error, string list) result" where
  "db_log_list_groups iter s = Ok (list_groups iter (st_gm (d_st s)))"

definition db_log_group_stats :: "string \<Rightarrow> db \<Rightarrow> (db_error, group_stats) result" where
  "db_log_group_stats grp s = map_err LogGroupStatsError (gm_group_stats grp (st_gm (d_st s)))"

definition db_list_push :: "env \<Rightarrow> string \<Rightarrow> bytes \<Rightarrow> db \<Rightarrow> (db_error, unit) result \<times> db" where
  "db_list_push v key payload s =
     (let (r, l) = list_push (ev_grow v 0) key payload (st_list (d_st s))
      in finish ListPushError (ListPush key payload) r (set_list l s))"

definition db_list_push_range :: "env \<Rightarrow> string \<Rightarrow> bytes list \<Rightarrow> db \<Rightarrow> (db_error, unit) result \<times> db" where
  "db_list_push_range v key items s =
     (let (r, l) = list_push_range (ev_grow v) key items (st_list (d_st s))
      in finish ListPushRangeError (ListPushRange key items) r (set_list l s))"

definition db_list_pop :: "string \<Rightarrow> db \<Rightarrow> (db_error, bytes) result \<times> db" where
  "db_list_pop key s =
     (let (r, l) = list_pop key (st_list (d_st s)) in finish ListPopError (ListPop key) r (set_list l s))"

definition db_list_pop_range :: "string \<Rightarrow> nat \<Rightarrow> nat \<Rightarrow> db \<Rightarrow> (db_error, bytes list) result \<times> db" where
  "db_list_pop_range key start end s =
     (let (r, l) = list_pop_range key start end (st_list (d_st s))
      in finish ListPopRangeError (ListPopRange key start end) r (set_list l s))"

definition db_list_pop_count :: "string \<Rightarrow> nat \<Rightarrow> db \<Rightarrow> (db_error, bytes list) result \<times> db" where
  "db_list_pop_count key n s =
     (let (r, l) = list_pop_count key n (st_list (d_st s))
      in finish ListPopCountError (ListPopCount key n) r (set_list l s))"

definition db_list_len :: "string \<Rightarrow> db \<Rightarrow> (db_error, nat) result \<times> db" where
  "db_list_len key s =
     (let (r, l) = list_len key (st_list (d_st s)) in (map_err ListLenError r, set_list l s))"

definition db_list_flush :: "string \<Rightarrow> db \<Rightarrow> (db_error, unit) result \<times> db" where
  "db_list_flush key s =
     (let (r, l) = list_flush key (st_list (d_st s))
      in finish ListFlushError (ListFlush key) r (set_list l s))"

section \<open>Replay\<close>

text \<open>\<open>let _ = ..\<close>: errors are dropped, a panic ends the task.\<close>

definition settle :: "('e, 'a) result \<Rightarrow> 's \<Rightarrow> 's option" where
  "settle r s = (case r of Fault _ \<Rightarrow> None | _ \<Rightarrow> Some s)"

definition settle_gm :: "(group_error, 'a) result \<times> group_manager \<Rightarrow> stores \<Rightarrow> stores option" where
  "settle_gm rm s = settle (fst rm) (s\<lparr>st_gm := snd rm\<rparr>)"

definition settle_list :: "(list_error, 'a) result \<times> seg_list \<Rightarrow> stores \<Rightarrow> stores option" where
  "settle_list rl s = settle (fst rl) (s\<lparr>st_list := snd rl\<rparr>)"

fun apply_aof :: "env \<Rightarrow> aof_entry \<Rightarrow> stores \<Rightarrow> stores option" where
  "apply_aof v (KvSet db key val ttl) s =
     Some (s\<lparr>st_kv := kv_set (ev_iter v) (ev_now v 0) (ev_now v 1) db key val ttl (st_kv s)\<rparr>)"
| "apply_aof v (KvDel db key) s = Some (s\<lparr>st_kv := snd (kv_del db key (st_kv s))\<rparr>)"
| "apply_aof v (KvFlush db) s = Some (s\<lparr>st_kv := kv_flush db (st_kv s)\<rparr>)"
| "apply_aof v (LogCreateGroup name) s = settle_gm (create_group (ev_alloc v) name (st_gm s)) s"
| "apply_aof v (LogDropGroup name) s = settle_gm (drop_group name (st_gm s)) s"
| "apply_aof v (LogAdd grp ts payload) s =
     settle_gm (gm_add (ev_hash v) (ev_alloc v 0) (ev_clock v 0) grp ts payload (st_gm s)) s"
| "apply_aof v (LogAddRange grp entries) s =
     settle_gm (gm_add_range (ev_hash v) (ev_alloc v) (ev_clock v) grp entries (st_gm s)) s"
| "apply_aof v (LogRemove grp up_to_id) s = settle_gm (gm_remove (ev_hash v) grp up_to_id (st_gm s)) s"
| "apply_aof v (ListPush key payload) s = settle_list (list_push (ev_grow v 0) key payload (st_list s)) s"
| "apply_aof v (ListPushRange key items) s = settle_list (list_push_range (ev_grow v) key items (st_list s)) s"
| "apply_aof v (ListPop key) s = settle_list (list_pop key (st_list s)) s"
| "apply_aof v (ListPopRange key a b) s = settle_list (list_pop_range key a b (st_list s)) s"
| "apply_aof v (ListPopCount key n) s = settle_list (list_pop_count key n (st_list s)) s"
| "apply_aof v (ListFlush key) s = settle_list (list_flush key (st_list s)) s"

text \<open>One task of the replay, or a replay in file order; every entry comes with its environment.\<close>

fun replay :: "(env \<times> aof_entry) list \<Rightarrow> stores \<Rightarrow> stores option" where
  "replay [] s = Some s"
| "replay ((v, e) # es) s = apply_aof v e s \<bind> replay es"

text \<open>
  \<open>load_and_apply\<close> runs three tasks, one per category, on the shared stores: in every step one of
  them applies its next entry.
\<close>

inductive replay_run :: "(env \<times> aof_entry) list \<Rightarrow> (env \<times> aof_entry) list \<Rightarrow> (env \<times> aof_entry) list
    \<Rightarrow> stores \<Rightarrow> stores \<Rightarrow> bool" where
  joined: "replay_run [] [] [] s s"
| kv_task: "apply_aof v e s = Some s1 \<Longrightarrow> replay_run ks ls gs s1 s' \<Longrightarrow> replay_run ((v, e) # ks) ls gs s s'"
| list_task: "apply_aof v e s = Some s1 \<Longrightarrow> replay_run ks ls gs s1 s' \<Longrightarrow> replay_run ks ((v, e) # ls) gs s s'"
| log_task: "apply_aof v e s = Some s1 \<Longrightarrow> replay_run ks ls gs s1 s' \<Longrightarrow> replay_run ks ls ((v, e) # gs) s s'"

text \<open>A schedule of the three tasks in which one of them meets an entry that cannot be applied.\<close>

inductive replay_fails :: "(env \<times> aof_entry) list \<Rightarrow> (env \<times> aof_entry) list \<Rightarrow> (env \<times> aof_entry) list
    \<Rightarrow> stores \<Rightarrow> bool" where
  kv_fails: "apply_aof v e s = None \<Longrightarrow> replay_fails ((v, e) # ks) ls gs s"
| list_fails: "apply_aof v e s = None \<Longrightarrow> replay_fails ks ((v, e) # ls) gs s"
| log_fails: "apply_aof v e s = None \<Longrightarrow> replay_fails ks ls ((v, e) # gs) s"
| kv_later: "apply_aof v e s = Some s1 \<Longrightarrow> replay_fails ks ls gs s1 \<Longrightarrow> replay_fails ((v, e) # ks) ls gs s"
| list_later: "apply_aof v e s = Some s1 \<Longrightarrow> replay_fails ks ls gs s1 \<Longrightarrow> replay_fails ks ((v, e) # ls) gs s"
| log_later: "apply_aof v e s = Some s1 \<Longrightarrow> replay_fails ks ls gs s1 \<Longrightarrow> replay_fails ks ls ((v, e) # gs) s"

text \<open>The work of the three tasks: the entries of the file by category, each with its environment.\<close>

definition replay_tasks :: "(bytes \<Rightarrow> aof_entry option) \<Rightarrow> bytes option \<Rightarrow> (env \<times> aof_entry) list \<Rightarrow>
    (env \<times> aof_entry) list \<Rightarrow> (env \<times> aof_entry) list \<Rightarrow> bool" where
  "replay_tasks from_json file ks ls gs =
     (case load_aof_separated from_json file of None \<Rightarrow> False
      | Some es \<Rightarrow> map snd ks = ae_kv es \<and> map snd ls = ae_list es \<and> map snd gs = ae_log es)"

inductive load_and_apply :: "(bytes \<Rightarrow> aof_entry option) \<Rightarrow> bytes option \<Rightarrow> stores \<Rightarrow> stores \<Rightarrow> bool" where
  "load_aof_separated from_json file = Some es \<Longrightarrow> map snd ks = ae_kv es \<Longrightarrow> map snd ls = ae_list es \<Longrightarrow>
   map snd gs = ae_log es \<Longrightarrow> replay_run ks ls gs s s' \<Longrightarrow> load_and_apply from_json file s s'"

text \<open>
  \<open>DB::apply_aof\<close>, the replay of a follower: the calls on the groups and on the list are futures
  that are dropped without being awaited, so those entries have no effect.
\<close>

fun follower_apply :: "env \<Rightarrow> aof_entry \<Rightarrow> db \<Rightarrow> db" where
  "follower_apply v (KvSet db key val ttl) s =
     set_kv (kv_set (ev_iter v) (ev_now v 0) (ev_now v 1) db key val ttl (st_kv (d_st s))) s"
| "follower_apply v (KvDel db key) s = set_kv (snd (kv_del db key (st_kv (d_st s)))) s"
| "follower_apply v (KvFlush db) s = set_kv (kv_flush db (st_kv (d_st s))) s"
| "follower_apply v _ s = s"

definition db_apply_aof :: "(env \<times> aof_entry) list \<Rightarrow> db \<Rightarrow> (db_error, unit) result \<times> db" where
  "db_apply_aof es s = (Ok (), fold (\<lambda>(v, e). follower_apply v e) es s)"

definition fresh_stores :: "seg_list \<Rightarrow> stores" where
  "fresh_stores l = \<lparr>st_kv = kv_new, st_list = l, st_gm = gm_new\<rparr>"

text \<open>\<open>DB::new\<close>: an empty list is allocated and the file is replayed; a failure of either panics.\<close>

inductive database_new :: "(bytes \<Rightarrow> aof_entry option) \<Rightarrow> bytes option \<Rightarrow> aof_entry list option \<Rightarrow> db \<Rightarrow> bool" where
  "seglist_new ok = Ok l \<Longrightarrow> load_and_apply from_json file (fresh_stores l) st \<Longrightarrow>
   database_new from_json file tx \<lparr>d_st = st, d_aof = [], d_event_tx = tx\<rparr>"

definition get_aof_copy :: "(bytes \<Rightarrow> aof_entry option) \<Rightarrow> bytes option \<Rightarrow> aof_entry list option" where
  "get_aof_copy from_json file = load_aof from_json file"

end
