(* ===== verification/Db_Props.thy ===== *)
theory Db_Props
  imports Db
begin

text \<open>
  The properties of the database: the three concurrent replay tasks cannot be told from a replay in
  file order, the file of a history without partial failures rebuilds logs and lists, and the
  operations whose effect the file or a follower loses.
\<close>

section \<open>The replay is a product of three replays\<close>

text \<open>What an entry does to the one store of its category.\<close>

definition kv_part :: "env \<Rightarrow> aof_entry \<Rightarrow> kv_store \<Rightarrow> kv_store" where
  "kv_part v e k = (case e of
      KvSet db key val ttl \<Rightarrow> kv_set (ev_iter v) (ev_now v 0) (ev_now v 1) db key val ttl k
    | KvDel db key \<Rightarrow> snd (kv_del db key k)
    | KvFlush db \<Rightarrow> kv_flush db k
    | _ \<Rightarrow> k)"

definition no_list :: seg_list where
  "no_list = \<lparr>sg_written = [], sg_free = [], sg_mem = (\<lambda>_. None), sg_brk = 0\<rparr>"

definition list_part :: "env \<Rightarrow> aof_entry \<Rightarrow> seg_list \<Rightarrow> seg_list option" where
  "list_part v e l = map_option st_list (apply_aof v e \<lparr>st_kv = kv_new, st_list = l, st_gm = gm_new\<rparr>)"

definition gm_part :: "env \<Rightarrow> aof_entry \<Rightarrow> group_manager \<Rightarrow> group_manager option" where
  "gm_part v e m = map_option st_gm (apply_aof v e \<lparr>st_kv = kv_new, st_list = no_list, st_gm = m\<rparr>)"

lemma settle_gm_map: "map_option st_gm (settle_gm rm s) = settle (fst rm) (snd rm)"
  "settle_gm rm s = map_option (\<lambda>m. s\<lparr>st_gm := m\<rparr>) (settle (fst rm) (snd rm))"
  by (cases "fst rm"; simp add: settle_gm_def settle_def)+

lemma settle_list_map: "map_option st_list (settle_list rl s) = settle (fst rl) (snd rl)"
  "settle_list rl s = map_option (\<lambda>l. s\<lparr>st_list := l\<rparr>) (settle (fst rl) (snd rl))"
  by (cases "fst rl"; simp add: settle_list_def settle_def)+

lemma apply_kv: "category e = CKv \<Longrightarrow> apply_aof v e s = Some (s\<lparr>st_kv := kv_part v e (st_kv s)\<rparr>)"
  by (cases e) (simp_all add: kv_part_def)

lemma apply_list: "category e = CList \<Longrightarrow>
    apply_aof v e s = map_option (\<lambda>l. s\<lparr>st_list := l\<rparr>) (list_part v e (st_list s))"
  by (cases e) (simp_all add: list_part_def settle_list_map(1) settle_list_map(2) [of _ s])

lemma apply_log: "category e = CLog \<Longrightarrow>
    apply_aof v e s = map_option (\<lambda>m. s\<lparr>st_gm := m\<rparr>) (gm_part v e (st_gm s))"
  by (cases e) (simp_all add: gm_part_def settle_gm_map(1) settle_gm_map(2) [of _ s])

fun run_parts :: "(env \<Rightarrow> aof_entry \<Rightarrow> 's \<Rightarrow> 's option) \<Rightarrow> (env \<times> aof_entry) list \<Rightarrow> 's \<Rightarrow> 's option" where
  "run_parts f [] s = Some s"
| "run_parts f ((v, e) # es) s = f v e s \<bind> run_parts f es"

definition of_cat :: "entry_category \<Rightarrow> (env \<times> aof_entry) list \<Rightarrow> (env \<times> aof_entry) list" where
  "of_cat c es = filter (\<lambda>(v, e). category e = c) es"

text \<open>The three stores evolve independently.\<close>

lemma replay_product:
  "replay es s = do {
     k \<leftarrow> run_parts (\<lambda>v e k. Some (kv_part v e k)) (of_cat CKv es) (st_kv s);
     l \<leftarrow> run_parts list_part (of_cat CList es) (st_list s);
     m \<leftarrow> run_parts gm_part (of_cat CLog es) (st_gm s);
     Some (s\<lparr>st_kv := k, st_list := l, st_gm := m\<rparr>)
   }"
proof (induction es arbitrary: s)
  case (Cons x es)
  obtain v e where x: "x = (v, e)" by fastforce
  show ?case
  proof (cases "category e")
    case CKv
    with x Cons show ?thesis by (simp add: of_cat_def apply_kv)
  next
    case CLog
    then show ?thesis
      using x Cons by (cases "gm_part v e (st_gm s)")
        (simp_all add: of_cat_def apply_log bind_eq_None_conv)
  next
    case CList
    then show ?thesis
      using x Cons by (cases "list_part v e (st_list s)") (simp_all add: of_cat_def apply_list)
  qed
qed (simp add: of_cat_def)

lemma replay_cong:
  "of_cat CKv es = of_cat CKv fs \<Longrightarrow> of_cat CList es = of_cat CList fs \<Longrightarrow> of_cat CLog es = of_cat CLog fs \<Longrightarrow>
   replay es s = replay fs s"
  by (simp only: replay_product)

lemma of_cat_id: "of_cat c es = es \<longleftrightarrow> (\<forall>x \<in> set es. category (snd x) = c)"
  by (simp add: of_cat_def filter_id_conv case_prod_unfold)

lemma replay_run_schedule:
  assumes "replay_run ks ls gs s s'" "of_cat CKv ks = ks" "of_cat CList ls = ls" "of_cat CLog gs = gs"
  shows "\<exists>zs. of_cat CKv zs = ks \<and> of_cat CList zs = ls \<and> of_cat CLog zs = gs \<and> replay zs s = Some s'"
  using assms
proof (induction rule: replay_run.induct)
  case (joined s)
  show ?case by (rule exI [of _ "[]"]) (simp add: of_cat_def)
next
  case (kv_task v e s s1 ks ls gs s')
  have c: "category e = CKv" "of_cat CKv ks = ks"
    using kv_task.prems(1) by (simp_all add: of_cat_id)
  then obtain zs where "of_cat CKv zs = ks" "of_cat CList zs = ls" "of_cat CLog zs = gs" "replay zs s1 = Some s'"
    using kv_task by blast
  with c(1) kv_task(1) show ?case by (intro exI [of _ "(v, e) # zs"]) (simp add: of_cat_def)
next
  case (list_task v e s s1 ks ls gs s')
  have c: "category e = CList" "of_cat CList ls = ls"
    using list_task.prems(2) by (simp_all add: of_cat_id)
  then obtain zs where "of_cat CKv zs = ks" "of_cat CList zs = ls" "of_cat CLog zs = gs" "replay zs s1 = Some s'"
    using list_task by blast
  with c(1) list_task(1) show ?case by (intro exI [of _ "(v, e) # zs"]) (simp add: of_cat_def)
next
  case (log_task v e s s1 ks ls gs s')
  have c: "category e = CLog" "of_cat CLog gs = gs"
    using log_task.prems(3) by (simp_all add: of_cat_id)
  then obtain zs where "of_cat CKv zs = ks" "of_cat CList zs = ls" "of_cat CLog zs = gs" "replay zs s1 = Some s'"
    using log_task by blast
  with c(1) log_task(1) show ?case by (intro exI [of _ "(v, e) # zs"]) (simp add: of_cat_def)
qed

lemma replay_run_file_order:
  "replay es s = Some s' \<Longrightarrow> replay_run (of_cat CKv es) (of_cat CList es) (of_cat CLog es) s s'"
proof (induction es arbitrary: s)
  case Nil
  then show ?case by (simp add: of_cat_def replay_run.joined)
next
  case (Cons x es)
  obtain v e where x: "x = (v, e)" by fastforce
  obtain s1 where s1: "apply_aof v e s = Some s1" "replay es s1 = Some s'"
    using Cons.prems x by (auto simp: bind_eq_Some_conv)
  then have r: "replay_run (of_cat CKv es) (of_cat CList es) (of_cat CLog es) s1 s'" using Cons.IH by blast
  show ?case
    by (cases "category e") (use x r s1(1) replay_run.intros(2-4) in \<open>auto simp: of_cat_def\<close>)
qed

text \<open>
  C16. Start-up is deterministic although three tasks replay the file concurrently on shared stores:
  every interleaving of the tasks that ends leaves exactly the stores of a replay in file order, and
  such an interleaving exists whenever the replay in file order succeeds.
\<close>

theorem replay_schedule_independent:
  "replay_run (of_cat CKv es) (of_cat CList es) (of_cat CLog es) s s' \<longleftrightarrow> replay es s = Some s'"
proof
  assume run: "replay_run (of_cat CKv es) (of_cat CList es) (of_cat CLog es) s s'"
  obtain zs where "of_cat CKv zs = of_cat CKv es" "of_cat CList zs = of_cat CList es"
    "of_cat CLog zs = of_cat CLog es" "replay zs s = Some s'"
    using replay_run_schedule [OF run] by (auto simp: of_cat_def)
  then show "replay es s = Some s'" using replay_cong [of zs es s] by simp
qed (rule replay_run_file_order)

section \<open>Lists through a replay\<close>

text \<open>The queues, and what a recorded list operation does to them when its condition holds.\<close>

definition queues :: "seg_list \<Rightarrow> string \<Rightarrow> bytes list" where
  "queues l = queue_of (list_content l)"

fun queue_effect :: "aof_entry \<Rightarrow> (string \<Rightarrow> bytes list) \<Rightarrow> string \<Rightarrow> bytes list" where
  "queue_effect (ListPush k x) q = q(k := q k @ [x])"
| "queue_effect (ListPushRange k xs) q = q(k := q k @ xs)"
| "queue_effect (ListPop k) q = q(k := tl (q k))"
| "queue_effect (ListPopRange k a b) q = q(k := take a (q k) @ drop b (q k))"
| "queue_effect (ListPopCount k n) q = q(k := drop (n + 1) (q k))"
| "queue_effect (ListFlush k) q = q(k := [])"
| "queue_effect _ q = q"

fun queue_ready :: "aof_entry \<Rightarrow> (string \<Rightarrow> bytes list) \<Rightarrow> bool" where
  "queue_ready (ListPush k x) q = item_fits x"
| "queue_ready (ListPushRange k xs) q = list_all item_fits xs"
| "queue_ready (ListPop k) q = (q k \<noteq> [])"
| "queue_ready (ListPopRange k a b) q = (a \<le> b \<and> b \<le> length (q k))"
| "queue_ready (ListPopCount k n) q = (n < length (q k) \<and> with_capacity_ok 24 n)"
| "queue_ready _ q = True"

text \<open>An environment with memory: every allocation is served.\<close>

definition memory_ok :: "env \<Rightarrow> bool" where
  "memory_ok v \<longleftrightarrow> ev_alloc v = (\<lambda>_. True) \<and> ev_grow v = (\<lambda>_. True)"

lemma queues_upd: "list_content l' = (list_content l)(k \<mapsto> q) \<Longrightarrow> queues l' = (queues l)(k := q)"
  by (auto simp: queues_def queue_of_def fun_eq_iff)

lemma queues_Some: "queues l k \<noteq> [] \<Longrightarrow> list_content l k = Some (queues l k)"
  by (auto simp: queues_def queue_of_def split: option.splits)

lemma queues_cases:
  obtains "list_content l k = Some (queues l k)" | "list_content l k = None" "queues l k = []"
  by (cases "list_content l k") (auto simp: queues_def queue_of_def)

lemma run_push_range:
  assumes "list_inv l" "list_all item_fits xs"
  shows "\<exists>l'. list_push_range (\<lambda>_. True) k xs l = (Ok (), l') \<and> list_inv l' \<and>
    queues l' = (queues l)(k := queues l k @ xs)"
proof -
  have fit: "takeWhile item_fits xs = xs" using assms(2) by (simp add: list_all_iff)
  obtain l' where l': "list_push_range (\<lambda>_. True) k xs l = (Ok (), l')" "list_inv l'"
    "list_content l' = (if xs = [] then list_content l else (list_content l)(k \<mapsto> queues l k @ xs))"
    using list_push_range_correct [OF assms(1), of k xs, unfolded fit] assms(2) by (auto simp: queues_def)
  have "queues l' = (queues l)(k := queues l k @ xs)"
    using l'(3) queues_upd [of l' l k "queues l k @ xs"] by (auto simp: queues_def split: if_splits)
  with l' show ?thesis by simp
qed

lemma run_pop_range:
  assumes "list_inv l" "a \<le> b" "b \<le> length (queues l k)"
  shows "\<exists>r l'. list_pop_range k a b l = (r, l') \<and> \<not> is_fault r \<and> list_inv l' \<and>
    queues l' = (queues l)(k := take a (queues l k) @ drop b (queues l k))"
proof (cases rule: queues_cases [of l k])
  case 1
  from list_pop_range_correct [OF assms(1) 1 assms(2,3)] queues_upd show ?thesis by fastforce
next
  case 2
  then have "list_pop_range k a b l = (Err KeyNotFound, l)"
    by (simp add: list_pop_range_def list_content_def)
  with 2(2) assms(1) show ?thesis by (simp add: fun_upd_idem)
qed

lemma run_flush:
  assumes "list_inv l"
  shows "\<exists>r l'. list_flush k l = (r, l') \<and> \<not> is_fault r \<and> list_inv l' \<and> queues l' = (queues l)(k := [])"
proof (cases rule: queues_cases [of l k])
  case 1
  from seglist.flush_some [OF assms 1] queues_upd show ?thesis by fastforce
next
  case 2
  with seglist.flush_none [OF 2(1)] assms show ?thesis by (simp add: fun_upd_idem)
qed

lemma settle_Some: "\<not> is_fault r \<Longrightarrow> settle r s = Some s"
  by (cases r) (simp_all add: settle_def)

text \<open>A recorded list operation whose condition holds runs and has its effect.\<close>

lemma list_part_run:
  assumes "list_inv l" "category e = CList" "queue_ready e (queues l)" "memory_ok v"
  shows "\<exists>l'. list_part v e l = Some l' \<and> list_inv l' \<and> queues l' = queue_effect e (queues l)"
proof -
  have g: "ev_grow v = (\<lambda>_. True)" using assms(4) by (simp add: memory_ok_def)
  note lp = list_part_def settle_list_map(1)
  show ?thesis
  proof (cases e)
    case (ListPush k x)
    obtain r l' where p: "list_push True k x l = (r, l')" by fastforce
    note c = list_push_correct [OF assms(1) p]
    have "r = Ok ()" using c(1) assms(3) ListPush by (simp add: item_fits_def)
    then show ?thesis
      using c(2,3) p ListPush g queues_upd [of l' l k "queues l k @ [x]"] by (simp add: lp settle_def queues_def)
  next
    case (ListPushRange k xs)
    then show ?thesis using run_push_range [OF assms(1), of xs k] assms(3) g by (auto simp: lp settle_def)
  next
    case (ListPop k)
    then obtain x q where q: "queues l k = x # q" using assms(3) by (cases "queues l k") auto
    then have c: "list_content l k = Some (x # q)" using queues_Some [of l k] by simp
    from seglist.pop_some [OF assms(1) c] queues_upd ListPop q show ?thesis by (force simp: lp settle_def)
  next
    case (ListPopRange k a b)
    then show ?thesis using run_pop_range [OF assms(1), of a b k] assms(3) by (auto simp: lp settle_Some)
  next
    case (ListPopCount k n)
    then have n: "n + 1 \<le> length (queues l k)" "with_capacity_ok 24 n" using assms(3) by simp_all
    then have "queues l k \<noteq> []" by auto
    then have c: "list_content l k = Some (queues l k)" by (rule queues_Some)
    obtain l' where l': "pop_times (n + 1) k l = (Ok (take (n + 1) (queues l k)), l')" "list_inv l'"
      "list_content l' = (list_content l)(k \<mapsto> drop (n + 1) (queues l k))"
      using pop_times_enough [OF assms(1) c n(1)] by blast
    with ListPopCount n(2) queues_upd [OF l'(3)] show ?thesis
      by (simp add: lp settle_def list_pop_count_def del: pop_times.simps)
  next
    case (ListFlush k)
    then show ?thesis using run_flush [OF assms(1), of k] by (auto simp: lp settle_Some)
  qed (use assms(2) in simp_all)
qed

section \<open>Groups through a replay\<close>

text \<open>The physical logs; the caches only have to be in order.\<close>

definition gm_logs :: "group_manager \<Rightarrow> string \<Rightarrow> seg_log option" where
  "gm_logs m name = map_option g_log (hm_get (gm_groups m) name)"

definition caches_ok :: "group_manager \<Rightarrow> bool" where
  "caches_ok m \<longleftrightarrow> (\<forall>name g. hm_get (gm_groups m) name = Some g \<longrightarrow> lru_inv (g_cache g))"

lemma caches_put: "caches_ok m \<Longrightarrow> lru_inv (g_cache g) \<Longrightarrow>
    caches_ok (m\<lparr>gm_groups := hm_insert name g (gm_groups m)\<rparr>)"
  by (simp add: caches_ok_def)

lemma gm_logs_put: "gm_logs (m\<lparr>gm_groups := hm_insert name g (gm_groups m)\<rparr>) = (gm_logs m)(name \<mapsto> g_log g)"
  by (auto simp: gm_logs_def fun_eq_iff)

text \<open>
  A group operation whose effect on the log, and whose result, depend on the log only: \<open>f\<close> is the
  operation on the log.
\<close>

definition log_only :: "(group \<Rightarrow> (group_error, 'a) result \<times> group) \<Rightarrow>
    (seg_log \<Rightarrow> (group_error, 'a) result \<times> seg_log) \<Rightarrow> bool" where
  "log_only op f \<longleftrightarrow> (\<forall>g. lru_inv (g_cache g) \<longrightarrow>
     (\<exists>c. lru_inv c \<and> op g = (fst (f (g_log g)), g\<lparr>g_log := snd (f (g_log g)), g_cache := c\<rparr>)))"

lemma log_onlyE:
  assumes "log_only op f" "lru_inv (g_cache g)"
  obtains c where "lru_inv c" "op g = (fst (f (g_log g)), g\<lparr>g_log := snd (f (g_log g)), g_cache := c\<rparr>)"
  using assms unfolding log_only_def by blast

definition on_log :: "(seg_log \<Rightarrow> (log_error, 'a) result \<times> seg_log) \<Rightarrow> seg_log \<Rightarrow> (group_error, 'a) result \<times> seg_log" where
  "on_log f l = (map_err GLogError (fst (f l)), snd (f l))"

lemma add_log_only: "log_only (group_add h al now ts p) (on_log (append_entry al ts p))"
  unfolding log_only_def
proof (intro allI impI)
  fix g :: group assume inv: "lru_inv (g_cache g)"
  obtain r l where a: "append_entry al ts p (g_log g) = (r, l)" by fastforce
  show "\<exists>c. lru_inv c \<and> group_add h al now ts p g =
      (fst (on_log (append_entry al ts p) (g_log g)), g\<lparr>g_log := snd (on_log (append_entry al ts p) (g_log g)), g_cache := c\<rparr>)"
  proof (cases r)
    case (Ok i)
    obtain c where "lru_insert now (build_key h (g_name g) i)
        \<lparr>le_id = i, le_timestamp = ts, le_len = length p, le_payload = p\<rparr> (g_cache g) = Some c" "lru_inv c"
      using lru.insert_ok [OF inv] by blast
    with a Ok show ?thesis by (auto simp: group_add_def cache_put_def on_log_def)
  qed (use a inv in \<open>auto simp: group_add_def on_log_def intro!: exI [of _ "g_cache g"]\<close>)
qed

fun append_rest :: "(nat \<Rightarrow> bool) \<Rightarrow> u64 \<Rightarrow> (u64 \<times> bytes) list \<Rightarrow> seg_log \<Rightarrow> (group_error, u64) result \<times> seg_log" where
  "append_rest alloc j [] l = (Ok j, l)"
| "append_rest alloc j ((ts, p) # es) l =
     (case on_log (append_entry (alloc 0) ts p) l of
        (Ok i, l') \<Rightarrow> append_rest (\<lambda>n. alloc (Suc n)) i es l' | r \<Rightarrow> r)"

lemma add_rest_log_only: "log_only (group_add_rest h alloc now j es) (append_rest alloc j es)"
proof (induction es arbitrary: alloc now j)
  case Nil
  show ?case by (simp add: log_only_def) (metis group.surjective group.update_convs(2,3))
next
  case (Cons e es)
  obtain ts p where e: "e = (ts, p)" by fastforce
  show ?case
    unfolding log_only_def
  proof (intro allI impI)
    fix g :: group assume inv: "lru_inv (g_cache g)"
    let ?f = "on_log (append_entry (alloc 0) ts p)"
    obtain c where c: "lru_inv c" "group_add h (alloc 0) (now 0) ts p g =
        (fst (?f (g_log g)), g\<lparr>g_log := snd (?f (g_log g)), g_cache := c\<rparr>)"
      using log_onlyE [OF add_log_only inv] by blast
    obtain r l where f: "?f (g_log g) = (r, l)" by fastforce
    show "\<exists>c. lru_inv c \<and> group_add_rest h alloc now j (e # es) g =
        (fst (append_rest alloc j (e # es) (g_log g)), g\<lparr>g_log := snd (append_rest alloc j (e # es) (g_log g)), g_cache := c\<rparr>)"
    proof (cases r)
      case (Ok i)
      obtain c' where "lru_inv c'" "group_add_rest h (\<lambda>n. alloc (Suc n)) (\<lambda>n. now (Suc n)) i es (g\<lparr>g_log := l, g_cache := c\<rparr>) =
          (fst (append_rest (\<lambda>n. alloc (Suc n)) i es l),
           g\<lparr>g_log := snd (append_rest (\<lambda>n. alloc (Suc n)) i es l), g_cache := c'\<rparr>)"
        using log_onlyE [OF Cons.IH [of "\<lambda>n. alloc (Suc n)" "\<lambda>n. now (Suc n)" i],
            of "g\<lparr>g_log := l, g_cache := c\<rparr>", simplified, OF c(1)] by blast
      with Ok e c f show ?thesis by auto
    qed (use e c f in auto)
  qed
qed

definition append_range :: "(nat \<Rightarrow> bool) \<Rightarrow> u64 \<times> bytes \<Rightarrow> (u64 \<times> bytes) list \<Rightarrow> seg_log
    \<Rightarrow> (group_error, u64 \<times> u64) result \<times> seg_log" where
  "append_range alloc e es l =
     (case append_rest alloc 0 (e # es) l of
        (Ok last_id, l') \<Rightarrow> (case on_log (append_entry (alloc 0) (fst e) (snd e)) l of
           (Ok first_id, _) \<Rightarrow> (Ok (first_id, last_id), l') | (Err x, _) \<Rightarrow> (Err x, l') | (Fault p, _) \<Rightarrow> (Fault p, l'))
      | (Err x, l') \<Rightarrow> (Err x, l')
      | (Fault p, l') \<Rightarrow> (Fault p, l'))"

lemma add_range_log_only: "log_only (group_add_range h alloc now e es) (append_range alloc e es)"
  unfolding log_only_def
proof (intro allI impI)
  fix g :: group assume inv: "lru_inv (g_cache g)"
  obtain r l where r: "append_rest alloc 0 (e # es) (g_log g) = (r, l)" by fastforce
  obtain c where c: "lru_inv c" "group_add_rest h alloc now 0 (e # es) g = (r, g\<lparr>g_log := l, g_cache := c\<rparr>)"
    using log_onlyE [OF add_rest_log_only inv, of h alloc now 0 "e # es"] r by (auto simp del: append_rest.simps group_add_rest.simps)
  obtain r1 l1 where a: "on_log (append_entry (alloc 0) (fst e) (snd e)) (g_log g) = (r1, l1)" by fastforce
  have "fst (group_add h (alloc 0) (now 0) (fst e) (snd e) g) = r1"
    using log_onlyE [OF add_log_only inv] a by (metis fst_conv)
  then have "group_add_range h alloc now e es g =
      (fst (append_range alloc e es (g_log g)), g\<lparr>g_log := snd (append_range alloc e es (g_log g)), g_cache := c\<rparr>)"
    by (cases "group_add h (alloc 0) (now 0) (fst e) (snd e) g")
      (simp add: group_add_range_rest c(2) append_range_def r a split: result.split
        del: append_rest.simps group_add_rest.simps)
  with c(1) show "\<exists>c. lru_inv c \<and> group_add_range h alloc now e es g =
      (fst (append_range alloc e es (g_log g)), g\<lparr>g_log := snd (append_range alloc e es (g_log g)), g_cache := c\<rparr>)"
    by blast
qed

lemma invalidate_all_inv:
  "lru_inv (g_cache g) \<Longrightarrow> \<exists>c. lru_inv c \<and> invalidate_all h ids g = Some (g\<lparr>g_cache := c\<rparr>)"
proof (induction ids arbitrary: g)
  case (Cons i ids)
  obtain r c where c: "lru_remove (build_key h (g_name g) i) (g_cache g) = Some (r, c)" "lru_inv c"
    using lru.remove_ok [OF Cons.prems] by blast
  then show ?case using Cons.IH [of "g\<lparr>g_cache := c\<rparr>"] by (auto simp: cache_invalidate_def)
next
  case Nil
  then show ?case by (intro exI [of _ "g_cache g"]) simp
qed

definition trim_unit :: "u64 \<Rightarrow> seg_log \<Rightarrow> (group_error, unit) result \<times> seg_log" where
  "trim_unit n l = (case log_trim n l of
     (Ok _, l') \<Rightarrow> (Ok (), l') | (Err e, l') \<Rightarrow> (Err (GLogError e), l') | (Fault p, l') \<Rightarrow> (Fault p, l'))"

lemma remove_log_only: "log_only (group_remove h n) (trim_unit n)"
  unfolding log_only_def
proof (intro allI impI)
  fix g :: group assume inv: "lru_inv (g_cache g)"
  obtain r l where t: "log_trim n (g_log g) = (r, l)" by fastforce
  show "\<exists>c. lru_inv c \<and> group_remove h n g =
      (fst (trim_unit n (g_log g)), g\<lparr>g_log := snd (trim_unit n (g_log g)), g_cache := c\<rparr>)"
  proof (cases r)
    case (Ok ids)
    then show ?thesis
      using invalidate_all_inv [of "g\<lparr>g_log := l\<rparr>" h ids] inv t by (auto simp: group_remove_def trim_unit_def)
  qed (use t inv in \<open>auto simp: group_remove_def trim_unit_def intro!: exI [of _ "g_cache g"]\<close>)
qed

text \<open>Two managers with the same logs answer alike and stay alike.\<close>

lemma with_group_logs:
  assumes lo: "log_only op f" "log_only op' f" and ok: "caches_ok m" "caches_ok m'" and eq: "gm_logs m = gm_logs m'"
  shows "fst (with_group name op m) = fst (with_group name op' m') \<and>
    gm_logs (snd (with_group name op m)) = gm_logs (snd (with_group name op' m')) \<and>
    caches_ok (snd (with_group name op m)) \<and> caches_ok (snd (with_group name op' m'))"
proof (cases "hm_get (gm_groups m) name")
  case None
  then have "hm_get (gm_groups m') name = None" using fun_cong [OF eq, of name] by (simp add: gm_logs_def)
  with None ok eq show ?thesis by (simp add: with_group_def)
next
  case (Some g)
  then obtain g' where g': "hm_get (gm_groups m') name = Some g'" "g_log g' = g_log g"
    using fun_cong [OF eq, of name] by (cases "hm_get (gm_groups m') name") (auto simp: gm_logs_def)
  obtain c where c: "lru_inv c" "op g = (fst (f (g_log g)), g\<lparr>g_log := snd (f (g_log g)), g_cache := c\<rparr>)"
    using log_onlyE [OF lo(1)] ok(1) Some unfolding caches_ok_def by metis
  obtain c' where c': "lru_inv c'" "op' g' = (fst (f (g_log g')), g'\<lparr>g_log := snd (f (g_log g')), g_cache := c'\<rparr>)"
    using log_onlyE [OF lo(2)] ok(2) g'(1) unfolding caches_ok_def by metis
  show ?thesis
    using Some g' c c' ok eq by (simp add: with_group_def gm_logs_put caches_put)
qed

text \<open>The effect of a recorded log operation depends on the logs only.\<close>

lemma create_group_logs:
  assumes "caches_ok m" "caches_ok m'" "gm_logs m = gm_logs m'"
  shows "fst (create_group al name m) = fst (create_group al name m') \<and>
    gm_logs (snd (create_group al name m)) = gm_logs (snd (create_group al name m')) \<and>
    caches_ok (snd (create_group al name m)) \<and> caches_ok (snd (create_group al name m'))"
proof -
  have "hm_get (gm_groups m) name = None \<longleftrightarrow> hm_get (gm_groups m') name = None"
    using fun_cong [OF assms(3), of name] by (auto simp: gm_logs_def)
  moreover have "lru_inv (g_cache g)" if "group_new al name = Ok g" for g
    using group_new_ok [OF that] by (simp add: group_ok_def gl.coherent_def)
  ultimately show ?thesis
    using assms by (auto simp: create_group_def gm_logs_put caches_put split: result.split)
qed

lemma drop_group_logs:
  assumes "caches_ok m" "caches_ok m'" "gm_logs m = gm_logs m'"
  shows "fst (drop_group name m) = fst (drop_group name m') \<and>
    gm_logs (snd (drop_group name m)) = gm_logs (snd (drop_group name m')) \<and>
    caches_ok (snd (drop_group name m)) \<and> caches_ok (snd (drop_group name m'))"
proof -
  have "hm_get (gm_groups m) name = None \<longleftrightarrow> hm_get (gm_groups m') name = None"
    using fun_cong [OF assms(3), of name] by (auto simp: gm_logs_def)
  moreover have "gm_logs (k\<lparr>gm_groups := hm_remove name (gm_groups k)\<rparr>) = (gm_logs k)(name := None)" for k
    by (auto simp: gm_logs_def fun_eq_iff)
  ultimately show ?thesis
    using assms by (auto simp: drop_group_def caches_ok_def)
qed

lemma settle_alike:
  assumes "fst x = fst y \<and> gm_logs (snd x) = gm_logs (snd y) \<and> caches_ok (snd x) \<and> caches_ok (snd y)"
    and "settle (fst x) (snd x) = Some m1"
  shows "\<exists>m1'. settle (fst y) (snd y) = Some m1' \<and> gm_logs m1 = gm_logs m1' \<and> caches_ok m1 \<and> caches_ok m1'"
  using assms by (cases "fst y") (auto simp: settle_def)

lemma gm_part_logs:
  assumes "category e = CLog" "memory_ok v" "memory_ok v'"
    and ok: "caches_ok m" "caches_ok m'" "gm_logs m = gm_logs m'" and run: "gm_part v e m = Some m1"
  shows "\<exists>m1'. gm_part v' e m' = Some m1' \<and> gm_logs m1 = gm_logs m1' \<and> caches_ok m1 \<and> caches_ok m1'"
proof -
  have al: "ev_alloc v = (\<lambda>_. True)" "ev_alloc v' = (\<lambda>_. True)" using assms(2,3) by (simp_all add: memory_ok_def)
  note gps = gm_part_def settle_gm_map(1)
  show ?thesis
  proof (cases e)
    case (LogCreateGroup n)
    then show ?thesis
      using settle_alike [OF create_group_logs [OF ok, of "\<lambda>_. True" n]] run al by (simp add: gps)
  next
    case (LogDropGroup n)
    then show ?thesis using settle_alike [OF drop_group_logs [OF ok, of n]] run by (simp add: gps)
  next
    case (LogAdd n ts p)
    note lo = add_log_only [of "ev_hash v" True "ev_clock v 0" ts p] add_log_only [of "ev_hash v'" True "ev_clock v' 0" ts p]
    show ?thesis
      using settle_alike [OF with_group_logs [OF lo ok, of n]] run al LogAdd by (simp add: gps gm_add_def)
  next
    case (LogAddRange n es)
    show ?thesis
    proof (cases es)
      case Nil
      with LogAddRange run ok show ?thesis by (auto simp: gps gm_add_range_def settle_def)
    next
      case (Cons x xs)
      note lo = add_range_log_only [of "ev_hash v" "\<lambda>_. True" "ev_clock v" x xs]
        add_range_log_only [of "ev_hash v'" "\<lambda>_. True" "ev_clock v'" x xs]
      show ?thesis
        using settle_alike [OF with_group_logs [OF lo ok, of n]] run al LogAddRange Cons
        by (simp add: gps gm_add_range_def)
    qed
  next
    case (LogRemove n i)
    note lo = remove_log_only [of "ev_hash v" i] remove_log_only [of "ev_hash v'" i]
    show ?thesis
      using settle_alike [OF with_group_logs [OF lo ok, of n]] run LogRemove by (simp add: gps gm_remove_def)
  qed (use assms(1) in simp_all)
qed

section \<open>Durability\<close>

text \<open>Two sets of stores with the same logs and the same queues.\<close>

definition mirrored :: "stores \<Rightarrow> stores \<Rightarrow> bool" where
  "mirrored s t \<longleftrightarrow> list_inv (st_list s) \<and> list_inv (st_list t) \<and> queues (st_list s) = queues (st_list t) \<and>
     caches_ok (st_gm s) \<and> caches_ok (st_gm t) \<and> gm_logs (st_gm s) = gm_logs (st_gm t)"

text \<open>
  What a history has recorded rebuilds its logs and its lists, in whatever environments with memory
  the entries are applied again.
\<close>

definition durable :: "seg_list \<Rightarrow> db \<Rightarrow> bool" where
  "durable l0 s \<longleftrightarrow> (\<forall>zs. map snd zs = d_aof s \<longrightarrow> (\<forall>z \<in> set zs. memory_ok (fst z)) \<longrightarrow>
     (\<exists>t. replay zs (fresh_stores l0) = Some t \<and> mirrored (d_st s) t))"

definition plain_env :: env where
  "plain_env = \<lparr>ev_hash = (\<lambda>_. 0), ev_alloc = (\<lambda>_. True), ev_grow = (\<lambda>_. True), ev_clock = (\<lambda>_. 0),
     ev_now = (\<lambda>_. 0), ev_iter = id\<rparr>"

lemma memory_plain [simp]: "memory_ok plain_env"
  by (simp add: memory_ok_def plain_env_def)

lemma replay_snoc: "replay (es @ [(v, e)]) s = replay es s \<bind> apply_aof v e"
proof (induction es arbitrary: s)
  case (Cons x es)
  then show ?case by (cases x; cases "apply_aof (fst x) (snd x) s") auto
next
  case Nil
  show ?case by (cases "apply_aof v e s") simp_all
qed

lemma db_simps [simp]:
  "d_st (emit e s) = d_st s" "d_aof (emit e s) = d_aof s @ [e]"
  "d_st (send_event e s) = d_st s" "d_aof (send_event e s) = d_aof s"
  "d_st (set_kv k s) = d_st s\<lparr>st_kv := k\<rparr>" "d_aof (set_kv k s) = d_aof s"
  "d_st (set_list l s) = d_st s\<lparr>st_list := l\<rparr>" "d_aof (set_list l s) = d_aof s"
  "d_st (set_gm m s) = d_st s\<lparr>st_gm := m\<rparr>" "d_aof (set_gm m s) = d_aof s"
  by (simp_all add: emit_def send_event_def set_kv_def set_list_def set_gm_def)

lemma durable_emit:
  assumes "durable l0 s" "d_aof s' = d_aof s @ [e]"
    and "\<And>v t. memory_ok v \<Longrightarrow> mirrored (d_st s) t \<Longrightarrow> \<exists>t'. apply_aof v e t = Some t' \<and> mirrored (d_st s') t'"
  shows "durable l0 s'"
  unfolding durable_def
proof (intro allI impI)
  fix zs assume "map snd zs = d_aof s'" and m: "\<forall>z \<in> set zs. memory_ok (fst z)"
  then obtain ys v where z: "zs = ys @ [(v, e)]" "map snd ys = d_aof s"
    using assms(2) by (cases zs rule: rev_cases) auto
  then obtain t where t: "replay ys (fresh_stores l0) = Some t" "mirrored (d_st s) t"
    using assms(1) m unfolding durable_def by auto
  from assms(3) [OF _ t(2)] show "\<exists>t. replay zs (fresh_stores l0) = Some t \<and> mirrored (d_st s') t"
    using z(1) m t(1) by (auto simp: replay_snoc)
qed

lemma durableE:
  assumes "durable l0 s"
  obtains t where "replay (map (Pair plain_env) (d_aof s)) (fresh_stores l0) = Some t" "mirrored (d_st s) t"
proof -
  have "map snd (map (Pair plain_env) (d_aof s)) = d_aof s" "\<forall>z \<in> set (map (Pair plain_env) (d_aof s)). memory_ok (fst z)"
    by (auto simp: o_def)
  with assms that show thesis unfolding durable_def by blast
qed

lemma durableD: "durable l0 s \<Longrightarrow> list_inv (st_list (d_st s)) \<and> caches_ok (st_gm (d_st s))"
  by (erule durableE) (simp add: mirrored_def)

lemma durable_emit_list:
  assumes "durable l0 s" "category e = CList" "queue_ready e (queues (st_list (d_st s)))"
    "memory_ok v0" "list_part v0 e (st_list (d_st s)) = Some l'"
  shows "durable l0 (emit e (set_list l' s))"
proof (rule durable_emit [OF assms(1)])
  fix v t assume v: "memory_ok v" and t: "mirrored (d_st s) t"
  have l': "list_inv l'" "queues l' = queue_effect e (queues (st_list (d_st s)))"
    using list_part_run [OF _ assms(2,3,4)] assms(5) t by (auto simp: mirrored_def)
  have "queue_ready e (queues (st_list t))" "list_inv (st_list t)"
    using assms(3) t by (simp_all add: mirrored_def)
  then obtain l2 where "list_part v e (st_list t) = Some l2" "list_inv l2" "queues l2 = queue_effect e (queues (st_list t))"
    using list_part_run [OF _ assms(2) _ v] by blast
  with t l' show "\<exists>t'. apply_aof v e t = Some t' \<and> mirrored (d_st (emit e (set_list l' s))) t'"
    by (auto simp: apply_list [OF assms(2)] mirrored_def)
qed simp

lemma durable_emit_log:
  assumes "durable l0 s" "category e = CLog" "memory_ok v0" "gm_part v0 e (st_gm (d_st s)) = Some m'"
  shows "durable l0 (emit e (set_gm m' s))"
proof (rule durable_emit [OF assms(1)])
  fix v t assume v: "memory_ok v" and t: "mirrored (d_st s) t"
  then obtain m2 where "gm_part v e (st_gm t) = Some m2" "gm_logs m' = gm_logs m2" "caches_ok m'" "caches_ok m2"
    using gm_part_logs [OF assms(2,3) v _ _ _ assms(4), of "st_gm t"] by (auto simp: mirrored_def)
  with t show "\<exists>t'. apply_aof v e t = Some t' \<and> mirrored (d_st (emit e (set_gm m' s))) t'"
    by (auto simp: apply_log [OF assms(2)] mirrored_def)
qed simp

lemma durable_emit_kv: "durable l0 s \<Longrightarrow> category e = CKv \<Longrightarrow> durable l0 (emit e (set_kv k s))"
  by (erule durable_emit) (auto simp: apply_kv mirrored_def)

lemma durable_silent:
  "durable l0 s \<Longrightarrow> durable l0 (set_kv k s)"
  "durable l0 s \<Longrightarrow> durable l0 (send_event e s)"
  "durable l0 s \<Longrightarrow> list_inv l \<Longrightarrow> queues l = queues (st_list (d_st s)) \<Longrightarrow> durable l0 (set_list l s)"
  "durable l0 s \<Longrightarrow> caches_ok m \<Longrightarrow> gm_logs m = gm_logs (st_gm (d_st s)) \<Longrightarrow> durable l0 (set_gm m s)"
  by (auto simp: durable_def mirrored_def)

text \<open>A read changes caches only.\<close>

lemma group_read_cache_only:
  assumes "lru_inv (g_cache g)"
  shows "\<exists>r c. lru_inv c \<and> group_read h now i g = (r, g\<lparr>g_cache := c\<rparr>)"
proof -
  obtain x c where "lru_get now (build_key h (g_name g) i) (g_cache g) = Some (x, c)" "lru_inv c"
    using lru.get_ok [OF assms] by blast
  then show ?thesis by (cases x) (auto simp: group_read_def)
qed

lemma read_cached_inv:
  "lru_inv c \<Longrightarrow> \<exists>es b c'. read_cached h clock name ids c = Some (es, b, c') \<and> lru_inv c'"
proof (induction ids arbitrary: c clock)
  case (Cons i ids)
  obtain x c1 where g: "lru_get (clock 0) (build_key h name i) c = Some (x, c1)" "lru_inv c1"
    using lru.get_ok [OF Cons.prems] by blast
  with Cons.IH [OF g(2), of "\<lambda>n. clock (Suc n)"] show ?case by (cases x) auto
qed (auto intro: exI [of _ True])

lemma group_read_range_cache_only:
  assumes "lru_inv (g_cache g)"
  shows "\<exists>r c. lru_inv c \<and> group_read_range h clock a b g = (r, g\<lparr>g_cache := c\<rparr>)"
proof (cases "with_capacity_ok 40 (unat (b - a + 1))")
  case True
  obtain es x c where "read_cached h clock (g_name g) (id_range a b) (g_cache g) = Some (es, x, c)" "lru_inv c"
    using read_cached_inv [OF assms] by blast
  with True show ?thesis by (auto simp: group_read_range_def Let_def)
next
  case False
  with assms show ?thesis by (auto simp: group_read_range_def Let_def intro!: exI [of _ "g_cache g"])
qed

lemma with_group_cache_only:
  assumes "caches_ok m" "\<And>g. lru_inv (g_cache g) \<Longrightarrow> \<exists>r c. lru_inv c \<and> op g = (r, g\<lparr>g_cache := c\<rparr>)"
  shows "caches_ok (snd (with_group name op m)) \<and> gm_logs (snd (with_group name op m)) = gm_logs m"
proof (cases "hm_get (gm_groups m) name")
  case None
  with assms(1) show ?thesis by (simp add: with_group_def)
next
  case (Some g)
  then have inv: "lru_inv (g_cache g)" using assms(1) by (simp add: caches_ok_def)
  obtain r c where rc: "lru_inv c" "op g = (r, g\<lparr>g_cache := c\<rparr>)" using assms(2) [OF inv] by blast
  have "caches_ok (m\<lparr>gm_groups := hm_insert name (g\<lparr>g_cache := c\<rparr>) (gm_groups m)\<rparr>)"
    using caches_put [OF assms(1)] rc(1) by simp
  moreover have "gm_logs (m\<lparr>gm_groups := hm_insert name (g\<lparr>g_cache := c\<rparr>) (gm_groups m)\<rparr>) = gm_logs m"
    using Some by (auto simp: gm_logs_put gm_logs_def fun_eq_iff)
  ultimately show ?thesis using Some rc(2) by (simp add: with_group_def)
qed

lemma trim_not_Err: "fst (log_trim n l) \<noteq> Err e"
proof -
  have "zero_upto k segs \<noteq> Err x" for k segs x
    by (induction k) (auto split: result.split option.split)
  then show ?thesis by (auto simp: log_trim_def Let_def split: list.split result.split)
qed

text \<open>
  Operations of a database without partial failures: every operation of the interface, refused or
  not, except that range pushes, counted pops and range appends succeed and an append is refused
  only for an unknown group or an entry that is too large. Memory is available throughout, and an
  operation that panics has no state after it.
\<close>

inductive db_op :: "db \<Rightarrow> db \<Rightarrow> bool" where
  kv_set: "db_kv_set v d k x ttl s = (r, s') \<Longrightarrow> db_op s s'"
| kv_get: "db_kv_get v d k s = (ro, s') \<Longrightarrow> db_op s s'"
| kv_del: "db_kv_del d k s = (r, s') \<Longrightarrow> db_op s s'"
| kv_flush: "db_kv_flush d s = (r, s') \<Longrightarrow> db_op s s'"
| log_create: "memory_ok v \<Longrightarrow> db_log_create_group v n s = (r, s') \<Longrightarrow> \<not> is_fault r \<Longrightarrow>
    db_op s s'"
| log_drop: "db_log_drop_group n s = (r, s') \<Longrightarrow> db_op s s'"
| log_add: "memory_ok v \<Longrightarrow> db_log_add v n ts p s = (ri, s') \<Longrightarrow>
    (\<exists>i. ri = Ok i) \<or> ri = Err (LogAppendError (GroupNotFound n)) \<or>
    ri = Err (LogAppendError (GLogError log_error.EntryTooLarge)) \<Longrightarrow> db_op s s'"
| log_add_range: "memory_ok v \<Longrightarrow> db_log_add_range v n es s = (Ok ij, s') \<Longrightarrow> db_op s s'"
| log_read: "db_log_read v n i s = (re, s') \<Longrightarrow> db_op s s'"
| log_read_range: "db_log_read_range v n a b s = (res, s') \<Longrightarrow> \<not> is_fault res \<Longrightarrow> db_op s s'"
| log_remove: "db_log_remove v n i s = (r, s') \<Longrightarrow> \<not> is_fault r \<Longrightarrow> db_op s s'"
| list_push: "memory_ok v \<Longrightarrow> db_list_push v k x s = (r, s') \<Longrightarrow> db_op s s'"
| list_push_range: "memory_ok v \<Longrightarrow> db_list_push_range v k xs s = (Ok u, s') \<Longrightarrow> db_op s s'"
| list_pop: "db_list_pop k s = (rb, s') \<Longrightarrow> db_op s s'"
| list_pop_range: "db_list_pop_range k i j s = (rs, s') \<Longrightarrow> \<not> is_fault rs \<Longrightarrow> db_op s s'"
| list_pop_count: "db_list_pop_count k c s = (Ok ys, s') \<Longrightarrow> db_op s s'"
| list_len: "db_list_len k s = (rn, s') \<Longrightarrow> db_op s s'"
| list_flush: "db_list_flush k s = (r, s') \<Longrightarrow> db_op s s'"

text \<open>Histories from an empty database on.\<close>

inductive db_history :: "seg_list \<Rightarrow> db \<Rightarrow> bool" for l0 where
  opened: "seglist_new True = Ok l0 \<Longrightarrow> db_history l0 \<lparr>d_st = fresh_stores l0, d_aof = [], d_event_tx = tx\<rparr>"
| after: "db_history l0 s \<Longrightarrow> db_op s s' \<Longrightarrow> db_history l0 s'"

lemma memory_env: "memory_ok \<lparr>ev_hash = h, ev_alloc = (\<lambda>_. True), ev_grow = (\<lambda>_. True), ev_clock = c, ev_now = n, ev_iter = i\<rparr>"
  by (simp add: memory_ok_def)

text \<open>A list operation that ends in \<open>Ok\<close> was recorded in a state where its condition held.\<close>

lemma durable_list_op:
  assumes d: "durable l0 s" and e: "category e = CList" and v: "memory_ok v0"
    and op: "list_part v0 e (st_list (d_st s)) = settle r l'"
    and ready: "\<And>x. r = Ok x \<Longrightarrow> queue_ready e (queues (st_list (d_st s)))"
    and err: "\<And>x. r = Err x \<Longrightarrow> list_inv l' \<and> queues l' = queues (st_list (d_st s))"
    and nf: "\<not> is_fault r"
  shows "durable l0 (snd (finish c e r (set_list l' s)))"
proof (cases r)
  case (Ok x)
  then show ?thesis using durable_emit_list [OF d e ready v] op by (simp add: finish_def settle_def)
next
  case (Err x)
  then show ?thesis using durable_silent(3) [OF d] err by (simp add: finish_def)
qed (use nf in simp)

lemma durable_log_op:
  assumes d: "durable l0 s" and e: "category e = CLog" and v: "memory_ok v0"
    and op: "gm_part v0 e (st_gm (d_st s)) = settle r m"
    and err: "\<And>x. r = Err x \<Longrightarrow> caches_ok m \<and> gm_logs m = gm_logs (st_gm (d_st s))"
    and nf: "\<not> is_fault r"
  shows "durable l0 (snd (finish c e r (set_gm m s)))"
proof (cases r)
  case (Ok x)
  then show ?thesis using durable_emit_log [OF d e v] op by (simp add: finish_def settle_def)
next
  case (Err x)
  then show ?thesis using durable_silent(4) [OF d] err by (simp add: finish_def)
qed (use nf in simp)

lemma finish_op: "finish c e r s = (x, s') \<Longrightarrow> s' = snd (finish c e r s) \<and> is_fault x = is_fault r"
  by (cases r) (auto simp: finish_def)

lemma durable_push:
  assumes d: "durable l0 s" and v: "memory_ok v0" and op: "db_list_push v0 k x s = (r, s')"
  shows "durable l0 s'"
proof -
  obtain rl l where p: "list_push True k x (st_list (d_st s)) = (rl, l)" by fastforce
  have g: "ev_grow v0 = (\<lambda>_. True)" using v by (simp add: memory_ok_def)
  note c = list_push_correct [OF conjunct1 [OF durableD [OF d]] p]
  have "durable l0 (snd (finish ListPushError (ListPush k x) rl (set_list l s)))"
  proof (rule durable_list_op [OF d _ v])
    show "queue_ready (ListPush k x) (queues (st_list (d_st s)))" if "rl = Ok y" for y
      using c(1) that by (auto simp: item_fits_def split: if_splits)
    show "list_inv l \<and> queues l = queues (st_list (d_st s))" if "rl = Err y" for y
      using c(2,4) that by (auto simp: queues_def)
    show "\<not> is_fault rl" using c(1) by simp
  qed (simp_all add: list_part_def settle_list_map(1) p g)
  then show ?thesis using op p g finish_op by (auto simp: db_list_push_def)
qed

lemma durable_push_range:
  assumes d: "durable l0 s" and v: "memory_ok v0" and op: "db_list_push_range v0 k xs s = (Ok u, s')"
  shows "durable l0 s'"
proof -
  obtain rl l where p: "list_push_range (\<lambda>_. True) k xs (st_list (d_st s)) = (rl, l)" by fastforce
  have g: "ev_grow v0 = (\<lambda>_. True)" using v by (simp add: memory_ok_def)
  have rl: "rl = Ok ()" using op p g by (cases rl) (auto simp: db_list_push_range_def finish_def)
  then have fit: "list_all item_fits xs"
    using list_push_range_correct [OF conjunct1 [OF durableD [OF d]], of k xs] p by (auto split: if_splits)
  have "durable l0 (snd (finish ListPushRangeError (ListPushRange k xs) rl (set_list l s)))"
    by (rule durable_list_op [OF d _ v]) (simp_all add: list_part_def settle_list_map(1) p g fit rl)
  then show ?thesis using op p g finish_op by (auto simp: db_list_push_range_def)
qed

lemma durable_pop:
  assumes d: "durable l0 s" and op: "db_list_pop k s = (r, s')"
  shows "durable l0 s'"
proof -
  obtain rl l where p: "list_pop k (st_list (d_st s)) = (rl, l)" by fastforce
  have "durable l0 (snd (finish ListPopError (ListPop k) rl (set_list l s)))"
    using conjunct1 [OF durableD [OF d]]
  proof (cases rule: list_pop_cases [where key = k])
    case (some x q l1)
    then show ?thesis using p by (intro durable_list_op [OF d _ memory_plain])
        (auto simp: list_part_def settle_list_map(1) queues_def queue_of_def)
  next
    case none
    then show ?thesis using p durableD [OF d] by (intro durable_list_op [OF d _ memory_plain])
        (auto simp: list_part_def settle_list_map(1))
  qed
  then show ?thesis using op p finish_op by (auto simp: db_list_pop_def)
qed

lemma durable_pop_range:
  assumes d: "durable l0 s" and op: "db_list_pop_range k a b s = (r, s')" "\<not> is_fault r"
  shows "durable l0 s'"
proof -
  obtain rl l where p: "list_pop_range k a b (st_list (d_st s)) = (rl, l)" by fastforce
  have nf: "\<not> is_fault rl" using op p by (auto simp: db_list_pop_range_def dest: finish_op)
  have "durable l0 (snd (finish ListPopRangeError (ListPopRange k a b) rl (set_list l s)))"
    using conjunct1 [OF durableD [OF d]]
  proof (cases rule: pop_range_cases [where key = k and a = a and b = b])
    case (ok q l1)
    then show ?thesis using p nf by (intro durable_list_op [OF d _ memory_plain])
        (auto simp: list_part_def settle_list_map(1) queues_def queue_of_def)
  qed (use p nf durableD [OF d] in \<open>auto intro!: durable_list_op [OF d _ memory_plain] simp: list_part_def settle_list_map(1)\<close>)
  then show ?thesis using op p finish_op by (auto simp: db_list_pop_range_def)
qed

lemma durable_pop_count:
  assumes d: "durable l0 s" and op: "db_list_pop_count k c s = (Ok ys, s')"
  shows "durable l0 s'"
proof -
  obtain rl l where p: "list_pop_count k c (st_list (d_st s)) = (rl, l)" by fastforce
  have rl: "rl = Ok ys" using op p by (cases rl) (auto simp: db_list_pop_count_def finish_def)
  then have cap: "with_capacity_ok 24 c" "pop_times (c + 1) k (st_list (d_st s)) = (Ok ys, l)"
    using p by (auto simp: list_pop_count_def split: if_splits simp del: pop_times.simps)
  have "c < length (queues (st_list (d_st s)) k)"
  proof (rule ccontr)
    assume "\<not> c < length (queues (st_list (d_st s)) k)"
    then show False
      using pop_times_short [OF conjunct1 [OF durableD [OF d]] refl, of k "c + 1"] cap(2)
      by (auto simp: queues_def simp del: pop_times.simps)
  qed
  then have "durable l0 (snd (finish ListPopCountError (ListPopCount k c) rl (set_list l s)))"
    by (intro durable_list_op [OF d _ memory_plain]) (simp_all add: list_part_def settle_list_map(1) p rl cap(1))
  then show ?thesis using op p finish_op by (auto simp: db_list_pop_count_def)
qed

lemma durable_flush:
  assumes d: "durable l0 s" and op: "db_list_flush k s = (r, s')"
  shows "durable l0 s'"
proof -
  obtain rl l where p: "list_flush k (st_list (d_st s)) = (rl, l)" by fastforce
  have inv: "list_inv (st_list (d_st s))" using durableD [OF d] by simp
  have "l = st_list (d_st s)" if "rl = Err x" for x
    using that p seglist.flush_some [OF inv, of k] seglist.flush_none [of "st_list (d_st s)" k]
    by (cases "list_content (st_list (d_st s)) k") auto
  then have "durable l0 (snd (finish ListFlushError (ListFlush k) rl (set_list l s)))"
    using flush_inv [OF inv p] by (intro durable_list_op [OF d _ memory_plain])
      (auto simp: list_part_def settle_list_map(1) p)
  then show ?thesis using op p finish_op by (auto simp: db_list_flush_def)
qed

lemma durable_len:
  assumes d: "durable l0 s" and op: "db_list_len k s = (r, s')"
  shows "durable l0 s'"
proof -
  obtain l where "list_len k (st_list (d_st s)) = (Ok (length (queue_of (list_content (st_list (d_st s))) k)), l)"
    "list_inv l" "list_content l = (list_content (st_list (d_st s)))(k \<mapsto> queues (st_list (d_st s)) k)"
    using list_len_correct [OF conjunct1 [OF durableD [OF d]], of k] by (auto simp: queues_def)
  then show ?thesis
    using op durable_silent(3) [OF d] queues_upd [of l] by (auto simp: db_list_len_def fun_upd_idem)
qed

lemma durable_create:
  assumes d: "durable l0 s" and v: "memory_ok v0"
    and op: "db_log_create_group v0 n s = (r, s')" "\<not> is_fault r"
  shows "durable l0 s'"
proof -
  obtain rm m where p: "create_group (ev_alloc v0) n (st_gm (d_st s)) = (rm, m)" by fastforce
  have "durable l0 (snd (finish LogCreateGroupError (LogCreateGroup n) rm (set_gm m s)))"
  proof (rule durable_log_op [OF d _ v])
    show "caches_ok m \<and> gm_logs m = gm_logs (st_gm (d_st s))" if "rm = Err x" for x
      using p that durableD [OF d] by (auto simp: create_group_def split: if_splits result.splits)
    show "\<not> is_fault rm" using op p by (auto simp: db_log_create_group_def dest: finish_op)
  qed (simp_all add: gm_part_def settle_gm_map(1) p)
  then show ?thesis using op p finish_op by (auto simp: db_log_create_group_def)
qed

lemma durable_drop:
  assumes d: "durable l0 s" and op: "db_log_drop_group n s = (r, s')"
  shows "durable l0 s'"
proof -
  obtain rm m where p: "drop_group n (st_gm (d_st s)) = (rm, m)" by fastforce
  have "durable l0 (snd (finish LogDropGroupError (LogDropGroup n) rm (set_gm m s)))"
    by (rule durable_log_op [OF d _ memory_plain])
      (use p durableD [OF d] in \<open>auto simp: gm_part_def settle_gm_map(1) drop_group_def split: if_splits\<close>)
  then show ?thesis using op p finish_op by (auto simp: db_log_drop_group_def)
qed

text \<open>A refused operation on one group leaves its log alone.\<close>

lemma with_group_refused:
  assumes "caches_ok m" "log_only op f" "with_group n op m = (r, m')"
    and "\<And>l. fst (f l) = r \<Longrightarrow> snd (f l) = l"
  shows "caches_ok m' \<and> gm_logs m' = gm_logs m"
proof (cases "hm_get (gm_groups m) n")
  case None
  with assms(1,3) show ?thesis by (simp add: with_group_def)
next
  case (Some g)
  then have "lru_inv (g_cache g)" using assms(1) by (simp add: caches_ok_def)
  from log_onlyE [OF assms(2) this] obtain c where
    c: "lru_inv c" "op g = (fst (f (g_log g)), g\<lparr>g_log := snd (f (g_log g)), g_cache := c\<rparr>)" .
  then have m': "m' = m\<lparr>gm_groups := hm_insert n (g\<lparr>g_log := g_log g, g_cache := c\<rparr>) (gm_groups m)\<rparr>"
    using assms(3,4) Some by (auto simp: with_group_def)
  have "gm_logs m' = gm_logs m" using Some unfolding m' gm_logs_put by (auto simp: gm_logs_def fun_eq_iff)
  moreover have "caches_ok m'" using caches_put [OF assms(1), of "g\<lparr>g_log := g_log g, g_cache := c\<rparr>"] c(1) m' by simp
  ultimately show ?thesis by simp
qed

lemma append_too_large: "fst (append_entry True ts p l) = Err log_error.EntryTooLarge \<Longrightarrow> snd (append_entry True ts p l) = l"
  by (auto simp: append_entry_def roll_segment_def allocate_seg_def Let_def split: if_splits option.splits)

lemma append_not_found: "fst (on_log f l) \<noteq> Err (GroupNotFound n)"
  by (cases "fst (f l)") (simp_all add: on_log_def)

lemma durable_add:
  assumes d: "durable l0 s" and v: "memory_ok v0" and op: "db_log_add v0 n ts p s = (r, s')"
    and r: "(\<exists>i. r = Ok i) \<or> r = Err (LogAppendError (GroupNotFound n)) \<or>
      r = Err (LogAppendError (GLogError log_error.EntryTooLarge))"
  shows "durable l0 s'"
proof -
  let ?op = "group_add (ev_hash v0) True (ev_clock v0 0) ts p" and ?f = "on_log (append_entry True ts p)"
  obtain rm m where p: "with_group n ?op (st_gm (d_st s)) = (rm, m)" by fastforce
  have g: "ev_alloc v0 = (\<lambda>_. True)" using v by (simp add: memory_ok_def)
  have rm: "(\<exists>i. rm = Ok i) \<or> rm = Err (GroupNotFound n) \<or> rm = Err (GLogError log_error.EntryTooLarge)"
    using op p g r by (cases rm) (auto simp: db_log_add_def gm_add_def finish_def)
  have "durable l0 (snd (finish LogAppendError (LogAdd n ts p) rm (set_gm m s)))"
  proof (rule durable_log_op [OF d _ v])
    show "caches_ok m \<and> gm_logs m = gm_logs (st_gm (d_st s))" if "rm = Err x" for x
    proof (rule with_group_refused [OF conjunct2 [OF durableD [OF d]] add_log_only p])
      fix l assume "fst (?f l) = rm"
      then have "fst (append_entry True ts p l) = Err log_error.EntryTooLarge"
        using rm that append_not_found [of "append_entry True ts p" l n]
        by (cases "fst (append_entry True ts p l)") (auto simp: on_log_def)
      then show "snd (?f l) = l" using append_too_large by (simp add: on_log_def)
    qed
    show "\<not> is_fault rm" using rm by auto
  qed (simp_all add: gm_part_def settle_gm_map(1) p g gm_add_def)
  then show ?thesis using op p g finish_op by (auto simp: db_log_add_def gm_add_def)
qed

lemma durable_add_range:
  assumes d: "durable l0 s" and v: "memory_ok v0" and op: "db_log_add_range v0 n es s = (Ok ij, s')"
  shows "durable l0 s'"
proof -
  obtain rm m where p: "gm_add_range (ev_hash v0) (ev_alloc v0) (ev_clock v0) n es (st_gm (d_st s)) = (rm, m)" by fastforce
  have rm: "rm = Ok ij" using op p by (cases rm) (auto simp: db_log_add_range_def finish_def)
  have "durable l0 (snd (finish LogAppendRangeError (LogAddRange n es) rm (set_gm m s)))"
    by (rule durable_log_op [OF d _ v]) (simp_all add: gm_part_def settle_gm_map(1) p rm)
  then show ?thesis using op p finish_op by (auto simp: db_log_add_range_def)
qed

lemma durable_remove:
  assumes d: "durable l0 s" and op: "db_log_remove v0 n i s = (r, s')" "\<not> is_fault r"
  shows "durable l0 s'"
proof -
  let ?v = "v0\<lparr>ev_alloc := \<lambda>_. True, ev_grow := \<lambda>_. True\<rparr>"
  obtain rm m where p: "with_group n (group_remove (ev_hash v0) i) (st_gm (d_st s)) = (rm, m)" by fastforce
  have nf: "\<not> is_fault rm" using op p by (auto simp: db_log_remove_def gm_remove_def dest: finish_op)
  have v0: "memory_ok ?v" by (simp add: memory_ok_def)
  have "durable l0 (snd (finish LogRemoveError (LogRemove n i) rm (set_gm m s)))"
  proof (rule durable_log_op [OF d _ v0])
    show "caches_ok m \<and> gm_logs m = gm_logs (st_gm (d_st s))" if "rm = Err x" for x
    proof (rule with_group_refused [OF conjunct2 [OF durableD [OF d]] remove_log_only p])
      show "snd (trim_unit i l) = l" if "fst (trim_unit i l) = rm" for l
        using that \<open>rm = Err x\<close> trim_not_Err [of i l] by (auto simp: trim_unit_def split: prod.splits result.splits)
    qed
  qed (simp_all add: gm_part_def settle_gm_map(1) p gm_remove_def nf)
  then show ?thesis using op p finish_op by (auto simp: db_log_remove_def gm_remove_def)
qed

lemma durable_cache_only:
  assumes d: "durable l0 s" and op: "\<And>g. lru_inv (g_cache g) \<Longrightarrow> \<exists>r c. lru_inv c \<and> f g = (r, g\<lparr>g_cache := c\<rparr>)"
  shows "durable l0 (set_gm (snd (with_group n f (st_gm (d_st s)))) s)"
  using durable_silent(4) [OF d] with_group_cache_only [OF conjunct2 [OF durableD [OF d]] op, of n] by simp

lemma durable_read:
  assumes "durable l0 s" "db_log_read v0 n i s = (r, s')"
  shows "durable l0 s'"
proof -
  have "s' = set_gm (snd (with_group n (group_read (ev_hash v0) (ev_clock v0 0) i) (st_gm (d_st s)))) s"
    using assms(2) by (simp add: db_log_read_def gm_read_def split: prod.splits)
  then show ?thesis using durable_cache_only [OF assms(1) group_read_cache_only] by simp
qed

lemma durable_read_range:
  assumes "durable l0 s" "db_log_read_range v0 n a b s = (r, s')"
  shows "durable l0 s'"
proof -
  have "s' = set_gm (snd (with_group n (group_read_range (ev_hash v0) (ev_clock v0) a b) (st_gm (d_st s)))) s"
    using assms(2) by (simp add: db_log_read_range_def gm_read_range_def split: prod.splits)
  then show ?thesis using durable_cache_only [OF assms(1) group_read_range_cache_only] by simp
qed

lemma durable_op:
  assumes "db_op s s'" "durable l0 s"
  shows "durable l0 s'"
  using assms(1,2)
proof (induction rule: db_op.induct)
  case (kv_set s v0 d k x ttl r s')
  then show ?case using durable_emit_kv by (auto simp: db_kv_set_def finish_def)
next
  case (kv_get s v0 d k ro s')
  then show ?case using durable_silent(1) by (auto simp: db_kv_get_def split: prod.splits)
next
  case (kv_del s d k r s')
  then show ?case
    using durable_emit_kv durable_silent(1) by (auto simp: db_kv_del_def finish_def split: prod.splits result.splits)
next
  case (kv_flush s d r s')
  then show ?case using durable_silent(1,2) by (auto simp: db_kv_flush_def)
next
  case (log_create s v0 n r s')
  show ?case by (rule durable_create [OF log_create(4) log_create(1-3)])
next
  case (log_drop s n r s')
  show ?case by (rule durable_drop [OF log_drop(2) log_drop(1)])
next
  case (log_add s v0 n ts p ri s')
  show ?case by (rule durable_add [OF log_add(4) log_add(1-3)])
next
  case (log_add_range s v0 n es ij s')
  show ?case by (rule durable_add_range [OF log_add_range(3) log_add_range(1,2)])
next
  case (log_read s v0 n i re s')
  show ?case by (rule durable_read [OF log_read(2) log_read(1)])
next
  case (log_read_range s v0 n a b res s')
  show ?case by (rule durable_read_range [OF log_read_range(3) log_read_range(1)])
next
  case (log_remove s v0 n i r s')
  show ?case by (rule durable_remove [OF log_remove(3) log_remove(1,2)])
next
  case (list_push s v0 k x r s')
  show ?case by (rule durable_push [OF list_push(3) list_push(1,2)])
next
  case (list_push_range s v0 k xs u s')
  show ?case by (rule durable_push_range [OF list_push_range(3) list_push_range(1,2)])
next
  case (list_pop s k rb s')
  show ?case by (rule durable_pop [OF list_pop(2) list_pop(1)])
next
  case (list_pop_range s k i j rs s')
  show ?case by (rule durable_pop_range [OF list_pop_range(3) list_pop_range(1,2)])
next
  case (list_pop_count s k c ys s')
  show ?case by (rule durable_pop_count [OF list_pop_count(2) list_pop_count(1)])
next
  case (list_len s k rn s')
  show ?case by (rule durable_len [OF list_len(2) list_len(1)])
next
  case (list_flush s k r s')
  show ?case by (rule durable_flush [OF list_flush(2) list_flush(1)])
qed

lemma db_history_durable: "db_history l0 s \<Longrightarrow> durable l0 s"
proof (induction rule: db_history.induct)
  case (opened tx)
  have "list_inv l0" using seglist_new_inv(1) [OF opened(1)] .
  then show ?case
    by (simp add: durable_def mirrored_def fresh_stores_def caches_ok_def gm_new_def)
qed (blast intro: durable_op)

section \<open>Properties\<close>

lemma of_cat_map: "of_cat c (map (Pair v) es) = map (Pair v) (filter (\<lambda>e. category e = c) es)"
  by (induction es) (simp_all add: of_cat_def)

lemma of_cat_append [simp]: "of_cat c (xs @ ys) = of_cat c xs @ of_cat c ys"
  by (simp add: of_cat_def)

lemma of_cat_other: "of_cat c xs = xs \<Longrightarrow> c' \<noteq> c \<Longrightarrow> of_cat c' xs = []"
  unfolding of_cat_id by (auto simp: of_cat_def filter_empty_conv)

lemma of_cat_tasks:
  assumes "of_cat CKv ks = ks" "of_cat CList ls = ls" "of_cat CLog gs = gs" "zs = ks @ ls @ gs \<or> zs = ls @ ks @ gs \<or> zs = gs @ ks @ ls"
  shows "of_cat CKv zs = ks" "of_cat CList zs = ls" "of_cat CLog zs = gs"
proof -
  note o = of_cat_other [OF assms(1), of CList] of_cat_other [OF assms(1), of CLog]
    of_cat_other [OF assms(2), of CKv] of_cat_other [OF assms(2), of CLog]
    of_cat_other [OF assms(3), of CKv] of_cat_other [OF assms(3), of CList]
  show "of_cat CKv zs = ks" "of_cat CList zs = ls" "of_cat CLog zs = gs" using assms o by auto
qed

lemma of_cat_snd: "map snd xs = filter (\<lambda>e. category e = c) es \<Longrightarrow> of_cat c xs = xs"
proof -
  assume "map snd xs = filter (\<lambda>e. category e = c) es"
  then have "snd ` set xs = set (filter (\<lambda>e. category e = c) es)" by (metis set_map)
  then show ?thesis by (auto simp: of_cat_id)
qed

text \<open>The work of the three tasks, put together again in the order of the file.\<close>

lemma tasks_merge:
  "map snd ks = filter (\<lambda>e. category e = CKv) es \<Longrightarrow> map snd ls = filter (\<lambda>e. category e = CList) es \<Longrightarrow>
   map snd gs = filter (\<lambda>e. category e = CLog) es \<Longrightarrow>
   \<exists>zs. map snd zs = es \<and> set zs = set (ks @ ls @ gs) \<and> of_cat CKv zs = ks \<and> of_cat CList zs = ls \<and> of_cat CLog zs = gs"
proof (induction es arbitrary: ks ls gs)
  case Nil
  then show ?case by (simp add: of_cat_def)
next
  case (Cons e es)
  show ?case
  proof (cases "category e")
    case CKv
    then obtain v ks' where k: "ks = (v, e) # ks'" "map snd ks' = filter (\<lambda>e. category e = CKv) es"
      using Cons.prems(1) by (cases ks) auto
    then obtain zs where "map snd zs = es" "set zs = set (ks' @ ls @ gs)" "of_cat CKv zs = ks'" "of_cat CList zs = ls" "of_cat CLog zs = gs"
      using Cons.IH [OF k(2), of ls gs] Cons.prems(2,3) CKv by auto
    then show ?thesis using k(1) CKv by (intro exI [of _ "(v, e) # zs"]) (auto simp: of_cat_def)
  next
    case CLog
    then obtain v gs' where k: "gs = (v, e) # gs'" "map snd gs' = filter (\<lambda>e. category e = CLog) es"
      using Cons.prems(3) by (cases gs) auto
    then obtain zs where "map snd zs = es" "set zs = set (ks @ ls @ gs')" "of_cat CKv zs = ks" "of_cat CList zs = ls" "of_cat CLog zs = gs'"
      using Cons.IH [OF _ _ k(2), of ks ls] Cons.prems(1,2) CLog by auto
    then show ?thesis using k(1) CLog by (intro exI [of _ "(v, e) # zs"]) (auto simp: of_cat_def)
  next
    case CList
    then obtain v ls' where k: "ls = (v, e) # ls'" "map snd ls' = filter (\<lambda>e. category e = CList) es"
      using Cons.prems(2) by (cases ls) auto
    then obtain zs where "map snd zs = es" "set zs = set (ks @ ls' @ gs)" "of_cat CKv zs = ks" "of_cat CList zs = ls'" "of_cat CLog zs = gs"
      using Cons.IH [OF _ k(2), of ks gs] Cons.prems(1,3) CList by auto
    then show ?thesis using k(1) CList by (intro exI [of _ "(v, e) # zs"]) (auto simp: of_cat_def)
  qed
qed

text \<open>A schedule that fails is one in which a replay in some order fails.\<close>

lemma replay_fails_order:
  assumes "replay_fails ks ls gs s" "of_cat CKv ks = ks" "of_cat CList ls = ls" "of_cat CLog gs = gs"
  shows "\<exists>zs. of_cat CKv zs = ks \<and> of_cat CList zs = ls \<and> of_cat CLog zs = gs \<and> replay zs s = None"
  using assms
proof (induction rule: replay_fails.induct)
  case (kv_fails v e s ks ls gs)
  show ?case
    by (rule exI [of _ "((v, e) # ks) @ ls @ gs"], intro conjI of_cat_tasks [OF kv_fails(2-4)])
      (simp_all add: kv_fails(1))
next
  case (list_fails v e s ks ls gs)
  show ?case
    by (rule exI [of _ "((v, e) # ls) @ ks @ gs"], intro conjI of_cat_tasks [OF list_fails(2-4)])
      (simp_all add: list_fails(1))
next
  case (log_fails v e s ks ls gs)
  show ?case
    by (rule exI [of _ "((v, e) # gs) @ ks @ ls"], intro conjI of_cat_tasks [OF log_fails(2-4)])
      (simp_all add: log_fails(1))
next
  case (kv_later v e s s1 ks ls gs)
  have c: "category e = CKv" "of_cat CKv ks = ks" using kv_later.prems(1) by (simp_all add: of_cat_id)
  then obtain zs where "of_cat CKv zs = ks" "of_cat CList zs = ls" "of_cat CLog zs = gs" "replay zs s1 = None"
    using kv_later by blast
  with c(1) kv_later(1) show ?case by (intro exI [of _ "(v, e) # zs"]) (simp add: of_cat_def)
next
  case (list_later v e s s1 ks ls gs)
  have c: "category e = CList" "of_cat CList ls = ls" using list_later.prems(2) by (simp_all add: of_cat_id)
  then obtain zs where "of_cat CKv zs = ks" "of_cat CList zs = ls" "of_cat CLog zs = gs" "replay zs s1 = None"
    using list_later by blast
  with c(1) list_later(1) show ?case by (intro exI [of _ "(v, e) # zs"]) (simp add: of_cat_def)
next
  case (log_later v e s s1 ks ls gs)
  have c: "category e = CLog" "of_cat CLog gs = gs" using log_later.prems(3) by (simp_all add: of_cat_id)
  then obtain zs where "of_cat CKv zs = ks" "of_cat CList zs = ls" "of_cat CLog zs = gs" "replay zs s1 = None"
    using log_later by blast
  with c(1) log_later(1) show ?case by (intro exI [of _ "(v, e) # zs"]) (simp add: of_cat_def)
qed

lemma load_and_apply_tasks:
  "load_and_apply from_json file s t \<longleftrightarrow> (\<exists>ks ls gs. replay_tasks from_json file ks ls gs \<and> replay_run ks ls gs s t)"
  by (auto simp: replay_tasks_def load_and_apply.simps split: option.splits; blast)

text \<open>
  A restart from a file always ends in the logs and the lists of given stores: the file is read, and
  with memory available no schedule of the three tasks fails, some schedule ends, and every schedule
  that ends leaves those logs and lists.
\<close>

definition restart_gives :: "(bytes \<Rightarrow> aof_entry option) \<Rightarrow> bytes option \<Rightarrow> seg_list \<Rightarrow> stores \<Rightarrow> bool" where
  "restart_gives from_json file l0 s \<longleftrightarrow> load_aof_separated from_json file \<noteq> None \<and>
     (\<forall>ks ls gs. replay_tasks from_json file ks ls gs \<and> (\<forall>z \<in> set (ks @ ls @ gs). memory_ok (fst z)) \<longrightarrow>
        \<not> replay_fails ks ls gs (fresh_stores l0) \<and> (\<exists>t. replay_run ks ls gs (fresh_stores l0) t) \<and>
        (\<forall>t. replay_run ks ls gs (fresh_stores l0) t \<longrightarrow>
           gm_logs (st_gm t) = gm_logs (st_gm s) \<and> queues (st_list t) = queues (st_list s)))"

lemma loaded_rebuilds:
  assumes "db_history l0 s" "load_lines from_json (lines_of file) = Some (d_aof s)"
  shows "restart_gives from_json (Some file) l0 (d_st s)"
proof -
  have load: "load_aof_separated from_json (Some file) =
      Some \<lparr>ae_kv = filter (\<lambda>e. category e = CKv) (d_aof s), ae_list = filter (\<lambda>e. category e = CList) (d_aof s),
            ae_log = filter (\<lambda>e. category e = CLog) (d_aof s)\<rparr>"
    using assms(2) by (simp add: load_aof_separated_def load_separated_lines_eq)
  have "\<not> replay_fails ks ls gs (fresh_stores l0) \<and> (\<exists>t. replay_run ks ls gs (fresh_stores l0) t) \<and>
      (\<forall>t. replay_run ks ls gs (fresh_stores l0) t \<longrightarrow>
         gm_logs (st_gm t) = gm_logs (st_gm (d_st s)) \<and> queues (st_list t) = queues (st_list (d_st s)))"
    if w: "replay_tasks from_json (Some file) ks ls gs" and m: "\<forall>z \<in> set (ks @ ls @ gs). memory_ok (fst z)" for ks ls gs
  proof -
    have w: "map snd ks = filter (\<lambda>e. category e = CKv) (d_aof s)" "map snd ls = filter (\<lambda>e. category e = CList) (d_aof s)"
      "map snd gs = filter (\<lambda>e. category e = CLog) (d_aof s)" using w load by (simp_all add: replay_tasks_def)
    note cat = of_cat_snd [OF w(1)] of_cat_snd [OF w(2)] of_cat_snd [OF w(3)]
    obtain zs where zs: "map snd zs = d_aof s" "set zs = set (ks @ ls @ gs)" "of_cat CKv zs = ks" "of_cat CList zs = ls" "of_cat CLog zs = gs"
      using tasks_merge [OF w] by blast
    obtain t where t: "replay zs (fresh_stores l0) = Some t" "mirrored (d_st s) t"
      using db_history_durable [OF assms(1)] zs(1,2) m unfolding durable_def by metis
    have same: "replay ys (fresh_stores l0) = Some t" if "of_cat CKv ys = ks" "of_cat CList ys = ls" "of_cat CLog ys = gs" for ys
      using replay_cong [of ys zs] zs(3-5) that t(1) by simp
    have "\<not> replay_fails ks ls gs (fresh_stores l0)" using replay_fails_order [OF _ cat] same by fastforce
    moreover have "replay_run ks ls gs (fresh_stores l0) t" using replay_run_file_order [OF t(1)] zs(3-5) by simp
    moreover have "t' = t" if "replay_run ks ls gs (fresh_stores l0) t'" for t'
      using replay_run_schedule [OF that cat] same by fastforce
    moreover have "gm_logs (st_gm t) = gm_logs (st_gm (d_st s)) \<and> queues (st_list t) = queues (st_list (d_st s))"
      using t(2) by (simp add: mirrored_def)
    ultimately show ?thesis by blast
  qed
  with load show ?thesis unfolding restart_gives_def by blast
qed

text \<open>
  C15. A restart rebuilds the logs and the lists, however it is scheduled: for every history without
  partial failures and with memory available, the file the writer wrote is read back, and when its
  entries are replayed with memory available, in whatever environments (hashes, clocks, hash map
  orders), then no interleaving of the three concurrent tasks meets an entry that fails, an
  interleaving that ends exists, and every one that ends has every log group as exactly the same
  segmented log (ids, timestamps, payloads, next id, segments) and every list key with exactly the same
  queue. Key-value entries are not part of the claim: their deadlines restart and their use counts are
  not recorded.
\<close>

theorem restart_rebuilds_logs_and_lists:
  assumes "db_history l0 s" "list_all (json_ok to_json from_json) (d_aof s)"
    and w: "file = Some (written_file to_json (d_aof s))"
  shows "load_aof_separated from_json file \<noteq> None \<and>
    (\<forall>ks ls gs. replay_tasks from_json file ks ls gs \<and> (\<forall>z \<in> set (ks @ ls @ gs). memory_ok (fst z)) \<longrightarrow>
       \<not> replay_fails ks ls gs (fresh_stores l0) \<and> (\<exists>t. replay_run ks ls gs (fresh_stores l0) t) \<and>
       (\<forall>t. replay_run ks ls gs (fresh_stores l0) t \<longrightarrow>
          gm_logs (st_gm t) = gm_logs (st_gm (d_st s)) \<and> queues (st_list t) = queues (st_list (d_st s))))"
  using loaded_rebuilds [OF assms(1)] load_written_lines [OF assms(2)] unfolding w
  by (simp add: written_file_def written_file_append restart_gives_def)

text \<open>A database with one pushed item.\<close>

lemma one_push:
  obtains l0 s where "seglist_new True = Ok l0" "db_op \<lparr>d_st = fresh_stores l0, d_aof = [], d_event_tx = tx\<rparr> s"
    "d_aof s = [ListPush ''k'' [7]]" "queues (st_list (d_st s)) ''k'' = [[7]]"
proof -
  let ?v = "\<lparr>ev_hash = (\<lambda>_. 0), ev_alloc = (\<lambda>_. True), ev_grow = (\<lambda>_. True), ev_clock = (\<lambda>_. 0), ev_now = (\<lambda>_. 0), ev_iter = id\<rparr>"
  obtain l0 where l0: "seglist_new True = Ok l0" "list_inv l0" "list_content l0 = (\<lambda>_. None)" by (rule fresh_list)
  let ?init = "\<lparr>d_st = fresh_stores l0, d_aof = [], d_event_tx = tx\<rparr>"
  obtain r l where p: "list_push True ''k'' [7] l0 = (r, l)" by fastforce
  note c = list_push_correct [OF l0(2) p]
  have r: "r = Ok ()" using c(1) by (simp add: LIST_HEADER_SIZE_def LIST_SEGMENT_SIZE_def)
  let ?s = "emit (ListPush ''k'' [7]) (set_list l ?init)"
  have "db_list_push ?v ''k'' [7] ?init = (Ok (), ?s)"
    using p r by (simp add: db_list_push_def fresh_stores_def finish_def)
  then have "db_op ?init ?s" by (rule db_op.list_push [OF memory_env])
  moreover have "queues l ''k'' = [[7]]" using c(3) [OF r] l0(3) by (simp add: queues_def queue_of_def)
  ultimately show thesis using that [OF l0(1)] by simp
qed

theorem restart_rebuilds_logs_and_lists_witness:
  "\<exists>l0 s t fj. db_history l0 s \<and> d_aof s = [ListPush ''k'' [7]] \<and>
     replay_tasks fj (Some (written_file (\<lambda>_. [123, 125]) (d_aof s))) [] [(plain_env, ListPush ''k'' [7])] [] \<and>
     replay_run [] [(plain_env, ListPush ''k'' [7])] [] (fresh_stores l0) t \<and>
     queues (st_list t) ''k'' = [[7]]"
proof -
  let ?fj = "\<lambda>_ :: bytes. Some (ListPush ''k'' [7])" and ?e = "(plain_env, ListPush ''k'' [7])"
  obtain l0 s where s: "seglist_new True = Ok l0" "db_op \<lparr>d_st = fresh_stores l0, d_aof = [], d_event_tx = None\<rparr> s"
    "d_aof s = [ListPush ''k'' [7]]" "queues (st_list (d_st s)) ''k'' = [[7]]" by (rule one_push)
  have h: "db_history l0 s" using db_history.after [OF db_history.opened [OF s(1)] s(2)] .
  have j: "list_all (json_ok (\<lambda>_. [123, 125]) ?fj) (d_aof s)" using s(3) by (simp add: json_ok_def)
  let ?f = "Some (written_file (\<lambda>_. [123, 125]) (d_aof s))"
  have w: "replay_tasks ?fj ?f [] [?e] []"
    using load_written_lines [OF j] unfolding replay_tasks_def load_aof_separated_def load_separated_lines_eq
      written_file_def written_file_append option.case by (simp add: s(3))
  note R = restart_rebuilds_logs_and_lists [OF h j refl, THEN conjunct2, rule_format, of "[]" "[?e]" "[]"]
  obtain t where "replay_run [] [?e] [] (fresh_stores l0) t" "queues (st_list t) = queues (st_list (d_st s))"
    using R w by auto
  with h s(3,4) w show ?thesis by (intro exI [of _ l0] exI [of _ s] exI [of _ t] exI [of _ ?fj]) simp
qed

text \<open>
  C40. A flush of a key-value database does not survive a restart: \<open>kv_flush\<close> sends the event but
  writes nothing to the file, so a key set before the flush is gone from the running database and
  is back after the file is replayed.
\<close>

theorem kv_flush_not_durable:
  assumes "db_kv_set v d k x 0 s = (r1, s1)" "db_kv_flush d s1 = (r2, s2)"
    and "replay (map (Pair v) (d_aof s2)) st0 = Some t"
  shows "d_aof s2 = d_aof s1 \<and> kv_content (st_kv (d_st s2)) (d, k) = None \<and>
    kv_content (st_kv t) (d, k) = Some x"
proof -
  have aof: "d_aof s2 = d_aof s @ [KvSet d k x 0]"
    using assms(1,2) by (auto simp: db_kv_set_def db_kv_flush_def finish_def)
  then obtain t1 where "apply_aof v (KvSet d k x 0) t1 = Some t"
    using assms(3) by (auto simp: replay_snoc bind_eq_Some_conv)
  then have "kv_content (st_kv t) (d, k) = Some x"
    by (auto simp: kv_content_def kv_entry_set)
  moreover have "kv_content (st_kv (d_st s2)) (d, k) = None"
    using assms(2) by (auto simp: db_kv_flush_def kv_content_def kv_entry_flush)
  ultimately show ?thesis
    using assms(1) aof by (auto simp: db_kv_set_def finish_def)
qed

theorem kv_flush_not_durable_witness:
  "\<exists>v st0 s1 s2 t. db_kv_set v ''d'' ''k'' [1] 0 \<lparr>d_st = st0, d_aof = [], d_event_tx = None\<rparr> = (Ok (), s1) \<and>
     db_kv_flush ''d'' s1 = (Ok (), s2) \<and> replay (map (Pair v) (d_aof s2)) st0 = Some t \<and>
     kv_content (st_kv (d_st s2)) (''d'', ''k'') = None \<and> kv_content (st_kv t) (''d'', ''k'') = Some [1]"
proof -
  let ?v = "\<lparr>ev_hash = (\<lambda>_. 0), ev_alloc = (\<lambda>_. True), ev_grow = (\<lambda>_. True), ev_clock = (\<lambda>_. 0), ev_now = (\<lambda>_. 0), ev_iter = id\<rparr>"
  let ?init = "\<lparr>d_st = fresh_stores no_list, d_aof = [], d_event_tx = None\<rparr>"
  obtain s1 where s1: "db_kv_set ?v ''d'' ''k'' [1] 0 ?init = (Ok (), s1)" by (simp add: db_kv_set_def finish_def)
  obtain s2 where s2: "db_kv_flush ''d'' s1 = (Ok (), s2)" by (simp add: db_kv_flush_def)
  have "d_aof s2 = [KvSet ''d'' ''k'' [1] 0]"
    using s1 s2 by (auto simp: db_kv_set_def db_kv_flush_def finish_def)
  then obtain t where t: "replay (map (Pair ?v) (d_aof s2)) (fresh_stores no_list) = Some t" by simp
  from kv_flush_not_durable [OF s1 s2 t] s1 s2 t show ?thesis by blast
qed

text \<open>
  A follower that applies shipped entries with \<open>DB::apply_aof\<close> applies the key-value entries
  only: its lists and log groups never change, whatever list and log entries it receives, and it
  records nothing.
\<close>

theorem follower_ignores_logs_and_lists:
  "let s' = snd (db_apply_aof es s) in
   st_list (d_st s') = st_list (d_st s) \<and> st_gm (d_st s') = st_gm (d_st s) \<and> d_aof s' = d_aof s \<and>
   st_kv (d_st s') = fold (\<lambda>(v, e). kv_part v e) (of_cat CKv es) (st_kv (d_st s))"
proof (induction es arbitrary: s)
  case (Cons x es)
  obtain v e where x: "x = (v, e)" by fastforce
  show ?case
    using Cons [of "follower_apply v e s"] x
    by (cases e) (simp_all add: db_apply_aof_def Let_def of_cat_def kv_part_def)
qed (simp add: db_apply_aof_def of_cat_def)

text \<open>
  A range push that fails half way is not recorded: the items before the one that does not fit
  stay in the list, the caller gets an error, and the file has no trace of them.
\<close>

theorem failed_push_range_unrecorded:
  assumes "list_reachable (st_list (d_st s))" "memory_ok v" "\<not> list_all item_fits items"
  shows "\<exists>s'. db_list_push_range v k items s = (Err (ListPushRangeError list_error.EntryTooLarge), s') \<and>
    d_aof s' = d_aof s \<and>
    queues (st_list (d_st s')) k = queues (st_list (d_st s)) k @ takeWhile item_fits items"
proof -
  have g: "ev_grow v = (\<lambda>_. True)" using assms(2) by (simp add: memory_ok_def)
  obtain l where l: "list_push_range (\<lambda>_. True) k items (st_list (d_st s)) = (Err list_error.EntryTooLarge, l)"
    "list_content l = (if takeWhile item_fits items = [] then list_content (st_list (d_st s))
      else (list_content (st_list (d_st s)))(k \<mapsto> queue_of (list_content (st_list (d_st s))) k @ takeWhile item_fits items))"
    using list_push_range_correct [OF list_reachable_inv_aux [OF assms(1)], of k items] assms(3) by auto
  then have "queues l k = queues (st_list (d_st s)) k @ takeWhile item_fits items"
    by (simp add: queues_def queue_of_def split: if_splits)
  with l(1) g show ?thesis by (simp add: db_list_push_range_def finish_def)
qed

theorem failed_push_range_unrecorded_witness:
  "\<exists>v s s'. db_list_push_range v ''k'' [[1], replicate LIST_SEGMENT_SIZE 0] s =
       (Err (ListPushRangeError list_error.EntryTooLarge), s') \<and>
     d_aof s' = [] \<and> queues (st_list (d_st s')) ''k'' = [[1]]"
proof -
  let ?v = "\<lparr>ev_hash = (\<lambda>_. 0), ev_alloc = (\<lambda>_. True), ev_grow = (\<lambda>_. True), ev_clock = (\<lambda>_. 0), ev_now = (\<lambda>_. 0), ev_iter = id\<rparr>"
  obtain l where l: "list_reachable l" "list_content l = (\<lambda>_. None)" by (rule fresh_list)
  let ?s = "\<lparr>d_st = fresh_stores l, d_aof = [], d_event_tx = None\<rparr>"
  have fits: "item_fits [1]" "\<not> item_fits (replicate LIST_SEGMENT_SIZE 0)"
    by (simp_all add: item_fits_def LIST_HEADER_SIZE_def LIST_SEGMENT_SIZE_def)
  have reach: "list_reachable (st_list (d_st ?s))" using l by (simp add: fresh_stores_def)
  have me: "memory_ok ?v" by (rule memory_env)
  obtain s' where "db_list_push_range ?v ''k'' [[1], replicate LIST_SEGMENT_SIZE 0] ?s =
      (Err (ListPushRangeError list_error.EntryTooLarge), s')" "d_aof s' = []"
    "queues (st_list (d_st s')) ''k'' = queues l ''k'' @ [[1]]"
    using failed_push_range_unrecorded [OF reach me, of "[[1], replicate LIST_SEGMENT_SIZE 0]" "''k''"] fits
    by (auto simp: fresh_stores_def)
  moreover have "queues l ''k'' = []" using l(2) by (simp add: queues_def queue_of_def)
  ultimately show ?thesis by auto
qed

end
