(* ===== verification/Recovery.thy ===== *)
theory Recovery
  imports Db_Props
begin

text \<open>
  The append-only file and crashes. The operations of the database hand their entries to the writer's
  channel (\<open>AofWriter::write\<close>), a worker task appends one line for each to the file, and a crash leaves
  some prefix of the bytes written. This theory shows what a restart finds then: an earlier state of
  the database, nothing at all when a character is cut, and what happens to entries that are appended
  behind a torn line.
\<close>

section \<open>The writer\<close>

text \<open>
  A running database with the worker of its file: the entries recorded are \<open>d_aof\<close>, of which the worker
  has taken \<open>nd_taken\<close> from the channel. A worker that cannot open the file panics in its own task;
  from then on entries are sent to a closed channel, which \<open>write\<close> ignores.
\<close>

record node =
  nd_db :: db
  nd_taken :: nat
  nd_file :: bytes
  nd_worker :: bool

definition writer_new :: "bool \<Rightarrow> db \<Rightarrow> bytes \<Rightarrow> node" where
  "writer_new opened d file = \<lparr>nd_db = d, nd_taken = 0, nd_file = file, nd_worker = opened\<rparr>"

definition channel :: "node \<Rightarrow> aof_entry list" where
  "channel n = drop (nd_taken n) (d_aof (nd_db n))"

inductive node_step :: "(aof_entry \<Rightarrow> bytes) \<Rightarrow> node \<Rightarrow> node \<Rightarrow> bool" for to_json where
  operate: "db_op (nd_db n) d \<Longrightarrow> node_step to_json n (n\<lparr>nd_db := d\<rparr>)"
| work: "nd_worker n \<Longrightarrow> channel n = e # rest \<Longrightarrow>
    node_step to_json n (n\<lparr>nd_file := aof_worker to_json e (nd_file n), nd_taken := Suc (nd_taken n)\<rparr>)"

text \<open>An operation records at most one entry.\<close>

lemma finish_aof: "finish c e r s = (x, s') \<Longrightarrow> d_aof s' = d_aof s \<or> d_aof s' = d_aof s @ [e]"
  by (cases r) (auto simp: finish_def)

lemma db_op_aof: "db_op s s' \<Longrightarrow> d_aof s' = d_aof s \<or> (\<exists>e. d_aof s' = d_aof s @ [e])"
proof (induction rule: db_op.induct)
qed (auto simp: db_kv_set_def db_kv_get_def db_kv_del_def db_kv_flush_def db_log_create_group_def
    db_log_drop_group_def db_log_add_def db_log_add_range_def db_log_read_def db_log_read_range_def
    db_log_remove_def db_list_push_def db_list_push_range_def db_list_pop_def db_list_pop_range_def
    db_list_pop_count_def db_list_len_def db_list_flush_def split: prod.splits dest!: finish_aof)

text \<open>Every prefix of the recorded entries is what an earlier state of the history had recorded.\<close>

lemma history_prefix:
  "db_history l0 s \<Longrightarrow> n \<le> length (d_aof s) \<Longrightarrow>
   \<exists>s0. db_history l0 s0 \<and> db_op\<^sup>*\<^sup>* s0 s \<and> d_aof s0 = take n (d_aof s)"
proof (induction rule: db_history.induct)
  case (opened tx)
  then show ?case using db_history.opened [of l0 tx] by auto
next
  case (after s s')
  show ?case
  proof (cases "n \<le> length (d_aof s)")
    case True
    then obtain s0 where s0: "db_history l0 s0" "db_op\<^sup>*\<^sup>* s0 s" "d_aof s0 = take n (d_aof s)"
      using after.IH by blast
    with True db_op_aof [OF after(2)] have "d_aof s0 = take n (d_aof s')" by auto
    with s0 after(2) show ?thesis by (meson rtranclp.rtrancl_into_rtrancl)
  next
    case False
    with after.prems db_op_aof [OF after(2)] have "take n (d_aof s') = d_aof s'" by auto
    with after(1,2) db_history.after show ?thesis by (intro exI [of _ s']) auto
  qed
qed

definition node_inv :: "seg_list \<Rightarrow> (aof_entry \<Rightarrow> bytes) \<Rightarrow> node \<Rightarrow> bool" where
  "node_inv l0 to_json n \<longleftrightarrow> db_history l0 (nd_db n) \<and> nd_taken n \<le> length (d_aof (nd_db n)) \<and>
     nd_file n = written_file to_json (take (nd_taken n) (d_aof (nd_db n)))"

lemma node_inv_step: "node_step to_json n n' \<Longrightarrow> node_inv l0 to_json n \<Longrightarrow> node_inv l0 to_json n'"
proof (induction rule: node_step.induct)
  case (operate n d)
  then show ?case using db_op_aof [OF operate(1)] by (auto simp: node_inv_def intro: db_history.after)
next
  case (work n e rest)
  then have l: "nd_taken n < length (d_aof (nd_db n))" "d_aof (nd_db n) ! nd_taken n = e"
    by (auto simp: channel_def dest: arg_cong [where f = length] nth_via_drop)
  with work show ?case by (simp add: node_inv_def take_Suc_conv_app_nth written_file_def)
qed

lemma node_inv_run: "(node_step to_json)\<^sup>*\<^sup>* n n' \<Longrightarrow> node_inv l0 to_json n \<Longrightarrow> node_inv l0 to_json n'"
  by (induction rule: rtranclp_induct) (auto intro: node_inv_step)

section \<open>A file cut short\<close>

definition line_of :: "(aof_entry \<Rightarrow> bytes) \<Rightarrow> aof_entry \<Rightarrow> bytes" where
  "line_of to_json e = to_json e @ [10]"

lemma written_file_lines: "written_file to_json es = concat (map (line_of to_json) es)"
  by (simp add: written_file_def written_file_append line_of_def [abs_def])

text \<open>What the code relies on besides \<open>json_ok\<close>: an unfinished JSON text does not parse.\<close>

definition json_whole :: "(aof_entry \<Rightarrow> bytes) \<Rightarrow> (bytes \<Rightarrow> aof_entry option) \<Rightarrow> aof_entry \<Rightarrow> bool" where
  "json_whole to_json from_json e \<longleftrightarrow>
     list_all (\<lambda>n. from_json (trim (take n (to_json e))) = None) [0..<length (to_json e)]"

text \<open>A prefix of the file is a number of whole lines and a piece of the next one, without its newline.\<close>

lemma take_written:
  obtains m j where "m \<le> length es" "take k (written_file to_json es) =
      written_file to_json (take m es) @ (if m < length es then take j (to_json (es ! m)) else [])"
    "j \<le> length (to_json (es ! m))" "m < length es \<Longrightarrow> k < length (written_file to_json (take (Suc m) es))"
proof -
  have "\<exists>m j. m \<le> length es \<and> take k (written_file to_json es) =
      written_file to_json (take m es) @ (if m < length es then take j (to_json (es ! m)) else []) \<and>
      j \<le> length (to_json (es ! m)) \<and> (m < length es \<longrightarrow> k < length (written_file to_json (take (Suc m) es)))"
  proof (induction es arbitrary: k)
    case (Cons e es)
    show ?case
    proof (cases "k < length (line_of to_json e)")
      case True
      then show ?thesis
        by (intro exI [of _ 0] exI [of _ "min k (length (to_json e))"])
          (auto simp: written_file_lines line_of_def min_def)
    next
      case False
      obtain m j where IH: "m \<le> length es" "take (k - length (line_of to_json e)) (written_file to_json es) =
          written_file to_json (take m es) @ (if m < length es then take j (to_json (es ! m)) else [])"
        "j \<le> length (to_json (es ! m))"
        "m < length es \<longrightarrow> k - length (line_of to_json e) < length (written_file to_json (take (Suc m) es))"
        using Cons.IH [of "k - length (line_of to_json e)"] by blast
      with False show ?thesis
        by (intro exI [of _ "Suc m"] exI [of _ j]) (auto simp: written_file_lines take_append)
    qed
  qed (auto simp: written_file_lines)
  with that show thesis by blast
qed

lemma load_lines_written:
  "list_all (json_ok to_json from_json) es \<Longrightarrow>
   load_lines from_json (lines_of (written_file to_json es @ rest)) = map_option ((@) es) (load_lines from_json (lines_of rest))"
proof (induction es)
  case (Cons e es)
  then have "10 \<notin> set (to_json e)" by (simp add: json_ok_def)
  then show ?case
    using Cons parse_written [of to_json from_json e]
    by (simp add: written_file_lines line_of_def lines_of_line option.map_comp o_def)
qed (cases "load_lines from_json (lines_of rest)"; simp add: written_file_lines)

lemma lines_of_last: "10 \<notin> set l \<Longrightarrow> l \<noteq> [] \<Longrightarrow> lines_of l = [l]"
  by (subst lines_of.simps) (auto simp: Let_def)

lemma lines_of_written:
  "list_all (json_ok to_json from_json) es \<Longrightarrow>
   lines_of (written_file to_json es @ rest) = map to_json es @ lines_of rest"
proof (induction es)
  case (Cons e es)
  then have "10 \<notin> set (to_json e)" by (simp add: json_ok_def)
  then show ?case
    using Cons parse_written [of to_json from_json e] by (simp add: written_file_lines line_of_def lines_of_line)
qed (simp add: written_file_lines)

lemma load_torn:
  assumes "list_all (json_ok to_json from_json) es" "json_ok to_json from_json e" "json_whole to_json from_json e"
    and "j \<le> length (to_json e)"
  shows "load_lines from_json (lines_of (written_file to_json es @ take j (to_json e))) =
    (if \<not> utf8_valid (take j (to_json e)) then None
     else Some (if j = length (to_json e) then es @ [e] else es))"
proof (cases "take j (to_json e) = []")
  case True
  moreover have "to_json e \<noteq> []" using assms(2) by (simp add: json_ok_def)
  ultimately show ?thesis using load_lines_written [OF assms(1), of "[]"] by auto
next
  case False
  have "10 \<notin> set (take j (to_json e))" using assms(2) by (auto simp: json_ok_def dest: in_set_takeD)
  then have l: "lines_of (take j (to_json e)) = [take j (to_json e)]" using False by (rule lines_of_last)
  have "parse_line from_json (take j (to_json e)) =
      (if \<not> utf8_valid (take j (to_json e)) then BadLine else if j = length (to_json e) then Entry e else Skip)"
  proof (cases "j = length (to_json e)")
    case True
    then show ?thesis using parse_written [OF assms(2)] assms(2) by (simp add: json_ok_def)
  next
    case False
    then have "from_json (trim (take j (to_json e))) = None"
      using assms(3,4) by (auto simp: json_whole_def list_all_iff)
    with False show ?thesis by (simp add: parse_line_def)
  qed
  then show ?thesis using l load_lines_written [OF assms(1), of "take j (to_json e)"] by simp
qed

section \<open>Restart after a crash\<close>

text \<open>The entries a restart reads from a file that was cut short.\<close>

lemma load_cut:
  assumes ok: "list_all (json_ok to_json from_json) es" "list_all (json_whole to_json from_json) es"
    and lines: "list_all utf8_valid (lines_of (take k (written_file to_json es)))"
  obtains n where "n \<le> length es" "load_lines from_json (lines_of (take k (written_file to_json es))) = Some (take n es)"
    "\<And>i. i \<le> length es \<Longrightarrow> length (written_file to_json (take i es)) \<le> k \<Longrightarrow> i \<le> n"
proof -
  obtain m j where mj: "m \<le> length es" "take k (written_file to_json es) =
      written_file to_json (take m es) @ (if m < length es then take j (to_json (es ! m)) else [])"
    "j \<le> length (to_json (es ! m))" "m < length es \<Longrightarrow> k < length (written_file to_json (take (Suc m) es))"
    by (rule take_written [where es = es and k = k and to_json = to_json]) blast
  have okm: "list_all (json_ok to_json from_json) (take m es)" using ok(1) by (auto simp: list_all_iff dest: in_set_takeD)
  have mono: "length (written_file to_json (take i es)) \<le> length (written_file to_json (take i' es))" if "i \<le> i'" for i i'
  proof -
    have "take i' es = take i es @ take (i' - i) (drop i es)" using that by (metis le_add_diff_inverse take_add)
    then show ?thesis by (simp add: written_file_lines)
  qed
  show thesis
  proof (cases "m < length es")
    case False
    then have "load_lines from_json (lines_of (take k (written_file to_json es))) = Some (take m es)"
      using mj(2) load_lines_written [OF okm, of "[]"] by simp
    with that [of m] mj(1) False show thesis by simp
  next
    case True
    let ?e = "es ! m" and ?n = "if j = length (to_json (es ! m)) then Suc m else m"
    have e: "json_ok to_json from_json ?e" "json_whole to_json from_json ?e" using ok True by (auto simp: list_all_length)
    have nl: "10 \<notin> set (take j (to_json ?e))" using e(1) by (auto simp: json_ok_def dest: in_set_takeD)
    have "list_all utf8_valid (lines_of (take j (to_json ?e)))"
      using lines mj(2) True lines_of_written [OF okm, of "take j (to_json ?e)"] by simp
    then have v: "utf8_valid (take j (to_json ?e))"
      using lines_of_last [OF nl] by (cases "take j (to_json ?e) = []") auto
    have "load_lines from_json (lines_of (take k (written_file to_json es))) = Some (take ?n es)"
      using mj(2) True load_torn [OF okm e mj(3)] v by (simp add: take_Suc_conv_app_nth)
    moreover have "i \<le> ?n" if "length (written_file to_json (take i es)) \<le> k" for i
    proof (rule ccontr)
      assume "\<not> i \<le> ?n"
      then have "Suc m \<le> i" by (auto split: if_splits)
      then show False using mono [of "Suc m" i] mj(4) [OF True] that by simp
    qed
    ultimately show thesis using that [of ?n] True by auto
  qed
qed

text \<open>
  C11. A crash loses only the end of the history: for a database that ran without partial failures and
  with memory available, and for whatever prefix of the file's bytes is on disk when the process dies,
  if its lines are still UTF-8 then there is an earlier state of the running database, one that had
  recorded every entry whose line reached the disk, and a restart ends in exactly its logs and lists:
  the file is read, and when its entries are replayed with memory available, in whatever environments,
  no interleaving of the three tasks meets an entry that fails, an interleaving that ends exists, and
  every one that ends has the logs and the lists of that state. (Key-value entries are not part of it.)
\<close>

theorem crash_recovers_earlier_state:
  assumes "seglist_new True = Ok l0"
    and "(node_step to_json)\<^sup>*\<^sup>* (writer_new True \<lparr>d_st = fresh_stores l0, d_aof = [], d_event_tx = tx\<rparr> []) n"
    and "list_all (json_ok to_json from_json) (d_aof (nd_db n))" and "list_all (json_whole to_json from_json) (d_aof (nd_db n))"
    and "list_all utf8_valid (lines_of (take k (nd_file n)))"
  shows "\<exists>s0. db_history l0 s0 \<and> db_op\<^sup>*\<^sup>* s0 (nd_db n) \<and>
    (\<forall>i \<le> nd_taken n. length (written_file to_json (take i (d_aof (nd_db n)))) \<le> k \<longrightarrow> i \<le> length (d_aof s0)) \<and>
    load_aof_separated from_json (Some (take k (nd_file n))) \<noteq> None \<and>
    (\<forall>ks ls gs. replay_tasks from_json (Some (take k (nd_file n))) ks ls gs \<and>
         (\<forall>z \<in> set (ks @ ls @ gs). memory_ok (fst z)) \<longrightarrow>
       \<not> replay_fails ks ls gs (fresh_stores l0) \<and> (\<exists>t. replay_run ks ls gs (fresh_stores l0) t) \<and>
       (\<forall>t. replay_run ks ls gs (fresh_stores l0) t \<longrightarrow>
          gm_logs (st_gm t) = gm_logs (st_gm (d_st s0)) \<and> queues (st_list t) = queues (st_list (d_st s0))))"
proof -
  let ?es = "take (nd_taken n) (d_aof (nd_db n))"
  have "node_inv l0 to_json (writer_new True \<lparr>d_st = fresh_stores l0, d_aof = [], d_event_tx = tx\<rparr> [])"
    using db_history.opened [OF assms(1)] by (simp add: node_inv_def writer_new_def written_file_def)
  with assms(2) have inv: "node_inv l0 to_json n" by (rule node_inv_run)
  then have f: "nd_file n = written_file to_json ?es" and h: "db_history l0 (nd_db n)"
    and l: "nd_taken n \<le> length (d_aof (nd_db n))" by (simp_all add: node_inv_def)
  have ok: "list_all (json_ok to_json from_json) ?es" "list_all (json_whole to_json from_json) ?es"
    using assms(3,4) by (auto simp: list_all_iff dest: in_set_takeD)
  obtain m where m: "m \<le> length ?es" "load_lines from_json (lines_of (take k (nd_file n))) = Some (take m ?es)"
    "\<And>i. i \<le> length ?es \<Longrightarrow> length (written_file to_json (take i ?es)) \<le> k \<Longrightarrow> i \<le> m"
    using load_cut [OF ok] assms(5) f by metis
  obtain s0 where s0: "db_history l0 s0" "db_op\<^sup>*\<^sup>* s0 (nd_db n)" "d_aof s0 = take m (d_aof (nd_db n))"
    using history_prefix [OF h, of m] m(1) l by auto
  have "take m ?es = take m (d_aof (nd_db n))" using m(1) l by simp
  with s0(3) m(2) have "load_lines from_json (lines_of (take k (nd_file n))) = Some (d_aof s0)" by simp
  note t = loaded_rebuilds [OF s0(1) this, unfolded restart_gives_def]
  have "i \<le> length (d_aof s0)"
    if "i \<le> nd_taken n" "length (written_file to_json (take i (d_aof (nd_db n)))) \<le> k" for i
    using m(3) [of i] that l s0(3) m(1) by (simp add: min_def)
  with s0(1,2) t show ?thesis by (intro exI [of _ s0]) blast
qed

theorem crash_recovers_earlier_state_witness:
  "\<exists>l0 n s0 t. (node_step (\<lambda>_. [123, 125]))\<^sup>*\<^sup>* (writer_new True \<lparr>d_st = fresh_stores l0, d_aof = [], d_event_tx = None\<rparr> []) n \<and>
     nd_file n = [123, 125, 10] \<and> db_op\<^sup>*\<^sup>* s0 (nd_db n) \<and> d_aof s0 \<noteq> [] \<and>
     replay_tasks (\<lambda>b. if b = [123, 125] then Some (ListPush ''k'' [7]) else None) (Some (take 3 (nd_file n)))
       [] [(plain_env, ListPush ''k'' [7])] [] \<and>
     replay_run [] [(plain_env, ListPush ''k'' [7])] [] (fresh_stores l0) t \<and>
     queues (st_list t) = queues (st_list (d_st s0))"
proof -
  let ?tj = "\<lambda>_ :: aof_entry. [123, 125] :: bytes"
  let ?fj = "\<lambda>b :: bytes. if b = [123, 125] then Some (ListPush ''k'' [7]) else None"
  obtain l0 s where s: "seglist_new True = Ok l0" "db_op \<lparr>d_st = fresh_stores l0, d_aof = [], d_event_tx = None\<rparr> s"
    "d_aof s = [ListPush ''k'' [7]]" by (rule one_push)
  let ?a = "writer_new True \<lparr>d_st = fresh_stores l0, d_aof = [], d_event_tx = None\<rparr> []"
  let ?b = "?a\<lparr>nd_db := s\<rparr>" and ?c = "?a\<lparr>nd_db := s, nd_file := [123, 125, 10], nd_taken := 1\<rparr>"
  have "node_step ?tj ?a ?b" by (rule node_step.operate) (simp add: writer_new_def s(2))
  moreover have "node_step ?tj ?b ?c"
    using node_step.work [of ?b "ListPush ''k'' [7]" "[]" ?tj] s(3) by (simp add: writer_new_def channel_def aof_worker_def)
  ultimately have r: "(node_step ?tj)\<^sup>*\<^sup>* ?a ?c" by (rule converse_rtranclp_into_rtranclp [OF _ r_into_rtranclp])
  have t: "trim [] \<noteq> [123, 125]" "trim [123] \<noteq> [123, 125]" by code_simp+
  have "list_all (json_ok ?tj ?fj) (d_aof (nd_db ?c))" "list_all (json_whole ?tj ?fj) (d_aof (nd_db ?c))"
    using s(3) t by (simp_all add: json_ok_def json_whole_def upt_rec)
  moreover have "list_all utf8_valid (lines_of (take 3 (nd_file ?c)))"
    using lines_of_line [of "[123, 125]" "[]"] by (simp add: writer_new_def strip_cr_def)
  ultimately obtain s0 where *: "db_op\<^sup>*\<^sup>* s0 (nd_db ?c)"
    "\<forall>i \<le> nd_taken ?c. length (written_file ?tj (take i (d_aof (nd_db ?c)))) \<le> 3 \<longrightarrow> i \<le> length (d_aof s0)"
    and R: "\<forall>ks ls gs. replay_tasks ?fj (Some (take 3 (nd_file ?c))) ks ls gs \<and> (\<forall>z \<in> set (ks @ ls @ gs). memory_ok (fst z)) \<longrightarrow>
       \<not> replay_fails ks ls gs (fresh_stores l0) \<and> (\<exists>t. replay_run ks ls gs (fresh_stores l0) t) \<and>
       (\<forall>t. replay_run ks ls gs (fresh_stores l0) t \<longrightarrow>
          gm_logs (st_gm t) = gm_logs (st_gm (d_st s0)) \<and> queues (st_list t) = queues (st_list (d_st s0)))"
    using crash_recovers_earlier_state [OF s(1) r] by blast
  have "1 \<le> length (d_aof s0)" using *(2) [rule_format, of 1] s(3) by (simp add: written_file_lines line_of_def)
  then have ne: "d_aof s0 \<noteq> []" by auto
  have "trim [123, 125] = [123, 125]" "utf8_valid [123, 125]" by code_simp+
  then have "parse_line ?fj (strip_cr [123, 125]) = Entry (ListPush ''k'' [7])" by (simp add: parse_line_def strip_cr_def)
  then have "load_lines ?fj (lines_of ([123, 125] @ 10 # [])) = Some [ListPush ''k'' [7]]"
    using lines_of_line [of "[123, 125]" "[]"] by simp
  then have w: "replay_tasks ?fj (Some (take 3 (nd_file ?c))) [] [(plain_env, ListPush ''k'' [7])] []"
    by (simp add: replay_tasks_def load_aof_separated_def load_separated_lines_eq writer_new_def)
  obtain t where t: "replay_run [] [(plain_env, ListPush ''k'' [7])] [] (fresh_stores l0) t"
    "queues (st_list t) = queues (st_list (d_st s0))"
    using R [rule_format, of "[]" "[(plain_env, ListPush ''k'' [7])]" "[]"] w by auto
  show ?thesis using r *(1) ne w t by (intro exI [of _ l0] exI [of _ ?c] exI [of _ s0] exI [of _ t]) simp
qed

text \<open>The entries of a file in the order of its lines, sorted by category.\<close>

definition by_category :: "aof_entry list \<Rightarrow> aof_entries" where
  "by_category es = \<lparr>ae_kv = filter (\<lambda>e. category e = CKv) es, ae_list = filter (\<lambda>e. category e = CList) es,
     ae_log = filter (\<lambda>e. category e = CLog) es\<rparr>"

lemma load_separated_by_category:
  "load_aof_separated from_json (Some file) = map_option by_category (load_lines from_json (lines_of file))"
  by (simp add: load_aof_separated_def load_separated_lines_eq by_category_def [abs_def])

text \<open>
  C28. What a torn line costs: a line that ends inside a character makes the start of the database fail.
  Otherwise the next entry is appended to the torn line, where neither it nor what is left of the line
  parses: a later restart (\<open>load_aof_separated\<close>, whose result the three tasks replay) reads only the
  entries before, sorted by category, although the entry whose newline was missing had been read by
  the restart in between.
\<close>

theorem torn_line_loses_entries:
  assumes "list_all (json_ok to_json from_json) es" and "json_ok to_json from_json e" and "json_ok to_json from_json e'"
    and "0 < j" and "j \<le> length (to_json e)" and "from_json (take j (to_json e) @ to_json e') = None"
  shows "let file = written_file to_json es @ take j (to_json e) in
    (\<not> utf8_valid (take j (to_json e)) \<longrightarrow> (\<nexists>d. database_new from_json (Some file) tx d)) \<and>
    (utf8_valid (take j (to_json e)) \<longrightarrow>
       load_aof_separated from_json (Some (aof_worker to_json e' file)) = Some (by_category es)) \<and>
    (j = length (to_json e) \<longrightarrow> load_aof_separated from_json (Some file) = Some (by_category (es @ [e])))"
proof -
  let ?p = "take j (to_json e)" and ?q = "take j (to_json e) @ to_json e'"
  let ?f = "written_file to_json es @ ?p"
  have ne: "?p \<noteq> []" "to_json e \<noteq> []" using assms(2,4) by (auto simp: json_ok_def)
  have nl: "10 \<notin> set ?p" "10 \<notin> set ?q" using assms(2,3) by (auto simp: json_ok_def dest: in_set_takeD)
  have hd: "hd ?p = 123" using assms(2,4) ne by (simp add: json_ok_def hd_take)
  have "load_lines from_json (lines_of ?f) = None" if "\<not> utf8_valid ?p"
    using that load_lines_written [OF assms(1), of ?p] lines_of_last [OF nl(1) ne(1)] by (simp add: parse_line_def)
  then have "\<nexists>d. database_new from_json (Some ?f) tx d" if "\<not> utf8_valid ?p"
    using that by (auto simp: load_aof_separated_def load_separated_lines_eq elim!: database_new.cases load_and_apply.cases)
  moreover have "load_aof_separated from_json (Some (aof_worker to_json e' ?f)) = Some (by_category es)" if "utf8_valid ?p"
  proof -
    have "last ?q = 125" "strip_cr ?q = ?q" using assms(3) by (auto simp: json_ok_def strip_cr_def)
    moreover have "utf8_valid ?q" using that assms(3) by (intro utf8_valid_append) (auto simp: json_ok_def)
    moreover have "trim ?q = ?q"
      using hd ne \<open>last ?q = 125\<close> by (intro trim_id) (auto simp: ws_ascii_def)
    ultimately have "parse_line from_json (strip_cr ?q) = Skip" using assms(6) ne by (simp add: parse_line_def)
    moreover have "lines_of (?q @ 10 # []) = strip_cr ?q # lines_of []" using nl(2) by (rule lines_of_line)
    ultimately show ?thesis
      using load_lines_written [OF assms(1), of "?q @ [10]"] by (simp add: load_separated_by_category aof_worker_def)
  qed
  moreover have "load_aof_separated from_json (Some ?f) = Some (by_category (es @ [e]))" if "j = length (to_json e)"
    using that load_lines_written [OF assms(1), of ?p] lines_of_last [OF nl(1) ne(1)] parse_written [OF assms(2)]
    by (simp add: load_separated_by_category)
  ultimately show ?thesis by (simp add: Let_def)
qed

theorem torn_line_loses_entries_witness:
  "let tj = (\<lambda>_ :: aof_entry. [123, 0xC3, 0xA9, 125] :: bytes);
       fj = (\<lambda>b. if b = [123, 0xC3, 0xA9, 125] then Some (KvFlush ''d'') else None)
   in (\<nexists>d. database_new fj (Some [123, 0xC3]) None d) \<and>
      load_aof_separated fj (Some [123, 0xC3, 0xA9, 125]) = Some \<lparr>ae_kv = [KvFlush ''d''], ae_list = [], ae_log = []\<rparr> \<and>
      load_aof_separated fj (Some [123, 0xC3, 0xA9, 125, 123, 0xC3, 0xA9, 125, 10]) = Some \<lparr>ae_kv = [], ae_list = [], ae_log = []\<rparr>"
proof -
  let ?tj = "\<lambda>_ :: aof_entry. [123, 0xC3, 0xA9, 125] :: bytes" and ?e = "KvFlush ''d''"
  let ?fj = "\<lambda>b. if b = [123, 0xC3, 0xA9, 125 :: u8] then Some (KvFlush ''d'') else None"
  have u: "utf8_valid [123, 0xC3, 0xA9, 125]" "\<not> utf8_valid [123, 0xC3]" by code_simp+
  then have j: "json_ok ?tj ?fj ?e" by (simp add: json_ok_def del: utf8_valid.simps)
  show ?thesis
    using torn_line_loses_entries [of ?tj ?fj "[]" ?e ?e 2 None] torn_line_loses_entries [of ?tj ?fj "[]" ?e ?e 4 None] j u
    by (simp add: Let_def written_file_lines aof_worker_def by_category_def del: utf8_valid.simps)
qed

section \<open>Key-value entries\<close>

text \<open>What the recorded entries say of every key: the value last set and not deleted or flushed since.\<close>

fun kv_write :: "aof_entry \<Rightarrow> (string \<times> string \<Rightarrow> bytes option) \<Rightarrow> string \<times> string \<Rightarrow> bytes option" where
  "kv_write (KvSet db key val ttl) m = m((db, key) \<mapsto> val)"
| "kv_write (KvDel db key) m = m((db, key) := None)"
| "kv_write (KvFlush db) m = (\<lambda>x. if fst x = db then None else m x)"
| "kv_write _ m = m"

definition kv_written :: "aof_entry list \<Rightarrow> string \<times> string \<Rightarrow> bytes option" where
  "kv_written es = fold kv_write es Map.empty"

lemma kv_written_snoc [simp]: "kv_written [] = Map.empty" "kv_written (es @ [e]) = kv_write e (kv_written es)"
  by (simp_all add: kv_written_def)

lemma kv_write_other: "category e \<noteq> CKv \<Longrightarrow> kv_write e m = m"
  by (cases e) simp_all

lemma kv_written_filter: "kv_written (filter (\<lambda>e. category e = CKv) es) = kv_written es"
  by (induction es rule: rev_induct) (simp_all add: kv_write_other)

text \<open>The running store holds at most what was recorded: entries disappear by expiry, eviction and flushes.\<close>

lemma finish_kv: "finish c e r s = (x, s') \<Longrightarrow> d_st s' = d_st s \<and> d_aof s' = d_aof s @ (case r of Ok _ \<Rightarrow> [e] | _ \<Rightarrow> [])"
  by (cases r) (auto simp: finish_def)

lemma kv_below_get: "kv_content (snd (kv_get n1 n2 db key s)) \<subseteq>\<^sub>m kv_content s"
  using kvc.get_ok [of "(n1, n2)" "(db, key)" s] by simp

lemma kv_below_set: "kv_content (kv_set iter n1 n2 db key v ttl s) \<subseteq>\<^sub>m (kv_content s)((db, key) \<mapsto> v)"
  using kvc.insert_ok [of iter "(n1, n2, ttl)" "(db, key)" v s] by simp

lemma kv_below_written: "db_history l0 s \<Longrightarrow> kv_content (st_kv (d_st s)) \<subseteq>\<^sub>m kv_written (d_aof s)"
proof (induction rule: db_history.induct)
  case (opened tx)
  show ?case by (simp add: fresh_stores_def kv_new_def kv_content_def kv_entry_def get_db_mut_def db_new_def map_le_def dom_def)
next
  case (after s s')
  from after(2,3) show ?case
  proof (induction rule: db_op.induct)
    case (kv_set v d k x ttl s r s')
    then have "d_aof s' = d_aof s @ [KvSet d k x ttl]"
      "st_kv (d_st s') = kv_set (ev_iter v) (ev_now v 0) (ev_now v 1) d k x ttl (st_kv (d_st s))"
      by (auto simp: db_kv_set_def set_kv_def dest!: finish_kv)
    moreover have "(kv_content (st_kv (d_st s)))((d, k) \<mapsto> x) \<subseteq>\<^sub>m (kv_written (d_aof s))((d, k) \<mapsto> x)"
      using kv_set(2) by (rule map_le_upd)
    ultimately show ?case using map_le_trans [OF kv_below_set] by (simp del: fun_upd_apply)
  next
    case (kv_get v d k s ro s')
    then have "d_aof s' = d_aof s" "st_kv (d_st s') = snd (kv_get (ev_now v 0) (ev_now v 1) d k (st_kv (d_st s)))"
      by (auto simp: db_kv_get_def set_kv_def split: prod.splits)
    with kv_get(2) show ?case by (simp add: map_le_trans [OF kv_below_get])
  next
    case (kv_del d k s r s')
    obtain r0 kk where kk: "kv_del d k (st_kv (d_st s)) = (r0, kk)" by fastforce
    with kv_del(1) have "st_kv (d_st s') = kk" "d_aof s' = d_aof s @ (case r0 of Ok _ \<Rightarrow> [KvDel d k] | _ \<Rightarrow> [])"
      by (auto simp: db_kv_del_def set_kv_def dest!: finish_kv)
    moreover have "kv_content kk = (kv_content (st_kv (d_st s)))((d, k) := None)"
      using kv_entry_del [of d k "st_kv (d_st s)"] kk by (auto simp: kv_content_def)
    ultimately show ?case using kv_del(2) by (auto simp: map_le_def dom_def split: result.split)
  next
    case (kv_flush d s r s')
    then have "d_aof s' = d_aof s" "st_kv (d_st s') = kv_flush d (st_kv (d_st s))" by (auto simp: db_kv_flush_def set_kv_def)
    with kv_flush(2) show ?case by (auto simp: kv_content_def kv_entry_flush map_le_def dom_def split: if_splits)
  qed (auto simp: db_log_create_group_def db_log_drop_group_def db_log_add_def db_log_add_range_def db_log_read_def
      db_log_read_range_def db_log_remove_def db_list_push_def db_list_push_range_def db_list_pop_def
      db_list_pop_range_def db_list_pop_count_def db_list_len_def db_list_flush_def set_gm_def set_list_def
      split: prod.splits result.splits dest!: finish_kv)
qed

text \<open>
  A replay without evictions holds exactly what was recorded, and the deadline of an entry is counted
  from the clock of the replay.
\<close>

definition keys_set :: "aof_entry list \<Rightarrow> string \<Rightarrow> string set" where
  "keys_set es db = {k. \<exists>val ttl. KvSet db k val ttl \<in> set es}"

definition dated :: "(env \<times> aof_entry) list \<Rightarrow> kv_store \<Rightarrow> bool" where
  "dated ks s \<longleftrightarrow> (\<forall>db key e. kv_entry s (db, key) = Some e \<longrightarrow>
     (\<exists>v ttl. (v, KvSet db key (de_val e) ttl) \<in> set ks \<and> de_ttl e = (if ttl = 0 then 0 else ev_now v 0 + ttl)))"

definition kv_replayed :: "(env \<times> aof_entry) list \<Rightarrow> kv_store" where
  "kv_replayed ks = fold (\<lambda>(v, e). kv_part v e) ks kv_new"

lemma kv_replayed_snoc [simp]: "kv_replayed [] = kv_new" "kv_replayed (ks @ [(v, e)]) = kv_part v e (kv_replayed ks)"
  by (simp_all add: kv_replayed_def)

lemma finite_keys_set [simp]: "finite (keys_set es db)"
proof (induction es)
  case (Cons e es)
  have "keys_set (e # es) db \<subseteq> (case e of KvSet d k _ _ \<Rightarrow> {k} | _ \<Rightarrow> {}) \<union> keys_set es db"
    by (cases e) (auto simp: keys_set_def)
  moreover have "finite ((case e of KvSet d k _ _ \<Rightarrow> {k} | _ \<Rightarrow> {}) \<union> keys_set es db)" using Cons by (cases e) simp_all
  ultimately show ?case by (rule finite_subset)
qed (simp add: keys_set_def)


lemma kv_size_bound:
  assumes "kv_inv s" "dated ks s"
  shows "length (kd_entries (get_db_mut db s)) \<le> card (keys_set (map snd ks) db)"
proof -
  let ?m = "kd_entries (get_db_mut db s)"
  have "k \<in> keys_set (map snd ks) db" if "k \<in> set (map fst ?m)" for k
  proof -
    obtain e where "hm_get ?m k = Some e" using \<open>k \<in> set (map fst ?m)\<close> by (cases "hm_get ?m k") (auto simp: map_of_eq_None_iff)
    then have "kv_entry s (db, k) = Some e" by (simp add: kv_entry_def)
    then obtain v ttl where "(v, KvSet db k (de_val e) ttl) \<in> set ks" using assms(2) unfolding dated_def by blast
    then show ?thesis by (auto simp: keys_set_def image_iff intro!: exI [of _ "de_val e"] exI [of _ ttl] bexI [of _ "(v, KvSet db k (de_val e) ttl)"])
  qed
  then have "card (set (map fst ?m)) \<le> card (keys_set (map snd ks) db)" by (intro card_mono) auto
  moreover have "distinct (map fst ?m)" using kv_inv_db [OF assms(1)] by (simp add: hm_ok_def)
  ultimately show ?thesis using distinct_card by fastforce
qed

lemma kv_set_no_eviction:
  "length (kd_entries (get_db_mut db s)) < 1024 \<Longrightarrow> kv_set iter n1 n2 db key v ttl s = kv_set (\<lambda>m. m) n1 n2 db key v ttl s"
  by (simp add: kv_set_def Let_def)

lemma kv_replayed_exact:
  assumes "\<And>db. card (keys_set (map snd ks) db) < 1024"
  shows "kv_inv (kv_replayed ks) \<and> dated ks (kv_replayed ks) \<and> kv_content (kv_replayed ks) = kv_written (map snd ks)"
  using assms
proof (induction ks rule: rev_induct)
  case Nil
  show ?case by (simp add: kv_new_def kv_inv_def dated_def fun_eq_iff kv_content_def kv_entry_def get_db_mut_def db_new_def)
next
  case (snoc x ks)
  obtain v e where x: "x = (v, e)" by fastforce
  have "card (keys_set (map snd ks) db) < 1024" for db
  proof -
    have "keys_set (map snd ks) db \<subseteq> keys_set (map snd (ks @ [x])) db" by (auto simp: keys_set_def)
    from card_mono [OF finite_keys_set this] snoc.prems [of db] show ?thesis by simp
  qed
  then have IH: "kv_inv (kv_replayed ks)" "dated ks (kv_replayed ks)" "kv_content (kv_replayed ks) = kv_written (map snd ks)"
    and room: "length (kd_entries (get_db_mut db (kv_replayed ks))) < 1024" for db
    using snoc.IH kv_size_bound [of "kv_replayed ks" ks db] by (auto intro: le_less_trans)
  have id: "iter_ok (\<lambda>m. m)" by (simp add: iter_ok_def)
  have d: "dated (ks @ [(v, e)]) s'" if "\<And>y en. kv_entry s' y = Some en \<Longrightarrow> kv_entry (kv_replayed ks) y = Some en" for s'
    using IH(2) that unfolding dated_def by fastforce
  show ?case
  proof (cases e)
    case (KvSet db key val ttl)
    let ?s = "kv_set (\<lambda>m. m) (ev_now v 0) (ev_now v 1) db key val ttl (kv_replayed ks)"
    have "kv_entry ?s y = (if y = (db, key) then Some \<lparr>de_val = val, de_ttl = (if ttl = 0 then 0 else ev_now v 0 + ttl),
       de_used_count = 0, de_last_used = ev_now v 1\<rparr> else kv_entry (kv_replayed ks) y)" for y
      using room [of db] by (simp add: kv_entry_set)
    then have "dated (ks @ [(v, e)]) ?s" "kv_content ?s = (kv_content (kv_replayed ks))((db, key) \<mapsto> val)"
      using IH(2) KvSet by (auto simp: dated_def kv_content_def fun_eq_iff; metis)+
    then show ?thesis
      using x KvSet IH kv_set_inv [OF IH(1) id]
        kv_set_no_eviction [OF room [of db], of "ev_iter v" "ev_now v 0" "ev_now v 1" key val ttl]
      by (simp add: kv_part_def del: fun_upd_apply)
  next
    case (KvDel db key)
    have "dated (ks @ [(v, e)]) (snd (kv_del db key (kv_replayed ks)))"
      by (rule d) (simp add: kv_entry_del split: if_splits)
    moreover have "kv_content (snd (kv_del db key (kv_replayed ks))) = (kv_content (kv_replayed ks))((db, key) := None)"
      by (simp add: fun_eq_iff kv_content_def kv_entry_del)
    ultimately show ?thesis using x KvDel IH kv_del_inv [OF IH(1)] by (simp add: kv_part_def del: fun_upd_apply)
  next
    case (KvFlush db)
    have "dated (ks @ [(v, e)]) (kv_flush db (kv_replayed ks))"
      by (rule d) (simp add: kv_entry_flush split: if_splits)
    moreover have "kv_content (kv_flush db (kv_replayed ks)) = (\<lambda>x. if fst x = db then None else kv_written (map snd ks) x)"
      unfolding IH(3) [symmetric] by (simp add: fun_eq_iff kv_content_def kv_entry_flush)
    ultimately show ?thesis using x KvFlush IH kv_flush_inv [OF IH(1)] by (simp add: kv_part_def)
  qed (use x IH d [of "kv_replayed ks"] in \<open>simp_all add: kv_part_def\<close>)
qed

text \<open>The key-value store after the three tasks of a replay have joined.\<close>

lemma replay_run_kv:
  assumes "replay_run ks ls gs s t" "of_cat CKv ks = ks" "of_cat CList ls = ls" "of_cat CLog gs = gs" "st_kv s = kv_new"
  shows "st_kv t = kv_replayed ks"
proof -
  obtain zs where zs: "of_cat CKv zs = ks" "replay zs s = Some t" using replay_run_schedule [OF assms(1-4)] by blast
  have "run_parts (\<lambda>v e k. Some (kv_part v e k)) ys k = Some (fold (\<lambda>(v, e). kv_part v e) ys k)" for ys k
    by (induction ys arbitrary: k) auto
  then show ?thesis using zs assms(5) by (auto simp: replay_product kv_replayed_def bind_eq_Some_conv)
qed

text \<open>
  C29. The key-value store over a restart: when fewer than 1024 keys of every database were ever set,
  every key the database held comes back with its value, and every key that comes back has the value
  that was recorded last. Its deadline is counted again from the clock of the replay (\<open>v\<close>, the
  environment in which the replay applied the entry), so a key can be read until the time to live has
  passed once more after the restart, also when it had expired before.
\<close>

theorem restart_renews_deadlines:
  assumes "db_history l0 s" and "load_aof from_json (Some file) = Some (d_aof s)"
    and "load_aof_separated from_json (Some file) = Some es" and "map snd ks = ae_kv es"
    and "map snd ls = ae_list es" and "map snd gs = ae_log es" and "replay_run ks ls gs (fresh_stores l0) t"
    and "\<And>db. card (keys_set (d_aof s) db) < 1024"
  shows "(\<forall>x val. kv_content (st_kv (d_st s)) x = Some val \<longrightarrow> kv_content (st_kv t) x = Some val) \<and>
    kv_content (st_kv t) = kv_written (d_aof s) \<and>
    (\<forall>db key e. kv_entry (st_kv t) (db, key) = Some e \<longrightarrow>
      (\<exists>v ttl. (v, KvSet db key (de_val e) ttl) \<in> set ks \<and>
        (\<forall>n1 n2. fst (kv_get n1 n2 db key (st_kv t)) = None \<longleftrightarrow>
           ttl \<noteq> 0 \<and> ev_now v 0 + ttl \<noteq> 0 \<and> sint (ev_now v 0 + ttl) < sint n1)))"
proof -
  have es: "ae_kv es = filter (\<lambda>e. category e = CKv) (d_aof s)" "ae_list es = filter (\<lambda>e. category e = CList) (d_aof s)"
    "ae_log es = filter (\<lambda>e. category e = CLog) (d_aof s)"
    using assms(2,3) by (auto simp: load_aof_def load_aof_separated_def load_separated_lines_eq)
  have t: "st_kv t = kv_replayed ks"
    using replay_run_kv [OF assms(7)] of_cat_snd assms(4-6) es by (simp add: fresh_stores_def)
  have "keys_set (map snd ks) db = keys_set (d_aof s) db" for db
    using assms(4) es(1) by (auto simp: keys_set_def)
  then have r: "dated ks (st_kv t)" "kv_content (st_kv t) = kv_written (d_aof s)"
    using kv_replayed_exact [of ks] assms(4,8) t es(1) by (simp_all add: kv_written_filter)
  have "kv_content (st_kv t) x = Some val" if "kv_content (st_kv (d_st s)) x = Some val" for x val
    using kv_below_written [OF assms(1)] that r(2) by (metis domI map_le_def)
  moreover have "\<exists>v ttl. (v, KvSet db key (de_val e) ttl) \<in> set ks \<and> (\<forall>n1 n2. fst (kv_get n1 n2 db key (st_kv t)) = None \<longleftrightarrow>
       ttl \<noteq> 0 \<and> ev_now v 0 + ttl \<noteq> 0 \<and> sint (ev_now v 0 + ttl) < sint n1)"
    if e: "kv_entry (st_kv t) (db, key) = Some e" for db key e
  proof -
    obtain v ttl where "(v, KvSet db key (de_val e) ttl) \<in> set ks" "de_ttl e = (if ttl = 0 then 0 else ev_now v 0 + ttl)"
      using r(1) e unfolding dated_def by blast
    then show ?thesis using e by (intro exI [of _ v] exI [of _ ttl]) (simp add: kv_get_result)
  qed
  ultimately show ?thesis using r(2) by blast
qed

theorem restart_renews_deadlines_witness:
  "\<exists>l0 s fj file t v. db_history l0 s \<and> load_aof fj (Some file) = Some (d_aof s) \<and> ev_now v 0 = 1000 \<and>
     replay_run [(v, KvSet ''d'' ''k'' [5] 30)] [] [] (fresh_stores l0) t \<and>
     fst (kv_get 200 0 ''d'' ''k'' (st_kv (d_st s))) = None \<and>
     (\<exists>e. fst (kv_get 1010 0 ''d'' ''k'' (st_kv t)) = Some e \<and> de_val e = [5])"
proof -
  let ?v = "\<lambda>n. \<lparr>ev_hash = (\<lambda>_. 0), ev_alloc = (\<lambda>_. True), ev_grow = (\<lambda>_. True), ev_clock = (\<lambda>_. 0), ev_now = (\<lambda>_. n), ev_iter = id\<rparr>"
  let ?e = "KvSet ''d'' ''k'' [5] 30" and ?fj = "\<lambda>b :: bytes. if b = [123, 125] then Some (KvSet ''d'' ''k'' [5] 30) else None"
  let ?es = "\<lparr>ae_kv = [?e], ae_list = [], ae_log = []\<rparr>"
  obtain l0 where l0: "seglist_new True = Ok l0" "list_inv l0" "list_content l0 = (\<lambda>_. None)" by (rule fresh_list)
  let ?init = "\<lparr>d_st = fresh_stores l0, d_aof = [], d_event_tx = None\<rparr>"
  obtain r s where s: "db_kv_set (?v 100) ''d'' ''k'' [5] 30 ?init = (r, s)" by fastforce
  have h: "db_history l0 s" by (rule db_history.after [OF db_history.opened [OF l0(1)] db_op.kv_set [OF s]])
  have aof: "d_aof s = [?e]" "st_kv (d_st s) = kv_set id 100 100 ''d'' ''k'' [5] 30 kv_new"
    using s by (auto simp: db_kv_set_def set_kv_def fresh_stores_def dest!: finish_kv)
  have "trim [123, 125] = [123, 125]" "utf8_valid [123, 125]" by code_simp+
  then have p: "parse_line ?fj (strip_cr [123, 125]) = Entry ?e" by (simp add: parse_line_def strip_cr_def)
  have "load_lines ?fj (lines_of ([123, 125] @ 10 # [])) = Some [?e]"
    using p lines_of_line [of "[123, 125]" "[]"] by simp
  then have ld: "load_aof ?fj (Some [123, 125, 10]) = Some (d_aof s)" "load_aof_separated ?fj (Some [123, 125, 10]) = Some ?es"
    using aof by (simp_all add: load_aof_def load_aof_separated_def load_separated_lines_eq)
  obtain t where run: "replay_run [(?v 1000, ?e)] [] [] (fresh_stores l0) t"
    using replay_run.kv_task [OF _ replay_run.joined] by force
  have few: "card (keys_set (d_aof s) db) < 1024" for db
  proof -
    have "keys_set (d_aof s) db \<subseteq> {''k''}" using aof(1) by (auto simp: keys_set_def)
    then have "card (keys_set (d_aof s) db) \<le> card {''k''}" by (rule card_mono [rotated]) simp
    then show ?thesis by simp
  qed
  have tasks: "map snd [(?v 1000, ?e)] = ae_kv ?es" "map snd [] = ae_list ?es" "map snd [] = ae_log ?es" by simp_all
  note R = restart_renews_deadlines [OF h ld tasks run few]
  have "kv_content (st_kv t) (''d'', ''k'') = Some [5]" using R [THEN conjunct2, THEN conjunct1] aof(1) by (simp add: kv_written_def)
  then obtain e where e: "kv_entry (st_kv t) (''d'', ''k'') = Some e" "de_val e = [5]" by (auto simp: kv_content_def)
  then obtain v ttl where "(v, KvSet ''d'' ''k'' (de_val e) ttl) \<in> set [(?v 1000, ?e)]"
    "\<And>n1 n2. fst (kv_get n1 n2 ''d'' ''k'' (st_kv t)) = None \<longleftrightarrow>
       ttl \<noteq> 0 \<and> ev_now v 0 + ttl \<noteq> 0 \<and> sint (ev_now v 0 + ttl) < sint n1"
    using R [THEN conjunct2, THEN conjunct2] by blast
  then have "\<forall>n1 n2. fst (kv_get n1 n2 ''d'' ''k'' (st_kv t)) = None \<longleftrightarrow> (30 :: i64) \<noteq> 0 \<and> (1000 :: i64) + 30 \<noteq> 0 \<and>
      sint (1000 + 30 :: i64) < sint n1" by auto
  then have "fst (kv_get 1010 0 ''d'' ''k'' (st_kv t)) \<noteq> None" by simp
  then have "\<exists>e. fst (kv_get 1010 0 ''d'' ''k'' (st_kv t)) = Some e \<and> de_val e = [5]"
    using e by (auto simp: kv_get_result split: if_splits)
  moreover have "fst (kv_get 200 0 ''d'' ''k'' (st_kv (d_st s))) = None"
    using aof(2) by (simp add: kv_get_result kv_entry_set)
  ultimately show ?thesis using h ld(1) run
    by (intro exI [of _ l0] exI [of _ s] exI [of _ ?fj] exI [of _ "[123, 125, 10]"] exI [of _ t] exI [of _ "?v 1000"]) auto
qed

end
