(* ===== verification/Proto.thy ===== *)
theory Proto
  imports Utf8
begin

text \<open>
  The wire protocol of the server: the length-prefix codec (\<open>server/src/server/codec.rs\<close>), and the
  command tags, the request parser and the response builder of \<open>server/src/server/proto.rs\<close>.

  Indexing and slicing the buffer of a cursor panic out of range, and the length of the rest wraps around
  when \<open>pos\<close> is past the end; the checks of the readers are what keeps both from happening. A count read
  from a frame sizes a vector before its elements are read; such a request takes
  at most 24 bytes times a \<open>u32\<close> and never overflows \<open>isize\<close>, so \<open>with_capacity\<close> does not panic.
\<close>

named_theorems wire_simps \<open>evaluation of readers on the frames the writers build\<close>

section \<open>The codec\<close>

definition MAX_FRAME_SIZE :: nat where
  "MAX_FRAME_SIZE = 16 * 1024 * 1024"

text \<open>The result of \<open>decode\<close>: wait for more input, a frame and the input left, or an error.\<close>

datatype decoded = NeedMore | Frame bytes bytes | TooLarge nat

definition codec_decode :: "bytes \<Rightarrow> decoded" where
  "codec_decode src =
     (if length src < 4 then NeedMore
      else let frame_len = unat (u32_from_le (take 4 src)) in
        if frame_len > MAX_FRAME_SIZE then TooLarge frame_len
        else if length src < 4 + frame_len then NeedMore
        else Frame (take frame_len (drop 4 src)) (drop frame_len (drop 4 src)))"

definition codec_encode :: "bytes \<Rightarrow> bytes \<Rightarrow> bytes" where
  "codec_encode item dst = dst @ item"

text \<open>
  The frames of a connection's input, in order: \<open>decode\<close> is called until it wants more input or
  reports an error, which ends the connection.
\<close>

function decode_all :: "bytes \<Rightarrow> bytes list \<times> bytes \<times> bool" where
  "decode_all src =
     (case codec_decode src of
        NeedMore \<Rightarrow> ([], src, True)
      | TooLarge n \<Rightarrow> ([], src, False)
      | Frame f rest \<Rightarrow> (let (fs, r, ok) = decode_all rest in (f # fs, r, ok)))"
  by pat_completeness auto
termination
  by (relation "measure length") (auto simp: codec_decode_def Let_def split: if_splits)

declare decode_all.simps [simp del]

section \<open>Commands\<close>

definition CMD_CREATE_GROUP :: u8 where "CMD_CREATE_GROUP = 0x01"
definition CMD_DROP_GROUP :: u8 where "CMD_DROP_GROUP = 0x02"
definition CMD_ADD :: u8 where "CMD_ADD = 0x03"
definition CMD_ADD_RANGE :: u8 where "CMD_ADD_RANGE = 0x04"
definition CMD_READ :: u8 where "CMD_READ = 0x05"
definition CMD_READ_RANGE :: u8 where "CMD_READ_RANGE = 0x06"
definition CMD_REMOVE :: u8 where "CMD_REMOVE = 0x07"
definition CMD_LIST_GROUPS :: u8 where "CMD_LIST_GROUPS = 0x08"
definition CMD_GROUP_STATS :: u8 where "CMD_GROUP_STATS = 0x09"
definition CMD_SET :: u8 where "CMD_SET = 0x10"
definition CMD_GET :: u8 where "CMD_GET = 0x11"
definition CMD_DEL :: u8 where "CMD_DEL = 0x12"
definition CMD_KEYS :: u8 where "CMD_KEYS = 0x13"
definition CMD_FLUSH :: u8 where "CMD_FLUSH = 0x14"
definition LPUSH :: u8 where "LPUSH = 0x15"
definition LPUSH_RANGE :: u8 where "LPUSH_RANGE = 0x16"
definition LPOP :: u8 where "LPOP = 0x17"
definition LPOP_RANGE :: u8 where "LPOP_RANGE = 0x18"
definition LPOP_COUNT :: u8 where "LPOP_COUNT = 0x19"
definition LLEN :: u8 where "LLEN = 0x20"
definition LFLUSH :: u8 where "LFLUSH = 0x21"
definition HA_REGISTER :: u8 where "HA_REGISTER = 0x22"
definition HA_HEARTBEAT :: u8 where "HA_HEARTBEAT = 0x23"
definition HA_SYNC :: u8 where "HA_SYNC = 0x24"
definition STATUS_OK :: u8 where "STATUS_OK = 0x00"
definition STATUS_ERR :: u8 where "STATUS_ERR = 0x01"

lemmas tag_defs [wire_simps] =
  CMD_CREATE_GROUP_def CMD_DROP_GROUP_def CMD_ADD_def CMD_ADD_RANGE_def CMD_READ_def
  CMD_READ_RANGE_def CMD_REMOVE_def CMD_LIST_GROUPS_def CMD_GROUP_STATS_def CMD_SET_def CMD_GET_def
  CMD_DEL_def CMD_KEYS_def CMD_FLUSH_def LPUSH_def LPUSH_RANGE_def LPOP_def LPOP_RANGE_def
  LPOP_COUNT_def LLEN_def LFLUSH_def HA_REGISTER_def HA_HEARTBEAT_def HA_SYNC_def
  STATUS_OK_def STATUS_ERR_def

datatype command =
    CreateGroup string
  | DropGroup string
  | Add string u64 bytes
  | AddRange string "(u64 \<times> bytes) list"
  | Read string u64
  | ReadRange string u64 u64
  | Remove string u64
  | ListGroups
  | GroupStats string
  | SetKey string string bytes u64
  | GetKey string string
  | DelKey string string
  | Keys string
  | Flush string
  | LPush string bytes
  | LPushRange string "bytes list"
  | LPop string
  | LPopRange string u32 u32
  | LPopCount string u32
  | LLen string
  | LFlush string
  | StartPipeline
  | EndPipeline u64
  | HaRegisterFollower string
  | HaHeartBeat
  | HaSync "bytes list"

datatype parse_error = ParseError string

section \<open>The cursor\<close>

record cursor =
  cu_buf :: bytes
  cu_pos :: nat

type_synonym ('e, 'a) rd = "cursor \<Rightarrow> ('e, 'a \<times> cursor) result"
type_synonym 'a reader = "(parse_error, 'a) rd"

definition cursor_new :: "bytes \<Rightarrow> cursor" where
  "cursor_new buf = \<lparr>cu_buf = buf, cu_pos = 0\<rparr>"

text \<open>\<open>self.buf.len() - self.pos\<close>, in \<open>usize\<close>\<close>

definition remaining :: "cursor \<Rightarrow> nat" where
  "remaining c =
     (if cu_pos c \<le> length (cu_buf c) then length (cu_buf c) - cu_pos c
      else 2 ^ 64 - (cu_pos c - length (cu_buf c)))"

text \<open>\<open>self.pos += n\<close>\<close>

definition advance :: "nat \<Rightarrow> cursor \<Rightarrow> cursor" where
  "advance n c = c\<lparr>cu_pos := cu_pos c + n\<rparr>"

text \<open>\<open>self.buf[self.pos + k]\<close> and \<open>self.buf[self.pos..self.pos + n]\<close>\<close>

definition byte_at :: "nat \<Rightarrow> cursor \<Rightarrow> ('e, u8) result" where
  "byte_at k c =
     (if cu_pos c + k < length (cu_buf c) then Ok (cu_buf c ! (cu_pos c + k)) else Fault IndexPanic)"

definition slice :: "nat \<Rightarrow> cursor \<Rightarrow> ('e, bytes) result" where
  "slice n c =
     (if cu_pos c + n \<le> length (cu_buf c) then Ok (take n (drop (cu_pos c) (cu_buf c))) else Fault RangePanic)"

definition read_u8 :: "u8 reader" where
  "read_u8 c =
     (if remaining c < 1 then Err (ParseError ''unexpected EOF reading u8'')
      else map_ok (\<lambda>v. (v, advance 1 c)) (byte_at 0 c))"

definition read_u16_le :: "u16 reader" where
  "read_u16_le c =
     (if remaining c < 2 then Err (ParseError ''unexpected EOF reading u16'')
      else case byte_at 0 c of
        Ok b0 \<Rightarrow> map_ok (\<lambda>b1. (u16_from_le [b0, b1], advance 2 c)) (byte_at 1 c)
      | Err e \<Rightarrow> Err e | Fault p \<Rightarrow> Fault p)"

definition read_u32_le :: "u32 reader" where
  "read_u32_le c =
     (if remaining c < 4 then Err (ParseError ''unexpected EOF reading u32'')
      else map_ok (\<lambda>bs. (u32_from_le bs, advance 4 c)) (slice 4 c))"

definition read_u64_le :: "u64 reader" where
  "read_u64_le c =
     (if remaining c < 8 then Err (ParseError ''unexpected EOF reading u64'')
      else map_ok (\<lambda>bs. (u64_from_le bs, advance 8 c)) (slice 8 c))"

text \<open>The \<open>?\<close> operator: go on with the value and the moved cursor, or return the error.\<close>

definition rd_bind :: "('e, 'a) rd \<Rightarrow> ('a \<Rightarrow> ('e, 'b) rd) \<Rightarrow> ('e, 'b) rd" where
  "rd_bind m f c = (case m c of Ok (x, c') \<Rightarrow> f x c' | Err e \<Rightarrow> Err e | Fault p \<Rightarrow> Fault p)"

definition rd_return :: "'a \<Rightarrow> ('e, 'a) rd" where
  "rd_return x c = Ok (x, c)"

definition read_str :: "string reader" where
  "read_str = rd_bind read_u16_le (\<lambda>len c.
     if remaining c < unat len then Err (ParseError ''unexpected EOF reading string'')
     else case slice (unat len) c of
        Ok bs \<Rightarrow> (case from_utf8 bs of
            None \<Rightarrow> Err (ParseError ''invalid UTF-8'')
          | Some t \<Rightarrow> Ok (t, advance (unat len) c))
      | Err e \<Rightarrow> Err e | Fault p \<Rightarrow> Fault p)"

definition read_bytes :: "bytes reader" where
  "read_bytes = rd_bind read_u32_le (\<lambda>len c.
     if remaining c < unat len then Err (ParseError ''unexpected EOF reading bytes'')
     else map_ok (\<lambda>bs. (bs, advance (unat len) c)) (slice (unat len) c))"

text \<open>A loop \<open>for _ in 0..count\<close> that pushes what each round reads.\<close>

primrec read_many :: "nat \<Rightarrow> ('e, 'a) rd \<Rightarrow> ('e, 'a list) rd" where
  "read_many 0 m = rd_return []"
| "read_many (Suc n) m = rd_bind m (\<lambda>x. rd_bind (read_many n m) (\<lambda>xs. rd_return (x # xs)))"

definition read_stamped :: "(u64 \<times> bytes) reader" where
  "read_stamped = rd_bind read_u64_le (\<lambda>ts. rd_bind read_bytes (\<lambda>payload. rd_return (ts, payload)))"

section \<open>The parser\<close>

definition parse_body :: "u8 \<Rightarrow> command reader" where
  "parse_body tag =
     (if tag = CMD_CREATE_GROUP then rd_bind read_str (\<lambda>name. rd_return (CreateGroup name))
      else if tag = CMD_DROP_GROUP then rd_bind read_str (\<lambda>name. rd_return (DropGroup name))
      else if tag = CMD_ADD then
        rd_bind read_str (\<lambda>grp. rd_bind read_u64_le (\<lambda>timestamp. rd_bind read_bytes (\<lambda>payload.
          rd_return (Add grp timestamp payload))))
      else if tag = CMD_ADD_RANGE then
        rd_bind read_str (\<lambda>grp. rd_bind read_u32_le (\<lambda>n.
          rd_bind (read_many (unat n) read_stamped) (\<lambda>entries. rd_return (AddRange grp entries))))
      else if tag = CMD_READ then
        rd_bind read_str (\<lambda>grp. rd_bind read_u64_le (\<lambda>i. rd_return (Read grp i)))
      else if tag = CMD_READ_RANGE then
        rd_bind read_str (\<lambda>grp. rd_bind read_u64_le (\<lambda>start. rd_bind read_u64_le (\<lambda>end.
          rd_return (ReadRange grp start end))))
      else if tag = CMD_REMOVE then
        rd_bind read_str (\<lambda>grp. rd_bind read_u64_le (\<lambda>up_to. rd_return (Remove grp up_to)))
      else if tag = CMD_LIST_GROUPS then rd_return ListGroups
      else if tag = CMD_GROUP_STATS then rd_bind read_str (\<lambda>grp. rd_return (GroupStats grp))
      else if tag = CMD_SET then
        rd_bind read_str (\<lambda>db. rd_bind read_str (\<lambda>key. rd_bind read_u64_le (\<lambda>ttl_secs.
          rd_bind read_bytes (\<lambda>val. rd_return (SetKey db key val ttl_secs)))))
      else if tag = CMD_GET then
        rd_bind read_str (\<lambda>db. rd_bind read_str (\<lambda>key. rd_return (GetKey db key)))
      else if tag = CMD_DEL then
        rd_bind read_str (\<lambda>db. rd_bind read_str (\<lambda>key. rd_return (DelKey db key)))
      else if tag = CMD_KEYS then rd_bind read_str (\<lambda>db. rd_return (Keys db))
      else if tag = CMD_FLUSH then rd_bind read_str (\<lambda>db. rd_return (Flush db))
      else if tag = LPUSH then
        rd_bind read_str (\<lambda>db. rd_bind read_str (\<lambda>key. rd_bind read_bytes (\<lambda>val.
          rd_return (LPush key val))))
      else if tag = LPUSH_RANGE then
        rd_bind read_str (\<lambda>db. rd_bind read_str (\<lambda>key. rd_bind read_u32_le (\<lambda>n.
          rd_bind (read_many (unat n) read_bytes) (\<lambda>vals. rd_return (LPushRange key vals)))))
      else if tag = LPOP then
        rd_bind read_str (\<lambda>db. rd_bind read_str (\<lambda>key. rd_return (LPop key)))
      else if tag = LPOP_RANGE then
        rd_bind read_str (\<lambda>db. rd_bind read_str (\<lambda>key. rd_bind read_u32_le (\<lambda>start.
          rd_bind read_u32_le (\<lambda>end. rd_return (LPopRange key start end)))))
      else if tag = LPOP_COUNT then
        rd_bind read_str (\<lambda>db. rd_bind read_str (\<lambda>key. rd_bind read_u32_le (\<lambda>n.
          rd_return (LPopCount key n))))
      else if tag = LLEN then
        rd_bind read_str (\<lambda>db. rd_bind read_str (\<lambda>key. rd_return (LLen key)))
      else if tag = LFLUSH then
        rd_bind read_str (\<lambda>db. rd_bind read_str (\<lambda>key. rd_return (LFlush key)))
      else if tag = HA_REGISTER then rd_bind read_str (\<lambda>addr. rd_return (HaRegisterFollower addr))
      else if tag = HA_HEARTBEAT then rd_return HaHeartBeat
      else if tag = HA_SYNC then
        rd_bind read_u32_le (\<lambda>n. rd_bind (read_many (unat n) read_bytes) (\<lambda>vals.
          rd_return (HaSync vals)))
      else (\<lambda>c. Err (ParseError ''unknown command tag'')))"

definition parse_command :: "bytes \<Rightarrow> (parse_error, command) result" where
  "parse_command frame =
     (if frame = [] then Err (ParseError ''empty frame'')
      else case rd_bind read_u8 parse_body (cursor_new frame) of
         Ok (cmd, c) \<Rightarrow> Ok cmd | Err e \<Rightarrow> Err e | Fault p \<Rightarrow> Fault p)"

section \<open>Responses\<close>

text \<open>
  \<open>put_str\<close> and \<open>put_bytes\<close> are the two field shapes (a \<open>u16\<close> or \<open>u32\<close> length, then the bytes);
  \<open>finalize\<close> writes the length of the body over the first four bytes. The builder clears its buffer
  at the start of every response, so a response does not depend on the one before.
\<close>

definition put_str :: "string \<Rightarrow> bytes" where
  "put_str t = u16_le (word_of_nat (length t)) @ bytes_of_string t"

definition put_bytes :: "bytes \<Rightarrow> bytes" where
  "put_bytes bs = u32_le (word_of_nat (length bs)) @ bs"

definition put_entry :: "u64 \<times> u64 \<times> bytes \<Rightarrow> bytes" where
  "put_entry e = (case e of (i, ts, payload) \<Rightarrow> u64_le i @ u64_le ts @ put_bytes payload)"

definition finalize :: "bytes \<Rightarrow> bytes" where
  "finalize buf = u32_le (word_of_nat (length buf - 4)) @ drop 4 buf"

definition ok_empty :: bytes where
  "ok_empty = finalize ([0, 0, 0, 0] @ [STATUS_OK])"

definition ok_u64 :: "u64 \<Rightarrow> bytes" where
  "ok_u64 val = finalize ([0, 0, 0, 0] @ [STATUS_OK] @ u64_le val)"

definition ok_u64_pair :: "u64 \<Rightarrow> u64 \<Rightarrow> bytes" where
  "ok_u64_pair a b = finalize ([0, 0, 0, 0] @ [STATUS_OK] @ u64_le a @ u64_le b)"

definition ok_entry :: "u64 \<Rightarrow> u64 \<Rightarrow> bytes \<Rightarrow> bytes" where
  "ok_entry i ts payload =
     finalize ([0, 0, 0, 0] @ [STATUS_OK] @ u64_le i @ u64_le ts @ put_bytes payload)"

definition ok_entries :: "(u64 \<times> u64 \<times> bytes) list \<Rightarrow> bytes" where
  "ok_entries entries =
     finalize ([0, 0, 0, 0] @ [STATUS_OK] @ u32_le (word_of_nat (length entries)) @
       concat (map put_entry entries))"

definition ok_group_list :: "string list \<Rightarrow> bytes" where
  "ok_group_list groups =
     finalize ([0, 0, 0, 0] @ [STATUS_OK] @ u32_le (word_of_nat (length groups)) @
       concat (map put_str groups))"

definition ok_stats :: "u64 \<Rightarrow> nat \<Rightarrow> u64 \<Rightarrow> bytes" where
  "ok_stats entries segments next_id =
     finalize ([0, 0, 0, 0] @ [STATUS_OK] @ u64_le entries @ u32_le (word_of_nat segments) @
       u64_le next_id)"

definition ok_bytes :: "bytes \<Rightarrow> bytes" where
  "ok_bytes val = finalize ([0, 0, 0, 0] @ [STATUS_OK] @ put_bytes val)"

definition ok_string_list :: "string list \<Rightarrow> bytes" where
  "ok_string_list keys =
     finalize ([0, 0, 0, 0] @ [STATUS_OK] @ u32_le (word_of_nat (length keys)) @
       concat (map put_str keys))"

definition ok_bytes_list :: "bytes list \<Rightarrow> bytes" where
  "ok_bytes_list items =
     finalize ([0, 0, 0, 0] @ [STATUS_OK] @ u32_le (word_of_nat (length items)) @
       concat (map put_bytes items))"

definition resp_err :: "string \<Rightarrow> bytes" where
  "resp_err msg = finalize ([0, 0, 0, 0] @ [STATUS_ERR] @ put_str msg)"

section \<open>Reading what was written\<close>

text \<open>
  A cursor within its buffer, the bytes it has ahead of it, and the statement that a reader returns a
  value and leaves given bytes ahead.
\<close>

definition in_buf :: "cursor \<Rightarrow> bool" where
  "in_buf c \<longleftrightarrow> cu_pos c \<le> length (cu_buf c)"

definition ahead :: "cursor \<Rightarrow> bytes \<Rightarrow> bool" where
  "ahead c bs \<longleftrightarrow> in_buf c \<and> drop (cu_pos c) (cu_buf c) = bs"

definition reads :: "('e, 'a) rd \<Rightarrow> cursor \<Rightarrow> 'a \<Rightarrow> bytes \<Rightarrow> bool" where
  "reads m c x r \<longleftrightarrow> (\<exists>c'. m c = Ok (x, c') \<and> ahead c' r)"

lemma ahead_new [simp]: "ahead (cursor_new bs) bs"
  by (simp add: ahead_def in_buf_def cursor_new_def)

lemma ahead_advance: "ahead c bs \<Longrightarrow> n \<le> length bs \<Longrightarrow> ahead (advance n c) (drop n bs)"
  by (auto simp: ahead_def in_buf_def advance_def add.commute)

lemma remaining_ahead: "ahead c bs \<Longrightarrow> remaining c = length bs"
  by (auto simp: ahead_def in_buf_def remaining_def)

lemma byte_at_ahead: "ahead c bs \<Longrightarrow> k < length bs \<Longrightarrow> byte_at k c = Ok (bs ! k)"
  by (auto simp: ahead_def in_buf_def byte_at_def)

lemma slice_ahead: "ahead c bs \<Longrightarrow> n \<le> length bs \<Longrightarrow> slice n c = Ok (take n bs)"
  by (auto simp: ahead_def in_buf_def slice_def)

lemma ahead_advance_append: "ahead c (b @ r) \<Longrightarrow> n = length b \<Longrightarrow> ahead (advance n c) r"
  using ahead_advance [of c "b @ r" n] by simp

lemmas ahead_simps = remaining_ahead byte_at_ahead slice_ahead

lemma reads_bind:
  assumes "reads m c x r" and "\<And>c'. ahead c' r \<Longrightarrow> reads (f x) c' y r'"
  shows "reads (rd_bind m f) c y r'"
  using assms by (auto simp: reads_def rd_bind_def)

lemma reads_return: "ahead c r \<Longrightarrow> reads (rd_return x) c x r"
  by (simp add: reads_def rd_return_def)

lemma u16_le_bytes: "[u16_le w ! 0, u16_le w ! 1] = u16_le w"
  by (simp add: u16_le_def numeral_2_eq_2)

lemma reads_u8: "ahead c (b # r) \<Longrightarrow> reads read_u8 c b r"
  using ahead_advance_append [of c "[b]" r 1] by (auto simp: ahead_simps reads_def read_u8_def)

lemma reads_u16: "ahead c (u16_le w @ r) \<Longrightarrow> reads read_u16_le c w r"
  using ahead_advance_append [of c "u16_le w" r 2] u16_le_bytes [of w]
  by (auto simp: ahead_simps reads_def read_u16_le_def nth_append)

lemma reads_u32: "ahead c (u32_le w @ r) \<Longrightarrow> reads read_u32_le c w r"
  using ahead_advance_append [of c "u32_le w" r 4] by (auto simp: ahead_simps reads_def read_u32_le_def)

lemma reads_u64: "ahead c (u64_le w @ r) \<Longrightarrow> reads read_u64_le c w r"
  using ahead_advance_append [of c "u64_le w" r 8] by (auto simp: ahead_simps reads_def read_u64_le_def)

lemma length_bytes_of_string [simp]: "length (bytes_of_string t) = length t"
  by (simp add: bytes_of_string_def)

text \<open>
  A field of the protocol: what a writer puts for an admissible value, a reader takes. Sequences of
  such fields are read back by the loop.
\<close>

locale wire_field =
  fixes put :: "'a \<Rightarrow> bytes" and get :: "('e, 'a) rd" and adm :: "'a \<Rightarrow> bool"
  assumes reads_put: "adm x \<Longrightarrow> ahead c (put x @ r) \<Longrightarrow> reads get c x r"
begin

lemma reads_many:
  "list_all adm xs \<Longrightarrow> ahead c (concat (map put xs) @ r) \<Longrightarrow> reads (read_many (length xs) get) c xs r"
proof (induction xs arbitrary: c)
  case Nil
  then show ?case by (simp add: reads_return)
next
  case (Cons x xs)
  have "reads get c x (concat (map put xs) @ r)"
    using Cons.prems by (intro reads_put) simp_all
  moreover have "reads (read_many (length xs) get) c' xs r"
    if "ahead c' (concat (map put xs) @ r)" for c'
    using Cons.IH [OF _ that] Cons.prems(1) by simp
  ultimately show ?case by (auto intro!: reads_bind reads_return)
qed

text \<open>The loop with its count in front, as every variable-length part of a frame is laid out.\<close>

lemma reads_counted:
  assumes "list_all adm xs" and "length xs < 2 ^ 32" and "ahead c (concat (map put xs) @ r)"
  shows "reads (read_many (unat (word_of_nat (length xs) :: u32)) get) c xs r"
  using reads_many [OF assms(1,3)] assms(2) by simp

end

text \<open>Admissible strings and byte strings: well-formed UTF-8, and lengths the length field holds.\<close>

definition wire_str :: "string \<Rightarrow> bool" where
  "wire_str t \<longleftrightarrow> utf8_valid (bytes_of_string t) \<and> length t < 2 ^ 16"

definition wire_bytes :: "bytes \<Rightarrow> bool" where
  "wire_bytes bs \<longleftrightarrow> length bs < 2 ^ 32"

definition put_stamped :: "u64 \<times> bytes \<Rightarrow> bytes" where
  "put_stamped e = u64_le (fst e) @ put_bytes (snd e)"

interpretation str_field: wire_field put_str read_str wire_str
proof
  fix x :: string and c r
  assume x: "wire_str x" and c: "ahead c (put_str x @ r)"
  have "reads read_u16_le c (word_of_nat (length x)) (bytes_of_string x @ r)"
    using c by (intro reads_u16) (simp add: put_str_def)
  then show "reads read_str c x r"
    unfolding read_str_def
    by (rule reads_bind) (use x in \<open>auto simp: wire_str_def ahead_simps reads_def from_utf8_def intro: ahead_advance_append\<close>)
qed

interpretation bytes_field: wire_field put_bytes read_bytes wire_bytes
proof
  fix x c r
  assume x: "wire_bytes x" and c: "ahead c (put_bytes x @ r)"
  have "reads read_u32_le c (word_of_nat (length x)) (x @ r)"
    using c by (intro reads_u32) (simp add: put_bytes_def)
  then show "reads read_bytes c x r"
    unfolding read_bytes_def
    by (rule reads_bind) (use x in \<open>auto simp: wire_bytes_def ahead_simps reads_def intro: ahead_advance_append\<close>)
qed

interpretation stamped_field: wire_field put_stamped read_stamped "\<lambda>e. wire_bytes (snd e)"
proof
  fix x :: "u64 \<times> bytes" and c r
  assume x: "wire_bytes (snd x)" and c: "ahead c (put_stamped x @ r)"
  have "reads read_u64_le c (fst x) (put_bytes (snd x) @ r)"
    using c by (intro reads_u64) (simp add: put_stamped_def)
  moreover have "reads read_bytes c' (snd x) r" if "ahead c' (put_bytes (snd x) @ r)" for c'
    using x that by (rule bytes_field.reads_put)
  moreover have "reads (rd_return (fst x, snd x)) c' x r" if "ahead c' r" for c'
    using reads_return [OF that, of x] by simp
  ultimately show "reads read_stamped c x r"
    unfolding read_stamped_def by (blast intro: reads_bind)
qed

lemmas reads_intros =
  reads_bind reads_return reads_u32 reads_u64 str_field.reads_put bytes_field.reads_put
  stamped_field.reads_counted bytes_field.reads_counted

lemma parse_command_reads:
  assumes "\<And>c. ahead c body \<Longrightarrow> reads (parse_body tag) c cmd r"
  shows "parse_command (tag # body) = Ok cmd"
proof -
  have "reads read_u8 (cursor_new (tag # body)) tag body"
    by (rule reads_u8) simp
  then have "reads (rd_bind read_u8 parse_body) (cursor_new (tag # body)) cmd r"
    by (rule reads_bind) (rule assms)
  then show ?thesis by (auto simp: parse_command_def reads_def)
qed

section \<open>What the parser returns\<close>

text \<open>
  A reader \<open>returns\<close> values with a property: from every cursor within its buffer it ends in such a value, with
  the cursor still within the buffer, or in an error, and does not panic.
\<close>

definition returns :: "('e, 'a) rd \<Rightarrow> ('a \<Rightarrow> bool) \<Rightarrow> bool" where
  "returns m P \<longleftrightarrow>
     (\<forall>c. in_buf c \<longrightarrow> (case m c of Ok (x, c') \<Rightarrow> P x \<and> in_buf c' | Err _ \<Rightarrow> True | Fault _ \<Rightarrow> False))"

lemma returns_bind: "returns m P \<Longrightarrow> (\<And>x. P x \<Longrightarrow> returns (f x) Q) \<Longrightarrow> returns (rd_bind m f) Q"
  unfolding returns_def
proof (intro allI impI)
  fix c
  assume m: "\<forall>c. in_buf c \<longrightarrow> (case m c of Ok (x, c') \<Rightarrow> P x \<and> in_buf c' | Err _ \<Rightarrow> True | Fault _ \<Rightarrow> False)"
    and f: "\<And>x. P x \<Longrightarrow> \<forall>c. in_buf c \<longrightarrow> (case f x c of Ok (y, c') \<Rightarrow> Q y \<and> in_buf c' | Err _ \<Rightarrow> True | Fault _ \<Rightarrow> False)"
    and c: "in_buf c"
  show "case rd_bind m f c of Ok (x, c') \<Rightarrow> Q x \<and> in_buf c' | Err _ \<Rightarrow> True | Fault _ \<Rightarrow> False"
  proof (cases "m c")
    case (Ok y)
    obtain x c' where y: "y = (x, c')" by fastforce
    with m c Ok have "P x" "in_buf c'" by (metis (mono_tags, lifting) case_prod_conv result.case(1))+
    with f Ok y show ?thesis by (simp add: rd_bind_def)
  qed (use m c in \<open>auto simp: rd_bind_def\<close>)
qed

lemma returns_return: "P x \<Longrightarrow> returns (rd_return x) P"
  by (simp add: returns_def rd_return_def)

lemma returns_err: "returns (\<lambda>c. Err e) P"
  by (simp add: returns_def)

lemma returns_if: "returns m P \<Longrightarrow> returns n P \<Longrightarrow> returns (if b then m else n) P"
  by simp

text \<open>The check in front of a read keeps it within the buffer.\<close>

lemma checked:
  assumes "in_buf c" "\<not> remaining c < n"
  shows "in_buf (advance n c)" "slice n c = Ok (take n (drop (cu_pos c) (cu_buf c)))" "k < n \<Longrightarrow> byte_at k c = Ok (cu_buf c ! (cu_pos c + k))"
  using assms by (auto simp: in_buf_def remaining_def advance_def slice_def byte_at_def)

lemma returns_u8: "returns read_u8 (\<lambda>_. True)"
  by (simp add: returns_def read_u8_def in_buf_def remaining_def byte_at_def advance_def)

lemma returns_u16: "returns read_u16_le (\<lambda>_. True)"
  by (simp add: returns_def read_u16_le_def checked [where n = 2])

lemma returns_u32: "returns read_u32_le (\<lambda>_. True)"
  by (auto simp: returns_def read_u32_le_def checked)

lemma returns_u64: "returns read_u64_le (\<lambda>_. True)"
  by (auto simp: returns_def read_u64_le_def checked)

text \<open>A string is valid UTF-8 and its length fits the \<open>u16\<close> in front of it, that of a byte field the \<open>u32\<close>.\<close>

lemma returns_str: "returns read_str wire_str"
  unfolding read_str_def
proof (rule returns_bind [OF returns_u16])
  fix len :: u16
  have l: "unat len < 2 ^ 16" using unsigned_less [of len] by simp
  have n: "length (string_of_bytes bs) = length bs" for bs by (simp add: string_of_bytes_def)
  have "wire_str t" if "from_utf8 (take (unat len) bs) = Some t" for bs t
    using that l by (auto simp: n from_utf8_def wire_str_def split: if_splits)
  then show "returns (\<lambda>c. if remaining c < unat len then Err (ParseError ''unexpected EOF reading string'')
      else case slice (unat len) c of
        Ok bs \<Rightarrow> (case from_utf8 bs of None \<Rightarrow> Err (ParseError ''invalid UTF-8'') | Some t \<Rightarrow> Ok (t, advance (unat len) c))
      | Err e \<Rightarrow> Err e | Fault p \<Rightarrow> Fault p) wire_str"
    by (auto simp: returns_def checked split: option.splits)
qed

lemma returns_bytes: "returns read_bytes wire_bytes"
  unfolding read_bytes_def
proof (rule returns_bind [OF returns_u32])
  fix len :: u32
  have "unat len < 2 ^ 32" using unsigned_less [of len] by simp
  then show "returns (\<lambda>c. if remaining c < unat len then Err (ParseError ''unexpected EOF reading bytes'')
      else map_ok (\<lambda>bs. (bs, advance (unat len) c)) (slice (unat len) c)) wire_bytes"
    by (auto simp: returns_def wire_bytes_def checked)
qed

lemma returns_stamped: "returns read_stamped (\<lambda>(ts, payload). wire_bytes payload)"
  unfolding read_stamped_def
  by (rule returns_bind [OF returns_u64], rule returns_bind [OF returns_bytes], rule returns_return) simp

lemma returns_many: "returns m P \<Longrightarrow> returns (read_many n m) (\<lambda>xs. length xs = n \<and> list_all P xs)"
proof (induction n)
  case (Suc n)
  show ?case
    unfolding read_many.simps
    by (rule returns_bind [OF Suc.prems], rule returns_bind [OF Suc.IH [OF Suc.prems]], rule returns_return) simp
qed (simp add: returns_return)

text \<open>
  The commands a frame can stand for. The two pipeline commands are not among them: no tag of the
  protocol stands for them.
\<close>

fun command_ok :: "command \<Rightarrow> bool" where
  "command_ok (CreateGroup name) = wire_str name"
| "command_ok (DropGroup name) = wire_str name"
| "command_ok (Add grp ts payload) = (wire_str grp \<and> wire_bytes payload)"
| "command_ok (AddRange grp entries) =
     (wire_str grp \<and> length entries < 2 ^ 32 \<and> list_all (\<lambda>(ts, payload). wire_bytes payload) entries)"
| "command_ok (Read grp i) = wire_str grp"
| "command_ok (ReadRange grp start end) = wire_str grp"
| "command_ok (Remove grp up_to) = wire_str grp"
| "command_ok ListGroups = True"
| "command_ok (GroupStats grp) = wire_str grp"
| "command_ok (SetKey db key val ttl) = (wire_str db \<and> wire_str key \<and> wire_bytes val)"
| "command_ok (GetKey db key) = (wire_str db \<and> wire_str key)"
| "command_ok (DelKey db key) = (wire_str db \<and> wire_str key)"
| "command_ok (Keys db) = wire_str db"
| "command_ok (Flush db) = wire_str db"
| "command_ok (LPush key val) = (wire_str key \<and> wire_bytes val)"
| "command_ok (LPushRange key vals) = (wire_str key \<and> length vals < 2 ^ 32 \<and> list_all wire_bytes vals)"
| "command_ok (LPop key) = wire_str key"
| "command_ok (LPopRange key start end) = wire_str key"
| "command_ok (LPopCount key n) = wire_str key"
| "command_ok (LLen key) = wire_str key"
| "command_ok (LFlush key) = wire_str key"
| "command_ok StartPipeline = False"
| "command_ok (EndPipeline i) = False"
| "command_ok (HaRegisterFollower addr) = wire_str addr"
| "command_ok HaHeartBeat = True"
| "command_ok (HaSync entries) = (length entries < 2 ^ 32 \<and> list_all wire_bytes entries)"

lemma u32_count: "unat (n :: u32) < 4294967296"
  using unsigned_less [of n] by simp

lemma returns_body: "returns (parse_body tag) command_ok"
  unfolding parse_body_def
  by (intro returns_if returns_bind [OF returns_str] returns_bind [OF returns_u32] returns_bind [OF returns_u64]
      returns_bind [OF returns_bytes] returns_bind [OF returns_many [OF returns_stamped]]
      returns_bind [OF returns_many [OF returns_bytes]] returns_return returns_err)
    (simp_all add: u32_count)

lemma parser_returns: "returns (rd_bind read_u8 parse_body) command_ok"
  by (rule returns_bind [OF returns_u8 returns_body])

lemma parse_command_returns: "case parse_command frame of Ok cmd \<Rightarrow> command_ok cmd | Err e \<Rightarrow> True | Fault p \<Rightarrow> False"
proof -
  have "in_buf (cursor_new frame)" by (simp add: in_buf_def cursor_new_def)
  with parser_returns show ?thesis
    by (fastforce simp: parse_command_def returns_def split: result.splits prod.splits)
qed

lemma parse_command_no_fault: "parse_command frame \<noteq> Fault p"
  using parse_command_returns [of frame] by auto

text \<open>
  C19. The type of the request parser: for every byte sequence it returns a \<open>ParseError\<close> or a command
  whose strings are valid UTF-8 of less than 64 KB and whose byte fields and lists fit their 32-bit
  counts. No index and no slice of the cursor is ever out of range, as the checks in front of the reads
  keep the position within the frame. It never returns one of the pipeline commands, so
  the handlers of \<open>StartPipeline\<close> and \<open>EndPipeline\<close> cannot be reached.
\<close>

theorem parse_command_typed:
  "case parse_command frame of Ok cmd \<Rightarrow> command_ok cmd | Err e \<Rightarrow> True | Fault p \<Rightarrow> False"
  by (rule parse_command_returns)

section \<open>Framing\<close>

text \<open>
  The input of a connection arrives in pieces; after each piece the frames that are complete are
  taken off the buffer, and an oversized frame ends the connection.
\<close>

fun conn_read :: "bytes \<Rightarrow> bytes list \<Rightarrow> bytes list \<times> bytes \<times> bool" where
  "conn_read buf [] = ([], buf, True)"
| "conn_read buf (piece # pieces) =
     (let (fs, r, ok) = decode_all (buf @ piece) in
      if ok then let (fs', r', ok') = conn_read r pieces in (fs @ fs', r', ok')
      else (fs, r, False))"

lemma codec_decode_append:
  "codec_decode src = Frame f r \<Longrightarrow> codec_decode (src @ b) = Frame f (r @ b)"
  "codec_decode src = TooLarge n \<Longrightarrow> codec_decode (src @ b) = TooLarge n"
  by (auto simp: codec_decode_def Let_def split: if_splits)

lemma decode_all_append:
  "decode_all a = (fs, r, ok) \<Longrightarrow>
   (if ok then decode_all (a @ b) = (let (fs', r', ok') = decode_all (r @ b) in (fs @ fs', r', ok'))
    else fst (decode_all (a @ b)) = fs \<and> \<not> snd (snd (decode_all (a @ b))))"
proof (induction a arbitrary: fs r ok rule: decode_all.induct)
  case (1 src)
  show ?case
  proof (cases "codec_decode src")
    case NeedMore
    then have "fs = []" "r = src" "ok"
      using "1.prems" decode_all.simps [of src] by simp_all
    then show ?thesis by (simp split: prod.split)
  next
    case (TooLarge n)
    then have "fs = []" "\<not> ok"
      using "1.prems" decode_all.simps [of src] by simp_all
    then show ?thesis
      using codec_decode_append(2) [OF TooLarge, of b] decode_all.simps [of "src @ b"] by simp
  next
    case (Frame f rest)
    obtain gs where fs: "fs = f # gs" and rest: "decode_all rest = (gs, r, ok)"
      using "1.prems" decode_all.simps [of src] Frame by (auto split: prod.splits)
    show ?thesis
      using "1.IH" [OF Frame rest] codec_decode_append(1) [OF Frame, of b]
        decode_all.simps [of "src @ b"] fs
      by (auto split: prod.splits)
  qed
qed

lemma decode_all_leftover: "decode_all a = (fs, r, True) \<Longrightarrow> decode_all r = ([], r, True)"
proof (induction a arbitrary: fs rule: decode_all.induct)
  case (1 src)
  then show ?case
    using decode_all.simps [of src] by (cases "codec_decode src") (auto split: prod.splits)
qed

lemma conn_read_decode_all:
  assumes "decode_all buf = ([], buf, True)"
  shows "fst (conn_read buf pieces) = fst (decode_all (buf @ concat pieces)) \<and>
    snd (snd (conn_read buf pieces)) = snd (snd (decode_all (buf @ concat pieces)))"
  using assms
proof (induction pieces arbitrary: buf)
  case Nil
  then show ?case by simp
next
  case (Cons p ps)
  obtain fs r ok where d: "decode_all (buf @ p) = (fs, r, ok)" by (metis prod_cases3)
  note app = decode_all_append [OF d, of "concat ps"]
  show ?case
  proof (cases ok)
    case True
    then have "decode_all r = ([], r, True)" using d decode_all_leftover by simp
    from Cons.IH [OF this] app d True show ?thesis by (auto split: prod.splits)
  next
    case False
    with app d show ?thesis by (auto split: prod.splits)
  qed
qed

lemma codec_decode_frame:
  assumes "length f \<le> MAX_FRAME_SIZE"
  shows "codec_decode (put_bytes f @ r) = Frame f r"
proof -
  have "length f < 2 ^ 32" using assms by (simp add: MAX_FRAME_SIZE_def)
  with assms show ?thesis by (simp add: codec_decode_def put_bytes_def)
qed

lemma decode_all_frames:
  assumes "\<forall>f \<in> set fs. length f \<le> MAX_FRAME_SIZE"
  shows "decode_all (concat (map put_bytes fs) @ r) = (let (gs, r', ok) = decode_all r in (fs @ gs, r', ok))"
  using assms
proof (induction fs)
  case Nil
  then show ?case by (simp split: prod.split)
next
  case (Cons f fs)
  have "codec_decode (put_bytes f @ concat (map put_bytes fs) @ r) = Frame f (concat (map put_bytes fs) @ r)"
    using Cons.prems by (simp add: codec_decode_frame)
  with Cons show ?case
    by (simp add: decode_all.simps [of "put_bytes f @ _"] split: prod.split)
qed

text \<open>
  Framing is exact and does not depend on how TCP cuts the stream: if a peer sends frames of at
  most 16 MiB, each behind its \<open>u32\<close> length, and the bytes arrive in any pieces, then the server
  takes off exactly these frames, in order, and reports no error.
\<close>

theorem framing_any_pieces:
  assumes "\<forall>f \<in> set fs. length f \<le> MAX_FRAME_SIZE" and "concat pieces = concat (map put_bytes fs)"
  shows "fst (conn_read [] pieces) = fs \<and> snd (snd (conn_read [] pieces))"
proof -
  have e: "decode_all [] = ([], [], True)"
    by (simp add: decode_all.simps codec_decode_def)
  have "decode_all (concat (map put_bytes fs)) = (fs, [], True)"
    using decode_all_frames [OF assms(1), of "[]"] e by simp
  with conn_read_decode_all [OF e, of pieces] assms(2) show ?thesis by simp
qed

theorem framing_any_pieces_witness:
  "fst (conn_read [] [[2, 0], [0, 0, 7], [8, 1, 0, 0, 0, 9]]) = [[7, 8], [9]] \<and>
   snd (snd (conn_read [] [[2, 0], [0, 0, 7], [8, 1, 0, 0, 0, 9]]))"
proof -
  have "\<forall>f \<in> set [[7, 8], [9 :: u8]]. length f \<le> MAX_FRAME_SIZE"
    by (simp add: MAX_FRAME_SIZE_def)
  moreover have "concat [[2, 0], [0, 0, 7], [8, 1, 0, 0, 0, 9]] =
      concat (map put_bytes [[7, 8], [9 :: u8]])"
    by code_simp
  ultimately show ?thesis
    using framing_any_pieces [of "[[7, 8], [9]]" "[[2, 0], [0, 0, 7], [8, 1, 0, 0, 0, 9]]"] by blast
qed

end
