(* ===== verification/Client.thy ===== *)
theory Client
  imports Proto
begin

text \<open>
  The client library (\<open>client/src/client/client.rs\<close>): one operation per command, each of which builds
  a request frame, sends it, waits for the response frame and takes it apart.

  The other end of the connection is a parameter: a function from the bytes the client writes and the
  peer's state to the bytes the peer sends back and its next state. \<open>resp[a..b]\<close> outside the response
  is a panic. \<open>is_alive\<close> and \<open>connect\<close> are modelled with the connection pool.
\<close>

section \<open>Transport\<close>

datatype io_error = UnexpectedEof | SocketError string

type_synonym 's peer = "bytes \<Rightarrow> 's \<Rightarrow> (io_error, bytes) result \<times> 's"

text \<open>\<open>anyhow::Result<Result<T, String>>\<close>\<close>

type_synonym 'a reply = "(io_error, (string, 'a) result) result"

text \<open>\<open>read_exact\<close> of the length and of the body, from what the peer has sent.\<close>

definition recv_frame :: "bytes \<Rightarrow> (io_error, bytes) result" where
  "recv_frame inp =
     (if length inp < 4 then Err UnexpectedEof
      else let resp_len = unat (u32_from_le (take 4 inp)) in
        if length (drop 4 inp) < resp_len then Err UnexpectedEof
        else Ok (take resp_len (drop 4 inp)))"

definition send_recv :: "'s peer \<Rightarrow> bytes \<Rightarrow> 's \<Rightarrow> (io_error, bytes) result \<times> 's" where
  "send_recv peer frame s =
     (let (r, s') = peer (u32_le (word_of_nat (length frame)) @ frame) s in
      (case r of Ok inp \<Rightarrow> recv_frame inp | Err e \<Rightarrow> Err e | Fault p \<Rightarrow> Fault p, s'))"

text \<open>\<open>self.send_recv(&frame).await?\<close>, then the operation's reading of the response.\<close>

definition request :: "'s peer \<Rightarrow> bytes \<Rightarrow> (bytes \<Rightarrow> 'a reply) \<Rightarrow> 's \<Rightarrow> 'a reply \<times> 's" where
  "request peer frame k s =
     (let (r, s') = send_recv peer frame s in
      (case r of Ok resp \<Rightarrow> k resp | Err e \<Rightarrow> Err e | Fault p \<Rightarrow> Fault p, s'))"

section \<open>Request frames\<close>

definition build_cmd_with_group :: "u8 \<Rightarrow> string \<Rightarrow> bytes" where
  "build_cmd_with_group tag grp = tag # u16_le (word_of_nat (length grp)) @ bytes_of_string grp"

definition build_cmd_with_db_key :: "u8 \<Rightarrow> string \<Rightarrow> string \<Rightarrow> bytes" where
  "build_cmd_with_db_key tag db key =
     tag # u16_le (word_of_nat (length db)) @ bytes_of_string db @
     u16_le (word_of_nat (length key)) @ bytes_of_string key"

definition build_cmd_with_key :: "u8 \<Rightarrow> string \<Rightarrow> bytes" where
  "build_cmd_with_key tag key = tag # u16_le (word_of_nat (length key)) @ bytes_of_string key"

definition add_frame :: "string \<Rightarrow> u64 \<Rightarrow> bytes \<Rightarrow> bytes" where
  "add_frame grp timestamp payload =
     0x03 # u16_le (word_of_nat (length grp)) @ bytes_of_string grp @ u64_le timestamp @
     u32_le (word_of_nat (length payload)) @ payload"

definition add_range_frame :: "string \<Rightarrow> (u64 \<times> bytes) list \<Rightarrow> bytes" where
  "add_range_frame grp entries =
     0x04 # u16_le (word_of_nat (length grp)) @ bytes_of_string grp @
     u32_le (word_of_nat (length entries)) @
     concat (map (\<lambda>(ts, payload). u64_le ts @ u32_le (word_of_nat (length payload)) @ payload) entries)"

definition read_frame :: "string \<Rightarrow> u64 \<Rightarrow> bytes" where
  "read_frame grp i = build_cmd_with_group 0x05 grp @ u64_le i"

definition read_range_frame :: "string \<Rightarrow> u64 \<Rightarrow> u64 \<Rightarrow> bytes" where
  "read_range_frame grp start end = build_cmd_with_group 0x06 grp @ u64_le start @ u64_le end"

definition remove_frame :: "string \<Rightarrow> u64 \<Rightarrow> bytes" where
  "remove_frame grp up_to = build_cmd_with_group 0x07 grp @ u64_le up_to"

definition list_groups_frame :: bytes where
  "list_groups_frame = [0x08]"

definition kv_set_frame :: "string \<Rightarrow> string \<Rightarrow> bytes \<Rightarrow> u64 \<Rightarrow> bytes" where
  "kv_set_frame db key val ttl_secs =
     0x10 # u16_le (word_of_nat (length db)) @ bytes_of_string db @
     u16_le (word_of_nat (length key)) @ bytes_of_string key @ u64_le ttl_secs @
     u32_le (word_of_nat (length val)) @ val"

definition kv_keys_frame :: "string \<Rightarrow> bytes" where
  "kv_keys_frame db = 0x13 # u16_le (word_of_nat (length db)) @ bytes_of_string db"

definition kv_flush_frame :: "string \<Rightarrow> bytes" where
  "kv_flush_frame db = 0x14 # u16_le (word_of_nat (length db)) @ bytes_of_string db"

definition l_push_frame :: "string \<Rightarrow> bytes \<Rightarrow> bytes" where
  "l_push_frame key val =
     0x20 # u16_le (word_of_nat (length key)) @ bytes_of_string key @
     u32_le (word_of_nat (length val)) @ val"

definition l_push_range_frame :: "string \<Rightarrow> bytes list \<Rightarrow> bytes" where
  "l_push_range_frame key vals =
     0x21 # u16_le (word_of_nat (length key)) @ bytes_of_string key @
     u32_le (word_of_nat (length vals)) @
     concat (map (\<lambda>val. u32_le (word_of_nat (length val)) @ val) vals)"

definition l_pop_frame :: "string \<Rightarrow> bytes" where
  "l_pop_frame key = build_cmd_with_key 0x22 key"

definition l_pop_range_frame :: "string \<Rightarrow> u32 \<Rightarrow> u32 \<Rightarrow> bytes" where
  "l_pop_range_frame key start end = build_cmd_with_key 0x23 key @ u32_le start @ u32_le end"

definition l_pop_count_frame :: "string \<Rightarrow> u32 \<Rightarrow> bytes" where
  "l_pop_count_frame key n = build_cmd_with_key 0x24 key @ u32_le n"

definition l_len_frame :: "string \<Rightarrow> bytes" where
  "l_len_frame key = build_cmd_with_key 0x25 key"

definition l_flush_frame :: "string \<Rightarrow> bytes" where
  "l_flush_frame key = build_cmd_with_key 0x26 key"

section \<open>Responses\<close>

definition extract_err :: "bytes \<Rightarrow> string" where
  "extract_err resp =
     (if length resp < 4 then ''unknown error''
      else let msg_len = unat (u16_from_le (take 2 (drop 1 resp))) in
        if length resp \<ge> 3 + msg_len then from_utf8_lossy (take msg_len (drop 3 resp))
        else ''malformed error response'')"

definition check_status :: "bytes \<Rightarrow> (string, unit) result" where
  "check_status resp =
     (if resp = [] then Err ''empty response''
      else if resp ! 0 = 0x00 then Ok () else Err (extract_err resp))"

text \<open>The cursor of the response loops (\<open>resp\<close> and \<open>pos\<close>), and \<open>resp[pos..pos + n]\<close> with \<open>pos += n\<close>.\<close>

definition at_pos :: "bytes \<Rightarrow> nat \<Rightarrow> cursor" where
  "at_pos resp pos = \<lparr>cu_buf = resp, cu_pos = pos\<rparr>"

definition resp_take :: "nat \<Rightarrow> ('e, bytes) rd" where
  "resp_take n c = map_ok (\<lambda>bs. (bs, advance n c)) (slice n c)"

definition resp_u16 :: "('e, u16) rd" where
  "resp_u16 = rd_bind (resp_take 2) (\<lambda>b. rd_return (u16_from_le b))"

definition resp_u32 :: "('e, u32) rd" where
  "resp_u32 = rd_bind (resp_take 4) (\<lambda>b. rd_return (u32_from_le b))"

definition resp_u64 :: "('e, u64) rd" where
  "resp_u64 = rd_bind (resp_take 8) (\<lambda>b. rd_return (u64_from_le b))"

definition resp_val :: "('e, bytes) rd" where
  "resp_val = rd_bind resp_u32 (\<lambda>n. resp_take (unat n))"

definition resp_name :: "('e, string) rd" where
  "resp_name = rd_bind resp_u16 (\<lambda>n. rd_bind (resp_take (unat n)) (\<lambda>b. rd_return (from_utf8_lossy b)))"

definition resp_entry :: "('e, u64 \<times> u64 \<times> bytes) rd" where
  "resp_entry = rd_bind resp_u64 (\<lambda>i. rd_bind resp_u64 (\<lambda>ts. rd_bind resp_val (\<lambda>payload.
     rd_return (i, ts, payload))))"

text \<open>A count, then a loop that pushes what each round reads.\<close>

definition resp_counted :: "('e, 'a) rd \<Rightarrow> ('e, 'a list) rd" where
  "resp_counted m = rd_bind resp_u32 (\<lambda>n. read_many (unat n) m)"

text \<open>The value read from position 1 on.\<close>

definition from_body :: "(io_error, 'a) rd \<Rightarrow> bytes \<Rightarrow> 'a reply" where
  "from_body m resp = (case m (at_pos resp 1) of Ok (x, c) \<Rightarrow> Ok (Ok x) | Err e \<Rightarrow> Err e | Fault p \<Rightarrow> Fault p)"

text \<open>\<open>resp[0] == 0x00 && resp.len() >= min\<close>, and the operations that only test the status.\<close>

definition if_ok_len :: "nat \<Rightarrow> (io_error, 'a) rd \<Rightarrow> bytes \<Rightarrow> 'a reply" where
  "if_ok_len min_len m resp =
     (if resp = [] then Fault IndexPanic
      else if resp ! 0 = 0x00 \<and> length resp \<ge> min_len then from_body m resp
      else Ok (Err (extract_err resp)))"

definition if_ok :: "(io_error, 'a) rd \<Rightarrow> bytes \<Rightarrow> 'a reply" where
  "if_ok m resp =
     (if resp = [] then Fault IndexPanic
      else if resp ! 0 \<noteq> 0x00 then Ok (Err (extract_err resp))
      else from_body m resp)"

text \<open>\<open>kv_get\<close> and \<open>l_pop\<close>: a response without a length, or with length 0, is \<open>None\<close>.\<close>

definition resp_optional :: "bytes \<Rightarrow> bytes option reply" where
  "resp_optional resp =
     (if resp = [] then Fault IndexPanic
      else if resp ! 0 \<noteq> 0x00 then Ok (Err (extract_err resp))
      else if length resp < 5 then Ok (Ok None)
      else let val_len = unat (u32_from_le (take 4 (drop 1 resp))) in
        if val_len = 0 then Ok (Ok None)
        else if length resp < 5 + val_len then Fault IndexPanic
        else Ok (Ok (Some (take val_len (drop 5 resp)))))"

section \<open>Operations\<close>

definition sc_create_group :: "'s peer \<Rightarrow> string \<Rightarrow> 's \<Rightarrow> unit reply \<times> 's" where
  "sc_create_group peer name = request peer (build_cmd_with_group 0x01 name) (\<lambda>resp. Ok (check_status resp))"

definition sc_drop_group :: "'s peer \<Rightarrow> string \<Rightarrow> 's \<Rightarrow> unit reply \<times> 's" where
  "sc_drop_group peer name = request peer (build_cmd_with_group 0x02 name) (\<lambda>resp. Ok (check_status resp))"

definition sc_add :: "'s peer \<Rightarrow> string \<Rightarrow> u64 \<Rightarrow> bytes \<Rightarrow> 's \<Rightarrow> u64 reply \<times> 's" where
  "sc_add peer grp timestamp payload = request peer (add_frame grp timestamp payload) (if_ok_len 9 resp_u64)"

definition sc_add_range :: "'s peer \<Rightarrow> string \<Rightarrow> (u64 \<times> bytes) list \<Rightarrow> 's \<Rightarrow> (u64 \<times> u64) reply \<times> 's" where
  "sc_add_range peer grp entries = request peer (add_range_frame grp entries)
     (if_ok_len 17 (rd_bind resp_u64 (\<lambda>first. rd_bind resp_u64 (\<lambda>last. rd_return (first, last)))))"

definition sc_read :: "'s peer \<Rightarrow> string \<Rightarrow> u64 \<Rightarrow> 's \<Rightarrow> (u64 \<times> u64 \<times> bytes) reply \<times> 's" where
  "sc_read peer grp i = request peer (read_frame grp i) (if_ok_len 21 resp_entry)"

definition sc_read_range :: "'s peer \<Rightarrow> string \<Rightarrow> u64 \<Rightarrow> u64 \<Rightarrow> 's \<Rightarrow> (u64 \<times> u64 \<times> bytes) list reply \<times> 's" where
  "sc_read_range peer grp start end = request peer (read_range_frame grp start end)
     (if_ok_len 5 (resp_counted resp_entry))"

definition sc_remove :: "'s peer \<Rightarrow> string \<Rightarrow> u64 \<Rightarrow> 's \<Rightarrow> unit reply \<times> 's" where
  "sc_remove peer grp up_to = request peer (remove_frame grp up_to) (\<lambda>resp. Ok (check_status resp))"

definition sc_list_groups :: "'s peer \<Rightarrow> 's \<Rightarrow> string list reply \<times> 's" where
  "sc_list_groups peer = request peer list_groups_frame (if_ok_len 5 (resp_counted resp_name))"

definition sc_group_stats :: "'s peer \<Rightarrow> string \<Rightarrow> 's \<Rightarrow> (u64 \<times> u32 \<times> u64) reply \<times> 's" where
  "sc_group_stats peer grp = request peer (build_cmd_with_group 0x09 grp)
     (if_ok_len 21 (rd_bind resp_u64 (\<lambda>entries. rd_bind resp_u32 (\<lambda>segments. rd_bind resp_u64 (\<lambda>next_id.
        rd_return (entries, segments, next_id))))))"

definition sc_kv_set :: "'s peer \<Rightarrow> string \<Rightarrow> string \<Rightarrow> bytes \<Rightarrow> u64 \<Rightarrow> 's \<Rightarrow> unit reply \<times> 's" where
  "sc_kv_set peer db key val ttl_secs =
     request peer (kv_set_frame db key val ttl_secs) (\<lambda>resp. Ok (check_status resp))"

definition sc_kv_get :: "'s peer \<Rightarrow> string \<Rightarrow> string \<Rightarrow> 's \<Rightarrow> bytes option reply \<times> 's" where
  "sc_kv_get peer db key = request peer (build_cmd_with_db_key 0x11 db key) resp_optional"

definition sc_kv_del :: "'s peer \<Rightarrow> string \<Rightarrow> string \<Rightarrow> 's \<Rightarrow> unit reply \<times> 's" where
  "sc_kv_del peer db key =
     request peer (build_cmd_with_db_key 0x12 db key) (\<lambda>resp. Ok (check_status resp))"

definition sc_kv_keys :: "'s peer \<Rightarrow> string \<Rightarrow> 's \<Rightarrow> string list reply \<times> 's" where
  "sc_kv_keys peer db = request peer (kv_keys_frame db) (if_ok (resp_counted resp_name))"

definition sc_kv_flush :: "'s peer \<Rightarrow> string \<Rightarrow> 's \<Rightarrow> unit reply \<times> 's" where
  "sc_kv_flush peer db = request peer (kv_flush_frame db) (\<lambda>resp. Ok (check_status resp))"

definition sc_l_push :: "'s peer \<Rightarrow> string \<Rightarrow> bytes \<Rightarrow> 's \<Rightarrow> unit reply \<times> 's" where
  "sc_l_push peer key val = request peer (l_push_frame key val) (\<lambda>resp. Ok (check_status resp))"

definition sc_l_push_range :: "'s peer \<Rightarrow> string \<Rightarrow> bytes list \<Rightarrow> 's \<Rightarrow> unit reply \<times> 's" where
  "sc_l_push_range peer key vals =
     request peer (l_push_range_frame key vals) (\<lambda>resp. Ok (check_status resp))"

definition sc_l_pop :: "'s peer \<Rightarrow> string \<Rightarrow> 's \<Rightarrow> bytes option reply \<times> 's" where
  "sc_l_pop peer key = request peer (l_pop_frame key) resp_optional"

definition sc_l_pop_range :: "'s peer \<Rightarrow> string \<Rightarrow> u32 \<Rightarrow> u32 \<Rightarrow> 's \<Rightarrow> bytes list reply \<times> 's" where
  "sc_l_pop_range peer key start end =
     request peer (l_pop_range_frame key start end) (if_ok (resp_counted resp_val))"

definition sc_l_pop_count :: "'s peer \<Rightarrow> string \<Rightarrow> u32 \<Rightarrow> 's \<Rightarrow> bytes list reply \<times> 's" where
  "sc_l_pop_count peer key n = request peer (l_pop_count_frame key n) (if_ok (resp_counted resp_val))"

definition sc_l_len :: "'s peer \<Rightarrow> string \<Rightarrow> 's \<Rightarrow> u64 reply \<times> 's" where
  "sc_l_len peer key = request peer (l_len_frame key) (if_ok_len 9 resp_u64)"

definition sc_l_flush :: "'s peer \<Rightarrow> string \<Rightarrow> 's \<Rightarrow> unit reply \<times> 's" where
  "sc_l_flush peer key = request peer (l_flush_frame key) (\<lambda>resp. Ok (check_status resp))"

section \<open>The requests of the client as the server parses them\<close>

text \<open>The frames in terms of the fields of the protocol.\<close>

lemma put_str_fold: "u16_le (word_of_nat (length t)) @ bytes_of_string t = put_str t"
  and put_str_fold_app: "u16_le (word_of_nat (length t)) @ bytes_of_string t @ r = put_str t @ r"
  and put_bytes_fold: "u32_le (word_of_nat (length b)) @ b = put_bytes b"
  and put_stamped_fold: "(\<lambda>(ts, payload). u64_le ts @ put_bytes payload) = put_stamped"
  by (auto simp: put_str_def put_bytes_def put_stamped_def)

lemmas frame_folds = append_Cons append_assoc put_str_fold put_str_fold_app put_bytes_fold put_stamped_fold

lemmas frame_defs =
  build_cmd_with_group_def build_cmd_with_db_key_def build_cmd_with_key_def add_frame_def
  add_range_frame_def read_frame_def read_range_frame_def remove_frame_def list_groups_frame_def
  kv_set_frame_def kv_keys_frame_def kv_flush_frame_def l_push_frame_def l_push_range_frame_def
  l_pop_frame_def l_pop_range_frame_def l_pop_count_frame_def l_len_frame_def l_flush_frame_def

lemma reads_str_end: "wire_str t \<Longrightarrow> ahead c (put_str t) \<Longrightarrow> reads read_str c t []"
  and reads_bytes_end: "wire_bytes b \<Longrightarrow> ahead c (put_bytes b) \<Longrightarrow> reads read_bytes c b []"
  and reads_u64_end: "ahead c (u64_le w) \<Longrightarrow> reads read_u64_le c w []"
  and reads_stamped_end: "list_all (\<lambda>e. wire_bytes (snd e)) es \<Longrightarrow> length es < 2 ^ 32 \<Longrightarrow>
    ahead c (concat (map put_stamped es)) \<Longrightarrow>
    reads (read_many (unat (word_of_nat (length es) :: u32)) read_stamped) c es []"
  by (simp_all add: str_field.reads_put bytes_field.reads_put reads_u64 stamped_field.reads_many)

lemmas request_intros =
  parse_command_reads reads_bind reads_return reads_str_end reads_bytes_end reads_u64_end reads_stamped_end
  str_field.reads_put reads_u64 reads_u32

lemma group_request_parsed:
  assumes "wire_str grp"
  shows "parse_command (build_cmd_with_group 0x01 grp) = Ok (CreateGroup grp)"
    and "parse_command (build_cmd_with_group 0x02 grp) = Ok (DropGroup grp)"
    and "parse_command (build_cmd_with_group 0x09 grp) = Ok (GroupStats grp)"
  unfolding frame_defs frame_folds
  by (rule parse_command_reads, simp add: parse_body_def tag_defs,
      use assms in \<open>blast intro: request_intros\<close>)+

lemma add_request_parsed:
  assumes "wire_str grp" and "wire_bytes payload"
  shows "parse_command (add_frame grp ts payload) = Ok (Add grp ts payload)"
  unfolding frame_defs frame_folds
  by (rule parse_command_reads, simp add: parse_body_def tag_defs,
      use assms in \<open>blast intro: request_intros\<close>)

lemma add_range_request_parsed:
  assumes "wire_str grp" and "list_all (\<lambda>e. wire_bytes (snd e)) entries" and "length entries < 2 ^ 32"
  shows "parse_command (add_range_frame grp entries) = Ok (AddRange grp entries)"
  unfolding frame_defs frame_folds
  by (rule parse_command_reads, simp add: parse_body_def tag_defs,
      use assms in \<open>blast intro: request_intros\<close>)

lemma read_request_parsed:
  assumes "wire_str grp"
  shows "parse_command (read_frame grp i) = Ok (Read grp i)"
    and "parse_command (read_range_frame grp i j) = Ok (ReadRange grp i j)"
    and "parse_command (remove_frame grp i) = Ok (Remove grp i)"
  unfolding frame_defs frame_folds
  by (rule parse_command_reads, simp add: parse_body_def tag_defs,
      use assms in \<open>blast intro: request_intros\<close>)+

lemma list_groups_request_parsed: "parse_command list_groups_frame = Ok ListGroups"
  unfolding frame_defs
  by (rule parse_command_reads, simp add: parse_body_def tag_defs, blast intro: request_intros)

lemma kv_set_request_parsed:
  assumes "wire_str db" and "wire_str key" and "wire_bytes val"
  shows "parse_command (kv_set_frame db key val ttl) = Ok (SetKey db key val ttl)"
  unfolding frame_defs frame_folds
  by (rule parse_command_reads, simp add: parse_body_def tag_defs,
      use assms in \<open>blast intro: request_intros\<close>)

lemma kv_key_request_parsed:
  assumes "wire_str db" and "wire_str key"
  shows "parse_command (build_cmd_with_db_key 0x11 db key) = Ok (GetKey db key)"
    and "parse_command (build_cmd_with_db_key 0x12 db key) = Ok (DelKey db key)"
  unfolding frame_defs frame_folds
  by (rule parse_command_reads, simp add: parse_body_def tag_defs,
      use assms in \<open>blast intro: request_intros\<close>)+

lemma kv_db_request_parsed:
  assumes "wire_str db"
  shows "parse_command (kv_keys_frame db) = Ok (Keys db)"
    and "parse_command (kv_flush_frame db) = Ok (Flush db)"
  unfolding frame_defs frame_folds
  by (rule parse_command_reads, simp add: parse_body_def tag_defs,
      use assms in \<open>blast intro: request_intros\<close>)+

text \<open>
  Requests round trip: for names that are UTF-8 of less than 64 KiB and payloads of less than
  4 GiB, the server parses every frame of the client's log and key-value operations to the command
  meant, with exactly the arguments given.
\<close>

theorem requests_parsed:
  assumes "wire_str grp" and "wire_str db" and "wire_str key" and "wire_bytes val"
    and "list_all (\<lambda>e. wire_bytes (snd e)) entries" and "length entries < 2 ^ 32"
  shows "parse_command (build_cmd_with_group 0x01 grp) = Ok (CreateGroup grp) \<and>
    parse_command (build_cmd_with_group 0x02 grp) = Ok (DropGroup grp) \<and>
    parse_command (add_frame grp ts val) = Ok (Add grp ts val) \<and>
    parse_command (add_range_frame grp entries) = Ok (AddRange grp entries) \<and>
    parse_command (read_frame grp i) = Ok (Read grp i) \<and>
    parse_command (read_range_frame grp i j) = Ok (ReadRange grp i j) \<and>
    parse_command (remove_frame grp i) = Ok (Remove grp i) \<and>
    parse_command list_groups_frame = Ok ListGroups \<and>
    parse_command (build_cmd_with_group 0x09 grp) = Ok (GroupStats grp) \<and>
    parse_command (kv_set_frame db key val ttl) = Ok (SetKey db key val ttl) \<and>
    parse_command (build_cmd_with_db_key 0x11 db key) = Ok (GetKey db key) \<and>
    parse_command (build_cmd_with_db_key 0x12 db key) = Ok (DelKey db key) \<and>
    parse_command (kv_keys_frame db) = Ok (Keys db) \<and>
    parse_command (kv_flush_frame db) = Ok (Flush db)"
  using assms
  by (simp only: group_request_parsed add_request_parsed add_range_request_parsed read_request_parsed
      list_groups_request_parsed kv_set_request_parsed kv_key_request_parsed kv_db_request_parsed simp_thms)

theorem requests_parsed_witness:
  "wire_str ''g'' \<and> wire_str ''d'' \<and> wire_str ''k'' \<and>
   parse_command (add_range_frame ''g'' [(7, [1, 2]), (8, [])]) = Ok (AddRange ''g'' [(7, [1, 2]), (8, [])]) \<and>
   parse_command (kv_set_frame ''d'' ''k'' [1] 60) = Ok (SetKey ''d'' ''k'' [1] 60)"
proof -
  have s: "wire_str ''g''" "wire_str ''d''" "wire_str ''k''"
    by (simp_all add: wire_str_def bytes_of_string_def)
  moreover have "wire_bytes [1]" "list_all (\<lambda>e. wire_bytes (snd e)) [(7 :: u64, [1, 2]), (8, [])]"
    by (simp_all add: wire_bytes_def)
  ultimately show ?thesis
    using requests_parsed [of "''g''" "''d''" "''k''" "[1]" "[(7, [1, 2]), (8, [])]"] by simp
qed

section \<open>The list requests\<close>

text \<open>
  The client's list operations send tags 0x20 to 0x26 and no database name, while the server's list
  commands have tags 0x15 to 0x21 and start with one. What the server makes of the frames:
\<close>

lemma rd_bind_Ok: "rd_bind m f c = Ok (x, c') \<Longrightarrow> \<exists>y c1. m c = Ok (y, c1) \<and> f y c1 = Ok (x, c')"
  by (auto simp: rd_bind_def split: result.splits)

lemma parse_command_Ok:
  "parse_command (tag # body) = Ok cmd \<Longrightarrow> \<exists>c c'. parse_body tag c = Ok (cmd, c')"
  by (simp add: parse_command_def split: result.splits)
    (fastforce simp: read_u8_def ahead_simps [OF ahead_new] dest: rd_bind_Ok)

lemma str2_body_Ok:
  "rd_bind read_str (\<lambda>db. rd_bind read_str (\<lambda>key. rd_return (f key))) c = Ok (cmd, c') \<Longrightarrow> \<exists>k. cmd = f k"
  by (auto simp: rd_return_def dest!: rd_bind_Ok)

text \<open>
  C20. None of the client's list operations reaches the list operation it names. A push is parsed as a
  length query and a range push as a flush (or they are rejected), a pop registers the key as the
  address of a follower, a range pop is a heartbeat, a counted pop is a replication message or an
  error, and the length query and the flush are unknown commands.
\<close>

theorem client_list_calls_misread:
  assumes "wire_str key"
  shows "(parse_command (l_push_frame key val) = Ok cmd \<longrightarrow> (\<exists>k. cmd = LLen k)) \<and>
    (parse_command (l_push_range_frame key vals) = Ok cmd \<longrightarrow> (\<exists>k. cmd = LFlush k)) \<and>
    parse_command (l_pop_frame key) = Ok (HaRegisterFollower key) \<and>
    parse_command (l_pop_range_frame key start end) = Ok HaHeartBeat \<and>
    (parse_command (l_pop_count_frame key n) = Ok cmd \<longrightarrow> (\<exists>es. cmd = HaSync es)) \<and>
    parse_command (l_len_frame key) = Err (ParseError ''unknown command tag'') \<and>
    parse_command (l_flush_frame key) = Err (ParseError ''unknown command tag'')"
proof (intro conjI impI)
  show "\<exists>k. cmd = LLen k" if "parse_command (l_push_frame key val) = Ok cmd"
    using that unfolding frame_defs
    by (auto simp: parse_body_def tag_defs dest!: parse_command_Ok str2_body_Ok)
  show "\<exists>k. cmd = LFlush k" if "parse_command (l_push_range_frame key vals) = Ok cmd"
    using that unfolding frame_defs
    by (auto simp: parse_body_def tag_defs dest!: parse_command_Ok str2_body_Ok)
  show "parse_command (l_pop_frame key) = Ok (HaRegisterFollower key)"
    unfolding frame_defs frame_folds
    by (rule parse_command_reads, simp add: parse_body_def tag_defs,
        use assms in \<open>blast intro: request_intros\<close>)
  show "parse_command (l_pop_range_frame key start end) = Ok HaHeartBeat"
    unfolding frame_defs frame_folds
    by (rule parse_command_reads, simp add: parse_body_def tag_defs, blast intro: request_intros)
  show "\<exists>es. cmd = HaSync es" if "parse_command (l_pop_count_frame key n) = Ok cmd"
    using that unfolding frame_defs frame_folds
    by (auto simp: parse_body_def tag_defs rd_return_def dest!: parse_command_Ok rd_bind_Ok)
  show "parse_command (l_len_frame key) = Err (ParseError ''unknown command tag'')"
    and "parse_command (l_flush_frame key) = Err (ParseError ''unknown command tag'')"
    by (simp_all add: frame_defs parse_command_def rd_bind_def read_u8_def ahead_simps [OF ahead_new]
        parse_body_def tag_defs)
qed

theorem client_list_calls_misread_witness:
  "wire_str ''k'' \<and> parse_command (l_push_frame ''k'' [97, 98]) = Ok (LLen [CHR 0x00, CHR 0x00]) \<and>
   (\<exists>k. LLen [CHR 0x00, CHR 0x00] = LLen k) \<and>
   parse_command (l_pop_frame ''k'') = Ok (HaRegisterFollower ''k'')"
proof -
  have "wire_str ''k''" by (simp add: wire_str_def bytes_of_string_def)
  moreover have "parse_command (l_push_frame ''k'' [97, 98]) = Ok (LLen [CHR 0x00, CHR 0x00])"
    by code_simp
  ultimately show ?thesis
    using client_list_calls_misread [of "''k''" "[97, 98]" "LLen [CHR 0x00, CHR 0x00]"] by simp
qed

section \<open>The responses of the server as the client reads them\<close>

lemma reads_take: "ahead c (b @ r) \<Longrightarrow> reads (resp_take (length b)) c b r"
  using ahead_advance_append [of c b r] by (auto simp: ahead_simps resp_take_def reads_def)

lemma reads_fixed:
  assumes "ahead c (b @ r)" and "length b = n"
  shows "reads (rd_bind (resp_take n) (\<lambda>b. rd_return (f b))) c (f b) r"
  using reads_bind [OF reads_take [OF assms(1)] reads_return] assms(2) by blast

lemma reads_resp_u16: "ahead c (u16_le v @ r) \<Longrightarrow> reads resp_u16 c v r"
  and reads_resp_u32: "ahead c (u32_le w @ r) \<Longrightarrow> reads resp_u32 c w r"
  and reads_resp_u64: "ahead c (u64_le x @ r) \<Longrightarrow> reads resp_u64 c x r"
  unfolding resp_u16_def resp_u32_def resp_u64_def
  by (auto dest: reads_fixed [where f = u16_from_le and n = 2] reads_fixed [where f = u32_from_le and n = 4]
      reads_fixed [where f = u64_from_le and n = 8])

text \<open>The client's readers are readers of the same fields.\<close>

interpretation resp_val_field: wire_field put_bytes resp_val wire_bytes
proof
  fix x c r
  assume x: "wire_bytes x" and c: "ahead c (put_bytes x @ r)"
  have "reads resp_u32 c (word_of_nat (length x)) (x @ r)"
    using c by (intro reads_resp_u32) (simp add: put_bytes_def)
  then show "reads resp_val c x r"
    unfolding resp_val_def
    by (rule reads_bind) (use x reads_take in \<open>simp add: wire_bytes_def\<close>)
qed

interpretation resp_name_field: wire_field put_str resp_name wire_str
proof
  fix x :: string and c r
  assume x: "wire_str x" and c: "ahead c (put_str x @ r)"
  have h: "reads resp_u16 c (word_of_nat (length x)) (bytes_of_string x @ r)"
    using c by (intro reads_resp_u16) (simp add: put_str_def)
  have "reads (resp_take (unat (word_of_nat (length x) :: u16))) c' (bytes_of_string x) r"
    if "ahead c' (bytes_of_string x @ r)" for c'
    using reads_take [OF that] x by (simp add: wire_str_def)
  moreover have "reads (rd_return (from_utf8_lossy (bytes_of_string x))) c' x r" if "ahead c' r" for c'
    using reads_return [OF that, of x] x by (simp add: wire_str_def)
  ultimately show "reads resp_name c x r"
    unfolding resp_name_def using h by (blast intro: reads_bind)
qed

interpretation resp_entry_field: wire_field put_entry resp_entry "\<lambda>e. wire_bytes (snd (snd e))"
proof
  fix x :: "u64 \<times> u64 \<times> bytes" and c r
  assume x: "wire_bytes (snd (snd x))" and c: "ahead c (put_entry x @ r)"
  obtain i ts p where [simp]: "x = (i, ts, p)" by (metis prod_cases3)
  have "ahead c (u64_le i @ u64_le ts @ put_bytes p @ r)"
    using c by (simp add: put_entry_def)
  then show "reads resp_entry c x r"
    unfolding resp_entry_def using x
    by (auto intro!: reads_bind reads_return reads_resp_u64 resp_val_field.reads_put)
qed

text \<open>A response frame, and the parts of its reading.\<close>

lemma recv_frame_finalize:
  assumes "length b < 2 ^ 32"
  shows "recv_frame (finalize ([0, 0, 0, 0] @ b)) = Ok b"
  using assms by (simp add: recv_frame_def finalize_def)

lemma ahead_at_pos [simp]: "ahead (at_pos (b # bs) 1) bs"
  by (simp add: ahead_def in_buf_def at_pos_def)

lemma from_body_reads: "(\<And>c. ahead c bs \<Longrightarrow> reads m c x r) \<Longrightarrow> from_body m (b # bs) = Ok (Ok x)"
proof -
  assume "\<And>c. ahead c bs \<Longrightarrow> reads m c x r"
  then have "reads m (at_pos (b # bs) 1) x r" by (simp del: One_nat_def)
  then show ?thesis by (auto simp: from_body_def reads_def)
qed

lemma if_ok_len_reads:
  "(\<And>c. ahead c bs \<Longrightarrow> reads m c x r) \<Longrightarrow> n \<le> Suc (length bs) \<Longrightarrow>
   if_ok_len n m (STATUS_OK # bs) = Ok (Ok x)"
  unfolding if_ok_len_def STATUS_OK_def by simp (rule from_body_reads)

lemma if_ok_reads:
  "(\<And>c. ahead c bs \<Longrightarrow> reads m c x r) \<Longrightarrow> if_ok m (STATUS_OK # bs) = Ok (Ok x)"
  unfolding if_ok_def STATUS_OK_def by simp (rule from_body_reads)

lemma extract_err_put_str:
  assumes "wire_str msg" and "msg \<noteq> []"
  shows "extract_err (STATUS_ERR # put_str msg) = msg"
proof -
  have "\<not> length (STATUS_ERR # put_str msg) < 4"
    using assms(2) by (cases msg) (simp_all add: put_str_def)
  moreover have "unat (u16_from_le (take 2 (drop 1 (STATUS_ERR # put_str msg)))) = length msg"
    using assms(1) by (simp add: put_str_def wire_str_def)
  moreover have "take (length msg) (drop 3 (STATUS_ERR # put_str msg)) = bytes_of_string msg"
    by (simp add: put_str_def numeral_3_eq_3)
  ultimately show ?thesis
    using assms(1) by (simp add: extract_err_def put_str_def wire_str_def Let_def)
qed

lemma resp_optional_bytes:
  assumes "wire_bytes val"
  shows "resp_optional (STATUS_OK # put_bytes val) = Ok (Ok (if val = [] then None else Some val))"
  using assms by (simp add: resp_optional_def STATUS_OK_def put_bytes_def wire_bytes_def)

lemma status_lemmas:
  "check_status (STATUS_OK # bs) = Ok ()"
  "resp_optional [STATUS_OK] = Ok (Ok None)"
  "check_status (STATUS_ERR # bs) = Err (extract_err (STATUS_ERR # bs))"
  "if_ok_len n m (STATUS_ERR # bs) = Ok (Err (extract_err (STATUS_ERR # bs)))"
  "if_ok m (STATUS_ERR # bs) = Ok (Err (extract_err (STATUS_ERR # bs)))"
  "resp_optional (STATUS_ERR # bs) = Ok (Err (extract_err (STATUS_ERR # bs)))"
  by (simp_all add: check_status_def resp_optional_def if_ok_len_def if_ok_def STATUS_OK_def STATUS_ERR_def)

lemma reads_counted_list:
  assumes "wire_field put (get :: ('e, 'a) rd) adm" and "list_all adm xs" and "length xs < 2 ^ 32"
    and "ahead c (u32_le (word_of_nat (length xs)) @ concat (map put xs))"
  shows "reads (resp_counted get :: ('e, 'a list) rd) c xs []"
proof -
  have "reads (resp_u32 :: ('e, u32) rd) c (word_of_nat (length xs)) (concat (map put xs))"
    using assms(4) by (rule reads_resp_u32)
  moreover have "reads (read_many (unat (word_of_nat (length xs) :: u32)) get) c' xs []"
    if "ahead c' (concat (map put xs))" for c'
    using wire_field.reads_counted [OF assms(1-3)] that by simp
  ultimately show ?thesis
    unfolding resp_counted_def by (rule reads_bind)
qed

end
