(* ===== verification/Ha.thy ===== *)
theory Ha
  imports Client Db
begin

text \<open>
  High availability (\<open>server/src/ha.rs\<close>): the leader's list of followers, the registration of a
  follower, heartbeats, and the forwarding of recorded entries in batches.

  The network is a parameter: for an address and the state of the outside world, what the process at
  that address sends back (an error when the connection fails). The texts of I/O errors are a
  parameter as well. Errors are \<open>anyhow\<close> errors, given by their text.
\<close>

section \<open>Configuration\<close>

text \<open>\<open>server/src/conf.rs\<close>, as far as the server reads it.\<close>

datatype replica_role = Leader | Follower

record replica_conf =
  rc_is_replica :: bool
  rc_role :: "replica_role option"
  rc_followers :: "string list option"
  rc_master :: "string option"
  rc_event_buffer_size :: "nat option"

record aof_conf =
  ac_max_size :: nat
  ac_dir :: string

record conf =
  cf_port :: nat
  cf_aof :: aof_conf
  cf_lru_size :: nat
  cf_replica :: "replica_conf option"

definition default_port :: nat where "default_port = 9090"

definition default_lru :: nat where "default_lru = 1000000"

definition default_replica :: "replica_conf option" where
  "default_replica = Some \<lparr>rc_is_replica = False, rc_role = None, rc_followers = None,
     rc_master = None, rc_event_buffer_size = None\<rparr>"

definition default_aof :: aof_conf where
  "default_aof = \<lparr>ac_max_size = 1000, ac_dir = ''aof/log.aof''\<rparr>"

definition conf_default :: conf where
  "conf_default = \<lparr>cf_port = default_port, cf_aof = default_aof, cf_lru_size = default_lru,
     cf_replica = default_replica\<rparr>"

text \<open>
  \<open>Conf::load\<close>: no file is an error, a file that does not parse gives the defaults. The JSON parser
  is a parameter.
\<close>

definition conf_load :: "(string \<Rightarrow> conf option) \<Rightarrow> string option \<Rightarrow> conf option" where
  "conf_load from_json file =
     map_option (\<lambda>t. case from_json t of Some c \<Rightarrow> c | None \<Rightarrow> conf_default) file"

section \<open>State\<close>

type_synonym 'w network = "string \<Rightarrow> 'w peer"

text \<open>
  \<open>ha_rx\<close> are the events sent and not yet received, \<open>ha_open\<close> tells whether a sender is left.
\<close>

record ha_manager =
  ha_conf :: conf
  ha_followers :: "string list"
  ha_timeout :: "(string, u8) hash_map"
  ha_rx :: "aof_entry list"
  ha_open :: bool
  ha_uncommitted :: "aof_entry list"

text \<open>\<open>HaConf\<close> is the list of followers, which \<open>HaConf::new\<close> leaves empty.\<close>

definition ha_conf_new :: "string list" where
  "ha_conf_new = []"

definition ha_new :: "conf \<Rightarrow> string list \<Rightarrow> aof_entry list \<Rightarrow> bool \<Rightarrow> ha_manager" where
  "ha_new cf followers rx open = \<lparr>ha_conf = cf, ha_followers = followers, ha_timeout = [],
     ha_rx = rx, ha_open = open, ha_uncommitted = []\<rparr>"

section \<open>Messages\<close>

definition ha_send_recv :: "'w peer \<Rightarrow> bytes \<Rightarrow> 'w \<Rightarrow> (io_error, bytes) result \<times> 'w" where
  "ha_send_recv peer frame w =
     (let (r, w') = peer (u32_le (word_of_nat (length frame)) @ frame) w in
      (case r of Ok inp \<Rightarrow> recv_frame inp | Err e \<Rightarrow> Err e | Fault p \<Rightarrow> Fault p, w'))"

text \<open>\<open>resp[0] == STATUS_OK\<close> on the response, with the error of the call otherwise.\<close>

definition expect_ok :: "(io_error \<Rightarrow> string) \<Rightarrow> string \<Rightarrow> (io_error, bytes) result \<Rightarrow> (string, unit) result" where
  "expect_ok io_text msg r =
     (case r of
        Ok resp \<Rightarrow> if resp = [] then Fault IndexPanic else if resp ! 0 = STATUS_OK then Ok () else Err msg
      | Err e \<Rightarrow> Err (io_text e)
      | Fault p \<Rightarrow> Fault p)"

definition heartbeat_follower :: "(io_error \<Rightarrow> string) \<Rightarrow> 'w network \<Rightarrow> string \<Rightarrow> 'w \<Rightarrow> (string, unit) result \<times> 'w" where
  "heartbeat_follower io_text net addr w =
     (let (r, w') = ha_send_recv (net addr) [HA_HEARTBEAT] w
      in (expect_ok io_text ''heartbeat did not respond successfully'' r, w'))"

definition sync_frame :: "(aof_entry \<Rightarrow> bytes) \<Rightarrow> aof_entry list \<Rightarrow> bytes" where
  "sync_frame to_json entries =
     (let encoded = map (to_base64 to_json) entries in
      HA_SYNC # u32_le (word_of_nat (length encoded)) @
      concat (map (\<lambda>t. u32_le (word_of_nat (length (bytes_of_string t))) @ bytes_of_string t) encoded))"

definition sync_follower :: "(io_error \<Rightarrow> string) \<Rightarrow> (aof_entry \<Rightarrow> bytes) \<Rightarrow> 'w network \<Rightarrow> string \<Rightarrow> aof_entry list \<Rightarrow> 'w
    \<Rightarrow> (string, unit) result \<times> 'w" where
  "sync_follower io_text to_json net addr entries w =
     (let (r, w') = ha_send_recv (net addr) (sync_frame to_json entries) w
      in (expect_ok io_text ''sync failed'' r, w'))"

definition register_master :: "(io_error \<Rightarrow> string) \<Rightarrow> 'w network \<Rightarrow> string \<Rightarrow> string \<Rightarrow> 'w \<Rightarrow> (string, unit) result \<times> 'w" where
  "register_master io_text net master addr w =
     (let (r, w') = ha_send_recv (net master)
        (HA_REGISTER # u16_le (word_of_nat (length addr)) @ bytes_of_string addr) w
      in (expect_ok io_text (''failed to register to master with addr: '' @ master) r, w'))"

section \<open>The leader\<close>

text \<open>
  A follower that answers a heartbeat is recorded and sent the entries of the file; a failure to
  read the file is reported (the follower stays recorded), a failure to send them is not.
\<close>

definition register_follower :: "(io_error \<Rightarrow> string) \<Rightarrow> (aof_entry \<Rightarrow> bytes) \<Rightarrow> (bytes \<Rightarrow> aof_entry option) \<Rightarrow>
    bytes option \<Rightarrow> string \<Rightarrow> 'w network \<Rightarrow> string \<Rightarrow> ha_manager \<times> 'w \<Rightarrow> (string, unit) result \<times> ha_manager \<times> 'w" where
  "register_follower io_text to_json from_json file load_err net addr hw =
     (case hw of (h, w) \<Rightarrow>
      case heartbeat_follower io_text net addr w of
        (Ok _, w1) \<Rightarrow>
          (let h1 = h\<lparr>ha_followers := ha_followers h @ [addr]\<rparr> in
           case get_aof_copy from_json file of
             None \<Rightarrow> (Err load_err, h1, w1)
           | Some es \<Rightarrow>
               if es = [] then (Ok (), h1, w1)
               else case sync_follower io_text to_json net addr es w1 of
                  (Fault p, w2) \<Rightarrow> (Fault p, h1, w2)
                | (_, w2) \<Rightarrow> (Ok (), h1, w2))
      | (Err e, w1) \<Rightarrow> (Err (''failed to register follower: '' @ e), h, w1)
      | (Fault p, w1) \<Rightarrow> (Fault p, h, w1))"

definition ack_heartbeat :: "ha_manager \<Rightarrow> (string, unit) result \<times> ha_manager" where
  "ack_heartbeat h = (Ok (), h)"

text \<open>The loop that sends a batch to one follower after the other; \<open>?\<close> ends it at the first failure.\<close>

fun sync_followers :: "(io_error \<Rightarrow> string) \<Rightarrow> (aof_entry \<Rightarrow> bytes) \<Rightarrow> 'w network \<Rightarrow> string list \<Rightarrow> aof_entry list \<Rightarrow> 'w
    \<Rightarrow> (string, unit) result \<times> 'w" where
  "sync_followers io_text to_json net [] es w = (Ok (), w)"
| "sync_followers io_text to_json net (f # fs) es w =
     (case sync_follower io_text to_json net f es w of
        (Ok _, w') \<Rightarrow> sync_followers io_text to_json net fs es w'
      | (Err e, w') \<Rightarrow> (Err e, w')
      | (Fault p, w') \<Rightarrow> (Fault p, w'))"

definition buffer_size :: "replica_conf \<Rightarrow> nat" where
  "buffer_size rc = (case rc_event_buffer_size rc of Some n \<Rightarrow> n | None \<Rightarrow> 100)"

text \<open>
  One call of \<open>start\<close>: it receives one event (\<open>None\<close>: it still waits for one), buffers it, and sends
  the buffer to the followers when it is full. A channel found closed at once and one that closes
  while the call waits are reported differently.
\<close>

definition ha_start :: "bool \<Rightarrow> (io_error \<Rightarrow> string) \<Rightarrow> (aof_entry \<Rightarrow> bytes) \<Rightarrow> 'w network \<Rightarrow> ha_manager \<times> 'w
    \<Rightarrow> ((string, unit) result \<times> ha_manager \<times> 'w) option" where
  "ha_start waited io_text to_json net hw =
     (case hw of (h, w) \<Rightarrow>
      case ha_rx h of
        [] \<Rightarrow>
          if ha_open h then None
          else Some (Err (if waited then ''aof event closed'' else ''aof event channel disconnected''), h, w)
      | e # rx \<Rightarrow>
          (let h1 = h\<lparr>ha_rx := rx, ha_uncommitted := ha_uncommitted h @ [e]\<rparr> in
           case cf_replica (ha_conf h) of
             None \<Rightarrow> Some (Fault UnwrapPanic, h1, w)
           | Some rc \<Rightarrow>
               if length (ha_uncommitted h1) \<ge> buffer_size rc then
                 (let h2 = h1\<lparr>ha_uncommitted := []\<rparr>;
                      (r, w') = sync_followers io_text to_json net (ha_followers h) (ha_uncommitted h1) w
                  in Some (r, h2, w'))
               else Some (Ok (), h1, w)))"

text \<open>
  The heartbeat task on one tick: the followers known at its start are tried in turn. The first
  answer ends the task; a failure counts, and the fourth removes the follower.
\<close>

definition hb_failed :: "string \<Rightarrow> ha_manager \<Rightarrow> ha_manager" where
  "hb_failed addr h =
     (let n = (case hm_get (ha_timeout h) addr of Some n \<Rightarrow> n | None \<Rightarrow> 0) in
      if n \<ge> 3 then
        h\<lparr>ha_followers := filter (\<lambda>f. f \<noteq> addr) (ha_followers h), ha_timeout := hm_remove addr (ha_timeout h)\<rparr>
      else h\<lparr>ha_timeout := hm_insert addr (n + 1) (ha_timeout h)\<rparr>)"

datatype hb_outcome = HbContinue | HbReturned | HbPanicked

fun hb_try :: "(io_error \<Rightarrow> string) \<Rightarrow> 'w network \<Rightarrow> string list \<Rightarrow> ha_manager \<times> 'w \<Rightarrow> hb_outcome \<times> ha_manager \<times> 'w" where
  "hb_try io_text net [] hw = (HbContinue, hw)"
| "hb_try io_text net (addr # fs) (h, w) =
     (case heartbeat_follower io_text net addr w of
        (Ok _, w') \<Rightarrow> (HbReturned, h, w')
      | (Err _, w') \<Rightarrow> hb_try io_text net fs (hb_failed addr h, w')
      | (Fault _, w') \<Rightarrow> (HbPanicked, h, w'))"

definition heartbeat_tick :: "(io_error \<Rightarrow> string) \<Rightarrow> 'w network \<Rightarrow> ha_manager \<times> 'w \<Rightarrow> hb_outcome \<times> ha_manager \<times> 'w" where
  "heartbeat_tick io_text net hw = hb_try io_text net (ha_followers (fst hw)) hw"

fun heartbeat_ticks :: "nat \<Rightarrow> (io_error \<Rightarrow> string) \<Rightarrow> 'w network \<Rightarrow> ha_manager \<times> 'w \<Rightarrow> hb_outcome \<times> ha_manager \<times> 'w" where
  "heartbeat_ticks 0 io_text net hw = (HbContinue, hw)"
| "heartbeat_ticks (Suc n) io_text net hw =
     (case heartbeat_tick io_text net hw of
        (HbContinue, hw') \<Rightarrow> heartbeat_ticks n io_text net hw'
      | r \<Rightarrow> r)"

section \<open>Removal of followers\<close>

definition hb_count :: "ha_manager \<Rightarrow> string \<Rightarrow> u8" where
  "hb_count h a = (case hm_get (ha_timeout h) a of Some n \<Rightarrow> n | None \<Rightarrow> 0)"

definition silent :: "(io_error \<Rightarrow> string) \<Rightarrow> 'w network \<Rightarrow> string \<Rightarrow> bool" where
  "silent io_text net a \<longleftrightarrow> (\<forall>w. \<exists>e. fst (heartbeat_follower io_text net a w) = Err e)"

lemma hb_failed_count:
  "hb_count h a < 3 \<Longrightarrow> ha_followers (hb_failed a h) = ha_followers h \<and>
     hb_count (hb_failed a h) b = (if b = a then hb_count h a + 1 else hb_count h b)"
  by (auto simp: hb_failed_def hb_count_def Let_def)

lemma hb_failed_drop:
  "\<not> hb_count h a < 3 \<Longrightarrow> ha_followers (hb_failed a h) = filter (\<lambda>f. f \<noteq> a) (ha_followers h) \<and>
     hb_count (hb_failed a h) b = (if b = a then 0 else hb_count h b)"
  by (auto simp: hb_failed_def hb_count_def Let_def not_less split: option.splits)

lemma hb_try_silent:
  "(\<And>a. a \<in> set xs \<Longrightarrow> silent io_text net a) \<Longrightarrow>
   \<exists>w'. hb_try io_text net xs (h, w) = (HbContinue, fold hb_failed xs h, w')"
proof (induction xs arbitrary: h w)
  case Nil
  then show ?case by simp
next
  case (Cons a xs)
  obtain e w1 where 1: "heartbeat_follower io_text net a w = (Err e, w1)"
    using Cons.prems [of a] by (auto simp: silent_def) (metis prod.collapse)
  obtain w' where "hb_try io_text net xs (hb_failed a h, w1) = (HbContinue, fold hb_failed xs (hb_failed a h), w')"
    using Cons.IH Cons.prems by (metis list.set_intros(2))
  with 1 show ?case by simp
qed

lemma hb_try_failed:
  "hb_try io_text net xs (h, w) = (HbContinue, h', w') \<Longrightarrow> h' = fold hb_failed xs h"
proof (induction xs arbitrary: h w)
  case (Cons a xs)
  obtain r v where "heartbeat_follower io_text net a w = (r, v)" by fastforce
  with Cons show ?case by (cases r) auto
qed simp

lemma hb_try_append:
  "hb_try io_text net xs (h, w) = (HbContinue, h1, w1) \<Longrightarrow> hb_try io_text net (xs @ ys) (h, w) = hb_try io_text net ys (h1, w1)"
proof (induction xs arbitrary: h w)
  case (Cons a xs)
  obtain r v where "heartbeat_follower io_text net a w = (r, v)" by fastforce
  with Cons show ?case by (cases r) auto
qed simp

text \<open>
  A round of failures, with an address tried as often as it is listed: an address is removed when its
  count passes three on the way.
\<close>

definition struck_out :: "ha_manager \<Rightarrow> string list \<Rightarrow> string \<Rightarrow> bool" where
  "struck_out h xs a \<longleftrightarrow> a \<in> set xs \<and> 3 < unat (hb_count h a) + count_list xs a"

lemma failed_round:
  "ha_followers (fold hb_failed xs h) = filter (\<lambda>b. \<not> struck_out h xs b) (ha_followers h) \<and>
   (\<forall>b. unat (hb_count h b) + count_list xs b \<le> 3 \<longrightarrow>
      unat (hb_count (fold hb_failed xs h) b) = unat (hb_count h b) + count_list xs b)"
proof (induction xs arbitrary: h)
  case Nil
  show ?case by (simp add: struck_out_def)
next
  case (Cons a xs)
  show ?case
  proof (cases "hb_count h a < 3")
    case True
    note h1 = hb_failed_count [OF True]
    have u: "unat (hb_count h a + 1) = unat (hb_count h a) + 1" "unat (hb_count h a) < 3"
      using True by (simp_all add: unat_word_ariths word_less_nat_alt)
    have "struck_out (hb_failed a h) xs b = struck_out h (a # xs) b" for b
      using h1 u count_list_0_iff [of xs b] by (auto simp: struck_out_def)
    then show ?thesis using Cons.IH [of "hb_failed a h"] h1 u(1) by auto
  next
    case False
    note h1 = hb_failed_drop [OF False]
    have u: "3 \<le> unat (hb_count h a)" using False by (simp add: word_less_nat_alt)
    then have "(\<not> struck_out (hb_failed a h) xs b \<and> b \<noteq> a) = (\<not> struck_out h (a # xs) b)" for b
      using h1 by (auto simp: struck_out_def)
    then show ?thesis using Cons.IH [of "hb_failed a h"] h1 u by (auto simp: filter_filter conj_commute)
  qed
qed

lemma count_list_filter: "P a \<Longrightarrow> count_list (filter P xs) a = count_list xs a"
  by (induction xs) auto

text \<open>One tick with only silent followers.\<close>

lemma silent_tick:
  assumes "\<And>a. a \<in> set (ha_followers h) \<Longrightarrow> silent io_text net a"
  obtains h' w' where "heartbeat_tick io_text net (h, w) = (HbContinue, h', w')"
    and "ha_followers h' = filter (\<lambda>a. unat (hb_count h a) + count_list (ha_followers h) a \<le> 3) (ha_followers h)"
    and "\<And>a. a \<in> set (ha_followers h') \<Longrightarrow> unat (hb_count h' a) = unat (hb_count h a) + count_list (ha_followers h) a \<and>
      count_list (ha_followers h') a = count_list (ha_followers h) a \<and> unat (hb_count h' a) \<le> 3"
proof -
  let ?h = "fold hb_failed (ha_followers h) h"
  obtain w' where w: "heartbeat_tick io_text net (h, w) = (HbContinue, ?h, w')"
    using hb_try_silent [of "ha_followers h" io_text net h w] assms by (auto simp: heartbeat_tick_def)
  note r = failed_round [of "ha_followers h" h]
  have f: "ha_followers ?h = filter (\<lambda>a. unat (hb_count h a) + count_list (ha_followers h) a \<le> 3) (ha_followers h)"
    using r by (auto simp: struck_out_def not_less intro!: filter_cong)
  show thesis
  proof (rule that [OF w f])
    fix a assume "a \<in> set (ha_followers ?h)"
    then have "unat (hb_count h a) + count_list (ha_followers h) a \<le> 3" using f by auto
    then show "unat (hb_count ?h a) = unat (hb_count h a) + count_list (ha_followers h) a \<and>
      count_list (ha_followers ?h) a = count_list (ha_followers h) a \<and> unat (hb_count ?h a) \<le> 3"
      using conjunct2 [OF r] unfolding f by (simp add: count_list_filter)
  qed
qed

lemma silent_ticks:
  assumes "\<And>a. a \<in> set (ha_followers h) \<Longrightarrow> silent io_text net a"
    and "0 < n \<or> (\<forall>a \<in> set (ha_followers h). unat (hb_count h a) \<le> 3)"
  shows "\<exists>h' w'. heartbeat_ticks n io_text net (h, w) = (HbContinue, h', w') \<and>
    ha_followers h' = filter (\<lambda>a. unat (hb_count h a) + n * count_list (ha_followers h) a \<le> 3) (ha_followers h)"
  using assms
proof (induction n arbitrary: h w)
  case 0
  then show ?case by (simp add: filter_id_conv)
next
  case (Suc n)
  obtain h1 w1 where 1: "heartbeat_tick io_text net (h, w) = (HbContinue, h1, w1)"
    "ha_followers h1 = filter (\<lambda>a. unat (hb_count h a) + count_list (ha_followers h) a \<le> 3) (ha_followers h)"
    and c: "\<And>a. a \<in> set (ha_followers h1) \<Longrightarrow> unat (hb_count h1 a) = unat (hb_count h a) + count_list (ha_followers h) a \<and>
      count_list (ha_followers h1) a = count_list (ha_followers h) a \<and> unat (hb_count h1 a) \<le> 3"
    using silent_tick [OF Suc.prems(1)] by blast
  obtain h' w' where 2: "heartbeat_ticks n io_text net (h1, w1) = (HbContinue, h', w')"
    "ha_followers h' = filter (\<lambda>a. unat (hb_count h1 a) + n * count_list (ha_followers h1) a \<le> 3) (ha_followers h1)"
    using Suc.IH [of h1 w1] Suc.prems(1) 1(2) c by auto
  have "ha_followers h' = filter (\<lambda>a. unat (hb_count h a) + Suc n * count_list (ha_followers h) a \<le> 3) (ha_followers h1)"
    unfolding 2(2) using c by (intro filter_cong) auto
  then show ?case using 1 2(1) by (auto simp: filter_filter intro!: filter_cong)
qed

lemma heartbeat_ticks_stop:
  "heartbeat_ticks k io_text net hw = (HbContinue, hw') \<Longrightarrow> heartbeat_tick io_text net hw' = (HbReturned, r) \<Longrightarrow>
   heartbeat_ticks (k + Suc n) io_text net hw = (HbReturned, r)"
proof (induction k arbitrary: hw)
  case (Suc k)
  then obtain hw1 where "heartbeat_tick io_text net hw = (HbContinue, hw1)" "heartbeat_ticks k io_text net hw1 = (HbContinue, hw')"
    by (auto split: prod.splits hb_outcome.splits)
  with Suc.IH Suc.prems(2) show ?case by simp
qed simp

text \<open>
  C32. Failure detection, from any counters and any list of followers (an address that registered
  several times is listed several times), while no follower registers. When no follower answers, every
  round adds to an address's count as often as the address is listed, and after \<open>n\<close> rounds exactly
  those followers are left whose count and failures together are at most three: a follower listed once
  and counted from zero is kept for three rounds and removed in the fourth, one listed twice is removed
  in the second. But as soon as any follower answers, in whatever round and at whatever place in the
  list, the monitoring task ends: the followers before it in that round have been counted, those behind
  it are neither tried nor counted, and there is no later round.
\<close>

theorem heartbeat_four_strikes:
  "((\<forall>a \<in> set (ha_followers h). silent io_text net a) \<and> 0 < n \<longrightarrow>
      (\<exists>h' w'. heartbeat_ticks n io_text net (h, w) = (HbContinue, h', w') \<and>
        ha_followers h' = filter (\<lambda>a. unat (hb_count h a) + n * count_list (ha_followers h) a \<le> 3) (ha_followers h))) \<and>
   (heartbeat_ticks k io_text net (h, w) = (HbContinue, hk, wk) \<and> ha_followers hk = xs @ f # ys \<and>
      hb_try io_text net xs (hk, wk) = (HbContinue, h1, w1) \<and> heartbeat_follower io_text net f w1 = (Ok (), w2) \<longrightarrow>
      (\<forall>later. heartbeat_ticks (k + Suc later) io_text net (h, w) = (HbReturned, fold hb_failed xs hk, w2)))"
proof (intro conjI impI allI)
  show "\<exists>h' w'. heartbeat_ticks n io_text net (h, w) = (HbContinue, h', w') \<and>
      ha_followers h' = filter (\<lambda>a. unat (hb_count h a) + n * count_list (ha_followers h) a \<le> 3) (ha_followers h)"
    if "(\<forall>a \<in> set (ha_followers h). silent io_text net a) \<and> 0 < n"
    using that by (intro silent_ticks) auto
  assume a: "heartbeat_ticks k io_text net (h, w) = (HbContinue, hk, wk) \<and> ha_followers hk = xs @ f # ys \<and>
      hb_try io_text net xs (hk, wk) = (HbContinue, h1, w1) \<and> heartbeat_follower io_text net f w1 = (Ok (), w2)"
  then have "h1 = fold hb_failed xs hk" using hb_try_failed [of io_text net xs hk wk h1 w1] by simp
  then have "heartbeat_tick io_text net (hk, wk) = (HbReturned, fold hb_failed xs hk, w2)"
    using a hb_try_append [of io_text net xs hk wk h1 w1 "f # ys"] by (simp add: heartbeat_tick_def)
  then show "heartbeat_ticks (k + Suc later) io_text net (h, w) = (HbReturned, fold hb_failed xs hk, w2)" for later
    using a heartbeat_ticks_stop by blast
qed

theorem heartbeat_four_strikes_witness:
  "(let h = ha_new conf_default [''a'', ''b'', ''b''] [] True;
       net = (\<lambda>addr inp (w :: unit). (Err (SocketError ''refused''), w));
       up = (\<lambda>addr inp (w :: unit). (if addr = ''b'' then Ok ok_empty else Err (SocketError ''refused''), w))
    in (\<forall>a \<in> set (ha_followers h). silent (\<lambda>_. []) net a) \<and>
       (\<exists>h' w'. heartbeat_ticks 3 (\<lambda>_. []) net (h, ()) = (HbContinue, h', w') \<and> ha_followers h' = [''a'']) \<and>
       (\<exists>h' w'. heartbeat_ticks 4 (\<lambda>_. []) net (h, ()) = (HbContinue, h', w') \<and> ha_followers h' = []) \<and>
       (\<forall>n. heartbeat_ticks (Suc n) (\<lambda>_. []) up (h, ()) = (HbReturned, hb_failed ''a'' h, ())))"
proof -
  let ?h = "ha_new conf_default [''a'', ''b'', ''b''] [] True"
  let ?net = "\<lambda>(addr :: string) (inp :: bytes) (w :: unit). (Err (SocketError ''refused'') :: (io_error, bytes) result, w)"
  let ?up = "\<lambda>(addr :: string) (inp :: bytes) (w :: unit).
    (if addr = ''b'' then Ok ok_empty else Err (SocketError ''refused'') :: (io_error, bytes) result, w)"
  have s: "silent (\<lambda>_. []) ?net a" for a
    by (simp add: silent_def heartbeat_follower_def ha_send_recv_def expect_ok_def)
  have d: "ha_followers ?h = [''a'', ''b'', ''b'']" "hb_count ?h a = 0" for a
    by (simp_all add: ha_new_def hb_count_def)
  have 1: "\<exists>h' w'. heartbeat_ticks n (\<lambda>_. []) ?net (?h, ()) = (HbContinue, h', w') \<and>
      ha_followers h' = filter (\<lambda>a. unat (hb_count ?h a) + n * count_list (ha_followers ?h) a \<le> 3) (ha_followers ?h)"
    if "0 < n" for n
    using heartbeat_four_strikes [of ?h "\<lambda>_. []" ?net n "()"] s that by blast
  have b: "heartbeat_follower (\<lambda>_. []) ?up ''b'' () = (Ok (), ())"
    by code_simp
  have "hb_try (\<lambda>_. []) ?up [''a''] (?h, ()) = (HbContinue, hb_failed ''a'' ?h, ())"
    by (simp add: heartbeat_follower_def ha_send_recv_def expect_ok_def)
  then have "\<forall>n. heartbeat_ticks (0 + Suc n) (\<lambda>_. []) ?up (?h, ()) = (HbReturned, fold hb_failed [''a''] ?h, ())"
    using heartbeat_four_strikes [of ?h "\<lambda>_. []" ?up 1 "()" 0 ?h "()" "[''a'']" "''b''" "[''b'']" "hb_failed ''a'' ?h" "()" "()"]
      b d(1) by simp
  then show ?thesis using s 1 [of 3] 1 [of 4] by (simp add: Let_def d)
qed

end
