(* ===== verification/Pipeline.thy ===== *)
theory Pipeline
  imports Db
begin

text \<open>
  The pipeline layer (\<open>server/src/db/pipeline.rs\<close>): batches of commands, the per-resource lock state,
  the queue ordered by batch size, the dispatcher task and the job tasks it spawns.

  A job is identified by a number in place of its \<open>oneshot\<close> channel. \<open>partition_point\<close> is the length of
  the longest prefix that satisfies the predicate, which is its documented result on a partitioned
  slice; the queue is kept partitioned. Every command of a batch comes with its own environment.
\<close>

section \<open>Commands and batches\<close>

datatype resource = RKv | RList | RLog

datatype pipeline_command =
    PKvSet string string bytes i64
  | PKvDel string string
  | PKvFlush string
  | PListPush string bytes
  | PListPop string
  | PListFlush string
  | PLogAdd string u64 bytes

fun cmd_resource :: "pipeline_command \<Rightarrow> resource" where
  "cmd_resource (PKvSet _ _ _ _) = RKv"
| "cmd_resource (PKvDel _ _) = RKv"
| "cmd_resource (PKvFlush _) = RKv"
| "cmd_resource (PListPush _ _) = RList"
| "cmd_resource (PListPop _) = RList"
| "cmd_resource (PListFlush _) = RList"
| "cmd_resource (PLogAdd _ _ _) = RLog"

datatype pipeline_error = SendError | ExecError db_error

record pipeline =
  pl_id :: u64
  pl_commands :: "pipeline_command list"

definition pipeline_new :: "u64 \<Rightarrow> pipeline" where
  "pipeline_new i = \<lparr>pl_id = i, pl_commands = []\<rparr>"

definition push_command :: "pipeline_command \<Rightarrow> pipeline \<Rightarrow> pipeline" where
  "push_command c p = p\<lparr>pl_commands := pl_commands p @ [c]\<rparr>"

definition pl_kv_set :: "string \<Rightarrow> string \<Rightarrow> bytes \<Rightarrow> i64 \<Rightarrow> pipeline \<Rightarrow> pipeline" where
  "pl_kv_set db key val ttl = push_command (PKvSet db key val ttl)"

definition pl_kv_del :: "string \<Rightarrow> string \<Rightarrow> pipeline \<Rightarrow> pipeline" where
  "pl_kv_del db key = push_command (PKvDel db key)"

definition pl_kv_flush :: "string \<Rightarrow> pipeline \<Rightarrow> pipeline" where
  "pl_kv_flush db = push_command (PKvFlush db)"

definition pl_list_push :: "string \<Rightarrow> bytes \<Rightarrow> pipeline \<Rightarrow> pipeline" where
  "pl_list_push key payload = push_command (PListPush key payload)"

definition pl_list_pop :: "string \<Rightarrow> pipeline \<Rightarrow> pipeline" where
  "pl_list_pop key = push_command (PListPop key)"

definition pl_list_flush :: "string \<Rightarrow> pipeline \<Rightarrow> pipeline" where
  "pl_list_flush key = push_command (PListFlush key)"

definition pl_log_add :: "string \<Rightarrow> u64 \<Rightarrow> bytes \<Rightarrow> pipeline \<Rightarrow> pipeline" where
  "pl_log_add grp timestamp payload = push_command (PLogAdd grp timestamp payload)"

record pipeline_job =
  jb_id :: nat
  jb_commands :: "pipeline_command list"

text \<open>\<open>Pipeline::end\<close> consumes the pipeline and sends its commands as a job.\<close>

definition pipeline_end :: "nat \<Rightarrow> pipeline \<Rightarrow> pipeline_job" where
  "pipeline_end n p = \<lparr>jb_id = n, jb_commands = pl_commands p\<rparr>"

section \<open>Lock state\<close>

record lock_state =
  kv_holders :: u32
  list_holders :: u32
  log_holders :: u32

definition lock_default :: lock_state where
  "lock_default = \<lparr>kv_holders = 0, list_holders = 0, log_holders = 0\<rparr>"

text \<open>The two loops of \<open>can_acquire\<close>; the first returns early for a mixed batch when the store is held.\<close>

definition mixed_blocked :: "lock_state \<Rightarrow> resource list \<Rightarrow> resource \<Rightarrow> bool" where
  "mixed_blocked st rs r =
     (case r of
        RKv \<Rightarrow> kv_holders st > 0 \<and> List.member rs RList \<or> kv_holders st > 0 \<and> List.member rs RLog
      | _ \<Rightarrow> False)"

fun held :: "lock_state \<Rightarrow> resource \<Rightarrow> bool" where
  "held st RKv = (kv_holders st > 0)"
| "held st RList = (list_holders st > 0)"
| "held st RLog = (log_holders st > 0)"

definition can_acquire :: "lock_state \<Rightarrow> resource list \<Rightarrow> bool" where
  "can_acquire st rs =
     (if list_ex (mixed_blocked st rs) rs then False
      else if list_ex (held st) rs then False else True)"

fun acquire_one :: "resource \<Rightarrow> lock_state \<Rightarrow> lock_state" where
  "acquire_one RKv st = st\<lparr>kv_holders := kv_holders st + 1\<rparr>"
| "acquire_one RList st = st\<lparr>list_holders := list_holders st + 1\<rparr>"
| "acquire_one RLog st = st\<lparr>log_holders := log_holders st + 1\<rparr>"

definition lock_acquire :: "resource list \<Rightarrow> lock_state \<Rightarrow> lock_state" where
  "lock_acquire rs st = fold acquire_one rs st"

definition saturating_dec :: "u32 \<Rightarrow> u32" where
  "saturating_dec w = (if w = 0 then 0 else w - 1)"

fun release_one :: "resource \<Rightarrow> lock_state \<Rightarrow> lock_state" where
  "release_one RKv st = st\<lparr>kv_holders := saturating_dec (kv_holders st)\<rparr>"
| "release_one RList st = st\<lparr>list_holders := saturating_dec (list_holders st)\<rparr>"
| "release_one RLog st = st\<lparr>log_holders := saturating_dec (log_holders st)\<rparr>"

definition lock_release :: "resource list \<Rightarrow> lock_state \<Rightarrow> lock_state" where
  "lock_release rs st = fold release_one rs st"

text \<open>The first occurrence of every resource: \<open>filter(|r| seen.insert(r.clone()))\<close>.\<close>

fun first_seen :: "resource list \<Rightarrow> resource list \<Rightarrow> resource list" where
  "first_seen seen [] = []"
| "first_seen seen (r # rs) =
     (if List.member seen r then first_seen seen rs else r # first_seen (r # seen) rs)"

definition unique_resources :: "pipeline_command list \<Rightarrow> resource list" where
  "unique_resources cs = first_seen [] (map cmd_resource cs)"

section \<open>The queue\<close>

record queued_job =
  qj_op_count :: nat
  qj_resources :: "resource list"
  qj_job :: pipeline_job

definition queued :: "pipeline_job \<Rightarrow> queued_job" where
  "queued j = \<lparr>qj_op_count = length (jb_commands j), qj_resources = unique_resources (jb_commands j),
     qj_job = j\<rparr>"

definition partition_point :: "('a \<Rightarrow> bool) \<Rightarrow> 'a list \<Rightarrow> nat" where
  "partition_point P xs = length (takeWhile P xs)"

definition insert_at :: "nat \<Rightarrow> 'a \<Rightarrow> 'a list \<Rightarrow> 'a list" where
  "insert_at n x xs = take n xs @ x # drop n xs"

definition enqueue :: "pipeline_job \<Rightarrow> queued_job list \<Rightarrow> queued_job list" where
  "enqueue j q =
     (let x = queued j in insert_at (partition_point (\<lambda>y. qj_op_count y \<le> qj_op_count x) q) x q)"

text \<open>\<open>position\<close> of the first runnable job, which is taken out of the queue.\<close>

fun try_pop_runnable :: "lock_state \<Rightarrow> queued_job list \<Rightarrow> (queued_job \<times> queued_job list) option" where
  "try_pop_runnable st [] = None"
| "try_pop_runnable st (x # q) =
     (if can_acquire st (qj_resources x) then Some (x, q)
      else map_option (\<lambda>(y, q'). (y, x # q')) (try_pop_runnable st q))"

section \<open>Running a job\<close>

definition run_command :: "env \<Rightarrow> pipeline_command \<Rightarrow> db \<Rightarrow> (db_error, unit) result \<times> db" where
  "run_command v c s =
     (case c of
        PKvSet d key val ttl \<Rightarrow> db_kv_set v d key val ttl s
      | PKvDel d key \<Rightarrow> db_kv_del d key s
      | PKvFlush d \<Rightarrow> db_kv_flush d s
      | PListPush key payload \<Rightarrow> db_list_push v key payload s
      | PListPop key \<Rightarrow> apfst (map_ok (\<lambda>_. ())) (db_list_pop key s)
      | PListFlush key \<Rightarrow> db_list_flush key s
      | PLogAdd grp timestamp payload \<Rightarrow> apfst (map_ok (\<lambda>_. ())) (db_log_add v grp timestamp payload s))"

text \<open>The loop of \<open>execute_job\<close>: the first failure ends it.\<close>

fun execute_job :: "(nat \<Rightarrow> env) \<Rightarrow> pipeline_command list \<Rightarrow> db \<Rightarrow> (pipeline_error, unit) result \<times> db" where
  "execute_job vs [] s = (Ok (), s)"
| "execute_job vs (c # cs) s =
     (case run_command (vs 0) c s of
        (Ok _, s') \<Rightarrow> execute_job (\<lambda>n. vs (Suc n)) cs s'
      | (Err e, s') \<Rightarrow> (Err (ExecError e), s')
      | (Fault p, s') \<Rightarrow> (Fault p, s'))"

section \<open>The manager\<close>

record pipeline_manager =
  pm_pipelines :: "(u64, pipeline) btree_map"
  pm_next_id :: u64

definition pm_new :: pipeline_manager where
  "pm_new = \<lparr>pm_pipelines = [], pm_next_id = 0\<rparr>"

definition pm_start :: "pipeline_manager \<Rightarrow> u64 \<times> pipeline_manager" where
  "pm_start m =
     (let i = pm_next_id m in
      (i, m\<lparr>pm_next_id := i + 1, pm_pipelines := bt_insert i (pipeline_new i) (pm_pipelines m)\<rparr>))"

definition pm_get :: "u64 \<Rightarrow> pipeline_manager \<Rightarrow> pipeline option" where
  "pm_get i m = bt_get (pm_pipelines m) i"

text \<open>\<open>take\<close> removes the pipeline and returns it unless another handle to it is alive.\<close>

definition pm_take :: "bool \<Rightarrow> u64 \<Rightarrow> pipeline_manager \<Rightarrow> pipeline option \<times> pipeline_manager" where
  "pm_take shared i m =
     (case bt_get (pm_pipelines m) i of
        None \<Rightarrow> (None, m)
      | Some p \<Rightarrow> (if shared then None else Some p, m\<lparr>pm_pipelines := bt_remove i (pm_pipelines m)\<rparr>))"

definition pm_remove :: "u64 \<Rightarrow> pipeline_manager \<Rightarrow> pipeline_manager" where
  "pm_remove i m = m\<lparr>pm_pipelines := bt_remove i (pm_pipelines m)\<rparr>"

section \<open>The tasks\<close>

text \<open>
  The dispatcher waits in \<open>recv\<close>, drains the channel with \<open>try_recv\<close>, or is about to call
  \<open>try_pop_runnable\<close>. A job task is about to test the locks, has failed the test but does not wait
  yet, waits for a notification, runs, has its result and is about to release its locks, is about
  to notify the waiters, has answered, or has panicked while it held its locks.
\<close>

datatype dispatcher = DRecv | DDrain | DPop

datatype task_pc =
    TAcquire | TChecked | TWaiting | TRunning
  | TRelease "(pipeline_error, unit) result" | TNotify "(pipeline_error, unit) result"
  | TDone "(pipeline_error, unit) result" | TPanicked

record task =
  tk_job :: queued_job
  tk_pc :: task_pc

record sys =
  sy_chan :: "pipeline_job list"
  sy_disp :: dispatcher
  sy_queue :: "queued_job list"
  sy_locks :: lock_state
  sy_permit :: bool
  sy_tasks :: "task list"
  sy_db :: db

definition CHANNEL_SIZE :: nat where
  "CHANNEL_SIZE = 256"

definition sys_init :: "db \<Rightarrow> sys" where
  "sys_init d = \<lparr>sy_chan = [], sy_disp = DRecv, sy_queue = [], sy_locks = lock_default,
     sy_permit = False, sy_tasks = [], sy_db = d\<rparr>"

definition set_pc :: "nat \<Rightarrow> task_pc \<Rightarrow> sys \<Rightarrow> sys" where
  "set_pc i pc s = s\<lparr>sy_tasks := (sy_tasks s)[i := (sy_tasks s ! i)\<lparr>tk_pc := pc\<rparr>]\<rparr>"

text \<open>\<open>notify_waiters\<close> wakes every task that waits; a woken task tests the locks again.\<close>

definition wake :: "task \<Rightarrow> task" where
  "wake t = (if tk_pc t = TWaiting then t\<lparr>tk_pc := TAcquire\<rparr> else t)"

definition wake_all :: "sys \<Rightarrow> sys" where
  "wake_all s = s\<lparr>sy_tasks := map wake (sy_tasks s)\<rparr>"

text \<open>\<open>notify_one\<close> wakes one waiting task, or leaves a permit when none waits.\<close>

definition no_waiter :: "sys \<Rightarrow> bool" where
  "no_waiter s \<longleftrightarrow> list_all (\<lambda>t. tk_pc t \<noteq> TWaiting) (sy_tasks s)"

inductive notify_one :: "sys \<Rightarrow> sys \<Rightarrow> bool" where
  wake_one: "i < length (sy_tasks s) \<Longrightarrow> tk_pc (sy_tasks s ! i) = TWaiting \<Longrightarrow> notify_one s (set_pc i TAcquire s)"
| leave_permit: "no_waiter s \<Longrightarrow> notify_one s (s\<lparr>sy_permit := True\<rparr>)"

text \<open>
  One rule per atomic action; \<open>other\<close> is a change of the database by another connection, between
  two jobs, each of which holds the database's lock while it runs.
\<close>

definition take_job :: "pipeline_job \<Rightarrow> pipeline_job list \<Rightarrow> sys \<Rightarrow> sys" where
  "take_job j js s = s\<lparr>sy_chan := js, sy_queue := enqueue j (sy_queue s), sy_disp := DDrain\<rparr>"

inductive step :: "sys \<Rightarrow> sys \<Rightarrow> bool" where
  submit: "length (sy_chan s) < CHANNEL_SIZE \<Longrightarrow> step s (s\<lparr>sy_chan := sy_chan s @ [j]\<rparr>)"
| receive: "sy_disp s = DRecv \<Longrightarrow> sy_chan s = j # js \<Longrightarrow> notify_one (take_job j js s) s' \<Longrightarrow> step s s'"
| drain: "sy_disp s = DDrain \<Longrightarrow> sy_chan s = j # js \<Longrightarrow> notify_one (take_job j js s) s' \<Longrightarrow> step s s'"
| drained: "sy_disp s = DDrain \<Longrightarrow> sy_chan s = [] \<Longrightarrow> step s (s\<lparr>sy_disp := DPop\<rparr>)"
| pop: "sy_disp s = DPop \<Longrightarrow> try_pop_runnable (sy_locks s) (sy_queue s) = Some (x, q) \<Longrightarrow>
    step s (s\<lparr>sy_disp := DDrain, sy_queue := q, sy_tasks := sy_tasks s @ [\<lparr>tk_job = x, tk_pc = TAcquire\<rparr>]\<rparr>)"
| pop_none: "sy_disp s = DPop \<Longrightarrow> try_pop_runnable (sy_locks s) (sy_queue s) = None \<Longrightarrow>
    step s (s\<lparr>sy_disp := DRecv\<rparr>)"
| acquired: "i < length (sy_tasks s) \<Longrightarrow> tk_pc (sy_tasks s ! i) = TAcquire \<Longrightarrow>
    rs = qj_resources (tk_job (sy_tasks s ! i)) \<Longrightarrow> can_acquire (sy_locks s) rs \<Longrightarrow>
    step s (set_pc i TRunning (s\<lparr>sy_locks := lock_acquire rs (sy_locks s)\<rparr>))"
| refused: "i < length (sy_tasks s) \<Longrightarrow> tk_pc (sy_tasks s ! i) = TAcquire \<Longrightarrow>
    \<not> can_acquire (sy_locks s) (qj_resources (tk_job (sy_tasks s ! i))) \<Longrightarrow> step s (set_pc i TChecked s)"
| permit: "i < length (sy_tasks s) \<Longrightarrow> tk_pc (sy_tasks s ! i) = TChecked \<Longrightarrow> sy_permit s \<Longrightarrow>
    step s (set_pc i TAcquire (s\<lparr>sy_permit := False\<rparr>))"
| sleep: "i < length (sy_tasks s) \<Longrightarrow> tk_pc (sy_tasks s ! i) = TChecked \<Longrightarrow> \<not> sy_permit s \<Longrightarrow>
    step s (set_pc i TWaiting s)"
| run: "i < length (sy_tasks s) \<Longrightarrow> tk_pc (sy_tasks s ! i) = TRunning \<Longrightarrow>
    execute_job vs (jb_commands (qj_job (tk_job (sy_tasks s ! i)))) (sy_db s) = (r, d) \<Longrightarrow> \<not> is_fault r \<Longrightarrow>
    step s (set_pc i (TRelease r) (s\<lparr>sy_db := d\<rparr>))"
| panic: "i < length (sy_tasks s) \<Longrightarrow> tk_pc (sy_tasks s ! i) = TRunning \<Longrightarrow>
    execute_job vs (jb_commands (qj_job (tk_job (sy_tasks s ! i)))) (sy_db s) = (r, d) \<Longrightarrow> is_fault r \<Longrightarrow>
    step s (set_pc i TPanicked (s\<lparr>sy_db := d\<rparr>))"
| release: "i < length (sy_tasks s) \<Longrightarrow> tk_pc (sy_tasks s ! i) = TRelease r \<Longrightarrow>
    step s (set_pc i (TNotify r)
      (s\<lparr>sy_locks := lock_release (qj_resources (tk_job (sy_tasks s ! i))) (sy_locks s)\<rparr>))"
| notify: "i < length (sy_tasks s) \<Longrightarrow> tk_pc (sy_tasks s ! i) = TNotify r \<Longrightarrow>
    step s (wake_all (set_pc i (TDone r) s))"
| other: "step s (s\<lparr>sy_db := d\<rparr>)"

inductive reachable :: "db \<Rightarrow> sys \<Rightarrow> bool" for d where
  init: "reachable d (sys_init d)"
| step: "reachable d s \<Longrightarrow> step s t \<Longrightarrow> reachable d t"

end
