(* ===== verification/Server.thy ===== *)
theory Server
  imports Ha Pipeline
begin

text \<open>
  The server (\<open>server/src/server/server.rs\<close>): error texts, the handler of a parsed command, and the
  loop of a connection that takes frames off the socket and sends a response for each.

  The locks around the database and the managers serialise handlers; a handler runs as one step. What
  a handler takes from its surroundings is collected in \<open>srv_env\<close>. A panic ends the task of the
  connection, which closes it.
\<close>

section \<open>Error texts\<close>

fun log_error_text :: "log_error \<Rightarrow> string" where
  "log_error_text log_error.EntryTooLarge = ''entry exceeds segment capacity''"
| "log_error_text SegmentLimitReached = ''max segment count reached''"
| "log_error_text EntryNotFound = ''entry not found''"
| "log_error_text AllocationFailed = ''failed to allocate memory for segment''"
| "log_error_text MaxSegmentsReached = ''maximum segments reached''"
| "log_error_text WriteLockUnavailable = ''write lock is currently held by another operation''"

fun group_error_text :: "group_error \<Rightarrow> string" where
  "group_error_text (GroupNotFound name) = ''group '' @ [CHR 0x27] @ name @ [CHR 0x27] @ '' not found''"
| "group_error_text (GroupAlreadyExists name) = ''group '' @ [CHR 0x27] @ name @ [CHR 0x27] @ '' already exists''"
| "group_error_text (GLogError e) = ''log error: '' @ log_error_text e"

text \<open>The last text ends in the letter sharp s, two bytes in UTF-8.\<close>

fun list_error_text :: "list_error \<Rightarrow> string" where
  "list_error_text list_error.EntryTooLarge = ''entry exceeds segment capacity''"
| "list_error_text AllocFailed = ''failed to grow the list''"
| "list_error_text KeyNotFound = ''key not found''"
| "list_error_text OutOfRange = ''given range is invalid'' @ [CHR 0xC3, CHR 0x9F]"

fun db_error_text :: "db_error \<Rightarrow> string" where
  "db_error_text (LogCreateGroupError e) = ''failed to create group: '' @ group_error_text e"
| "db_error_text (LogDropGroupError e) = ''failed to drop group: '' @ group_error_text e"
| "db_error_text (LogAppendError e) = ''failed to append to log: '' @ group_error_text e"
| "db_error_text (LogAppendRangeError e) = ''failed to append range to log: '' @ group_error_text e"
| "db_error_text (LogReadError e) = ''failed to read from log: '' @ group_error_text e"
| "db_error_text (LogReadRangeError e) = ''failed to read range from log: '' @ group_error_text e"
| "db_error_text (LogRemoveError e) = ''failed to remove from log: '' @ group_error_text e"
| "db_error_text (LogGroupStatsError e) = ''failed to read group stats: '' @ group_error_text e"
| "db_error_text (KVSetError e) = ''failed to set key: '' @ e"
| "db_error_text (KVGetError e) = ''failed to get key: '' @ e"
| "db_error_text (KVDelError e) = ''failed to del key: '' @ e"
| "db_error_text (KVKeysError e) = ''failed to return keys: '' @ e"
| "db_error_text (KVFlushError e) = ''failed to flush: '' @ e"
| "db_error_text (ListPushError e) = ''failed to push: '' @ list_error_text e"
| "db_error_text (ListPushRangeError e) = ''failed to push range: '' @ list_error_text e"
| "db_error_text (ListPopError e) = ''failed to pop: '' @ list_error_text e"
| "db_error_text (ListPopRangeError e) = ''failed to pop range: '' @ list_error_text e"
| "db_error_text (ListPopCountError e) = ''failed to pop count: '' @ list_error_text e"
| "db_error_text (ListLenError e) = ''failed to get len: '' @ list_error_text e"
| "db_error_text (ListFlushError e) = ''failed to flush list: '' @ list_error_text e"

fun pipeline_error_text :: "pipeline_error \<Rightarrow> string" where
  "pipeline_error_text SendError = ''pipeline channel closed''"
| "pipeline_error_text (ExecError e) = ''pipeline exec error: '' @ db_error_text e"

section \<open>State\<close>

record 'w srv_env =
  se_env :: env
  se_envs :: "nat \<Rightarrow> env"
  se_iter :: "(string, group) hash_map \<Rightarrow> (string \<times> group) list"
  se_net :: "'w network"
  se_io_text :: "io_error \<Rightarrow> string"
  se_to_json :: "aof_entry \<Rightarrow> bytes"
  se_from_json :: "bytes \<Rightarrow> aof_entry option"
  se_file :: "bytes option"
  se_load_err :: string

record 'w server =
  sv_db :: db
  sv_pm :: pipeline_manager
  sv_ha :: ha_manager
  sv_world :: 'w

definition server_new :: "db \<Rightarrow> ha_manager \<Rightarrow> 'w \<Rightarrow> 'w server" where
  "server_new d h w = \<lparr>sv_db = d, sv_pm = pm_new, sv_ha = h, sv_world = w\<rparr>"

definition start_pipeline :: "'w server \<Rightarrow> u64 \<times> 'w server" where
  "start_pipeline s = (let (i, m) = pm_start (sv_pm s) in (i, s\<lparr>sv_pm := m\<rparr>))"

section \<open>The handler\<close>

text \<open>\<open>Ok(x) => rb...(x)\<close> and \<open>Err(e) => rb.err(&e.to_string())\<close>.\<close>

definition respond :: "('e \<Rightarrow> string) \<Rightarrow> ('a \<Rightarrow> bytes) \<Rightarrow> ('e, 'a) result \<Rightarrow> (io_error, bytes) result" where
  "respond txt f r = (case r of Ok x \<Rightarrow> Ok (f x) | Err e \<Rightarrow> Ok (resp_err (txt e)) | Fault p \<Rightarrow> Fault p)"

definition on_db :: "('a \<Rightarrow> bytes) \<Rightarrow> (db \<Rightarrow> (db_error, 'a) result \<times> db) \<Rightarrow> 'w server
    \<Rightarrow> (io_error, bytes) result \<times> 'w server" where
  "on_db f m s = (let (r, d) = m (sv_db s) in (respond db_error_text f r, s\<lparr>sv_db := d\<rparr>))"

text \<open>The entries of a replication message: text, then JSON; either failure is an \<open>unwrap\<close> panic.\<close>

fun decode_entries :: "(bytes \<Rightarrow> aof_entry option) \<Rightarrow> bytes list \<Rightarrow> aof_entry list option" where
  "decode_entries from_json [] = Some []"
| "decode_entries from_json (raw # raws) =
     (case from_utf8 raw of
        None \<Rightarrow> None
      | Some t \<Rightarrow>
          (case from_base64 from_json t of
             None \<Rightarrow> None
           | Some e \<Rightarrow> map_option (Cons e) (decode_entries from_json raws)))"

definition handle_sync :: "'w srv_env \<Rightarrow> bytes list \<Rightarrow> 'w server \<Rightarrow> (io_error, bytes) result \<times> 'w server" where
  "handle_sync v entries s =
     (case decode_entries (se_from_json v) entries of
        None \<Rightarrow> (Fault UnwrapPanic, s)
      | Some es \<Rightarrow>
          on_db (\<lambda>_. ok_empty) (db_apply_aof (map2 (\<lambda>n e. (se_envs v n, e)) [0..<length es] es)) s)"

definition handle_register :: "'w srv_env \<Rightarrow> string \<Rightarrow> 'w server \<Rightarrow> (io_error, bytes) result \<times> 'w server" where
  "handle_register v addr s =
     (let (r, h, w) = register_follower (se_io_text v) (se_to_json v) (se_from_json v) (se_file v)
        (se_load_err v) (se_net v) addr (sv_ha s, sv_world s)
      in (respond (\<lambda>e. e) (\<lambda>_. ok_empty) r, s\<lparr>sv_ha := h, sv_world := w\<rparr>))"

definition handle_command :: "'w srv_env \<Rightarrow> command \<Rightarrow> 'w server \<Rightarrow> (io_error, bytes) result \<times> 'w server" where
  "handle_command v cmd s =
     (let e = se_env v in
      case cmd of
        CreateGroup name \<Rightarrow> on_db (\<lambda>_. ok_empty) (db_log_create_group e name) s
      | DropGroup name \<Rightarrow> on_db (\<lambda>_. ok_empty) (db_log_drop_group name) s
      | Add grp timestamp payload \<Rightarrow> on_db ok_u64 (db_log_add e grp timestamp payload) s
      | AddRange grp entries \<Rightarrow> on_db (\<lambda>(a, b). ok_u64_pair a b) (db_log_add_range e grp entries) s
      | Read grp i \<Rightarrow> on_db (\<lambda>(i, ts, data). ok_entry i ts data) (db_log_read e grp i) s
      | ReadRange grp start end \<Rightarrow> on_db ok_entries (db_log_read_range e grp start end) s
      | Remove grp up_to \<Rightarrow> on_db (\<lambda>_. ok_empty) (db_log_remove e grp up_to) s
      | ListGroups \<Rightarrow> on_db ok_group_list (\<lambda>d. (db_log_list_groups (se_iter v) d, d)) s
      | GroupStats grp \<Rightarrow>
          on_db (\<lambda>st. ok_stats (gs_total_entries st) (gs_total_segments st) (gs_next_id st))
            (\<lambda>d. (db_log_group_stats grp d, d)) s
      | SetKey db key val ttl_secs \<Rightarrow> on_db (\<lambda>_. ok_empty) (db_kv_set e db key val (ttl_secs * 1000)) s
      | GetKey db key \<Rightarrow>
          on_db (\<lambda>x. case x of Some entry \<Rightarrow> ok_bytes (de_val entry) | None \<Rightarrow> ok_empty) (db_kv_get e db key) s
      | DelKey db key \<Rightarrow> on_db (\<lambda>_. ok_empty) (db_kv_del db key) s
      | Keys db \<Rightarrow> on_db ok_string_list (\<lambda>d. (db_kv_keys e db d, d)) s
      | Flush db \<Rightarrow> on_db (\<lambda>_. ok_empty) (db_kv_flush db) s
      | LPush key val \<Rightarrow> on_db (\<lambda>_. ok_empty) (db_list_push e key val) s
      | LPushRange key vals \<Rightarrow> on_db (\<lambda>_. ok_empty) (db_list_push_range e key vals) s
      | LPop key \<Rightarrow> on_db ok_bytes (db_list_pop key) s
      | LPopRange key start end \<Rightarrow> on_db ok_bytes_list (db_list_pop_range key (unat start) (unat end)) s
      | LPopCount key n \<Rightarrow> on_db ok_bytes_list (db_list_pop_count key (unat n)) s
      | LLen key \<Rightarrow> on_db (\<lambda>n. ok_u64 (word_of_nat n)) (db_list_len key) s
      | LFlush key \<Rightarrow> on_db (\<lambda>_. ok_empty) (db_list_flush key) s
      | StartPipeline \<Rightarrow> (let (i, s') = start_pipeline s in (Ok (ok_u64 i), s'))
      | EndPipeline i \<Rightarrow> (Ok ok_empty, s)
      | HaRegisterFollower addr \<Rightarrow> handle_register v addr s
      | HaHeartBeat \<Rightarrow>
          (let (r, h) = ack_heartbeat (sv_ha s)
           in (respond (\<lambda>e. e) (\<lambda>_. ok_bytes (bytes_of_string ''ACK'')) r, s\<lparr>sv_ha := h\<rparr>))
      | HaSync entries \<Rightarrow> handle_sync v entries s)"

section \<open>The connection\<close>

definition serve_frame :: "'w srv_env \<Rightarrow> bytes \<Rightarrow> 'w server \<Rightarrow> (io_error, bytes) result \<times> 'w server" where
  "serve_frame v frame s =
     (case parse_command frame of
        Ok cmd \<Rightarrow> handle_command v cmd s
      | Err (ParseError msg) \<Rightarrow> (Ok (resp_err (''parse error: '' @ msg)), s)
      | Fault p \<Rightarrow> (Fault p, s))"

text \<open>The bytes sent for the frames received, until a handler panics.\<close>

fun serve_frames :: "'w srv_env \<Rightarrow> bytes list \<Rightarrow> bytes \<Rightarrow> 'w server \<Rightarrow> bytes \<times> 'w server" where
  "serve_frames v [] out s = (out, s)"
| "serve_frames v (f # fs) out s =
     (case serve_frame v f s of
        (Ok resp, s') \<Rightarrow> serve_frames v fs (codec_encode resp out) s'
      | (_, s') \<Rightarrow> (out, s'))"

text \<open>The server as the other end of a client's connection.\<close>

definition server_peer :: "'w srv_env \<Rightarrow> 'w server peer" where
  "server_peer v inp s =
     (let (fs, rest, ok) = decode_all inp; (out, s') = serve_frames v fs [] s in (Ok out, s'))"

end
