(* ===== verification/Pool.thy ===== *)
theory Pool
  imports Client
begin

text \<open>
  The connection pool of the client (\<open>client/src/client/pool.rs\<close>): connections wait in a bounded
  channel, \<open>acquire\<close> takes one that looks alive, and dropping the handle puts it back or starts a task
  that reconnects.

  The operations come first, as functions on the pool; the relation \<open>pool_step\<close> interleaves the
  callers of \<open>acquire\<close> (one at a time holds the receiver's lock), the holders of connections and the
  replacement tasks. What the socket answers (\<open>try_read\<close>, the outcome of a connect) is an argument.
  The tokio channel is its documented contract: first in first out, \<open>try_send\<close> fails when it is full,
  \<open>send\<close> waits for room, and a channel of capacity 0 is a panic. The pool keeps a sender itself, so
  the channel is never disconnected.
\<close>

section \<open>Connections\<close>

text \<open>The result of \<open>try_read\<close> on an empty buffer, and what \<open>is_alive\<close> makes of it.\<close>

datatype try_read = WouldBlock | ReadOk nat | ReadFailed

definition is_alive :: "try_read \<Rightarrow> bool" where
  "is_alive r = (case r of WouldBlock \<Rightarrow> True | ReadOk n \<Rightarrow> n \<noteq> 0 | ReadFailed \<Rightarrow> False)"

text \<open>
  A connection is the input the other end has sent on it and the client has not read, and whether the other
  end has closed it.
\<close>

record stream_client =
  sc_inbox :: bytes
  sc_closed :: bool

definition sc_connect :: "(string, unit) result \<Rightarrow> (string, stream_client) result" where
  "sc_connect socket = map_ok (\<lambda>_. \<lparr>sc_inbox = [], sc_closed = False\<rparr>) socket"

text \<open>
  The other end as one connection shows it: what it sends is put behind the unread input, and reading
  a response takes the first frame off. A call that is dropped after the request is out leaves its
  response unread. An other end that does not answer a request with a frame has closed the connection (a
  panic or an oversized frame ends the task of the server that holds the socket). On a closed connection a
  request reaches nobody, and reading finds what is left and then the end of the input, which stands for
  every error a closed socket may report.
\<close>

definition unread_after :: "bytes \<Rightarrow> bytes" where
  "unread_after inp =
     (if length inp < 4 then []
      else drop (4 + unat (u32_from_le (take 4 inp))) inp)"

definition answers :: "bytes \<Rightarrow> bool" where
  "answers inp = (case recv_frame inp of Ok _ \<Rightarrow> True | _ \<Rightarrow> False)"

definition conn_peer :: "'s peer \<Rightarrow> ('s \<times> stream_client) peer" where
  "conn_peer peer out = (\<lambda>(s, c).
     if sc_closed c then (Ok (sc_inbox c), s, c\<lparr>sc_inbox := unread_after (sc_inbox c)\<rparr>)
     else let (r, s') = peer out s in
     case r of
       Ok inp \<Rightarrow> (Ok (sc_inbox c @ inp), s', \<lparr>sc_inbox = unread_after (sc_inbox c @ inp), sc_closed = \<not> answers inp\<rparr>)
     | Err e \<Rightarrow> (Err e, s', c\<lparr>sc_closed := True\<rparr>)
     | Fault p \<Rightarrow> (Fault p, s', c\<lparr>sc_closed := True\<rparr>))"

definition cancelled_call :: "'s peer \<Rightarrow> bytes \<Rightarrow> 's \<times> stream_client \<Rightarrow> 's \<times> stream_client" where
  "cancelled_call peer frame = (\<lambda>(s, c).
     if sc_closed c then (s, c)
     else let (r, s') = peer (u32_le (word_of_nat (length frame)) @ frame) s in
     case r of
       Ok inp \<Rightarrow> (s', \<lparr>sc_inbox = sc_inbox c @ inp, sc_closed = \<not> answers inp\<rparr>)
     | _ \<Rightarrow> (s', c\<lparr>sc_closed := True\<rparr>))"

section \<open>Operations\<close>

record pool =
  pl_queue :: "stream_client list"
  pl_size :: nat
  pl_addr :: string
  pl_active :: u64
  pl_max_size :: u64
  pl_spawned :: nat
  pl_sending :: "stream_client list"

record pooled_client =
  pc_client :: "stream_client option"
  pc_poisoned :: bool

fun connect_all :: "(nat \<Rightarrow> (string, unit) result) \<Rightarrow> nat \<Rightarrow> stream_client list
    \<Rightarrow> (string, stream_client list) result" where
  "connect_all sockets 0 cs = Ok cs"
| "connect_all sockets (Suc n) cs =
     (case sc_connect (sockets 0) of
        Ok c \<Rightarrow> connect_all (\<lambda>i. sockets (Suc i)) n (cs @ [c])
      | Err e \<Rightarrow> Err e
      | Fault p \<Rightarrow> Fault p)"

definition pool_new :: "(nat \<Rightarrow> (string, unit) result) \<Rightarrow> string \<Rightarrow> nat \<Rightarrow> (string, pool) result" where
  "pool_new sockets addr n =
     (if n = 0 then Fault CapacityPanic
      else map_ok (\<lambda>cs. \<lparr>pl_queue = cs, pl_size = n, pl_addr = addr, pl_active = word_of_nat n,
        pl_max_size = word_of_nat n, pl_spawned = 0, pl_sending = []\<rparr>) (connect_all sockets n []))"

text \<open>A replacement task: it is spawned, connects, and sends the connection when there is room.\<close>

definition spawn_replacement :: "pool \<Rightarrow> pool" where
  "spawn_replacement p = p\<lparr>pl_spawned := pl_spawned p + 1\<rparr>"

definition replacement_connected :: "(string, unit) result \<Rightarrow> pool \<Rightarrow> pool" where
  "replacement_connected socket p =
     (let p' = p\<lparr>pl_spawned := pl_spawned p - 1\<rparr> in
      case sc_connect socket of
        Ok c \<Rightarrow> p'\<lparr>pl_sending := pl_sending p' @ [c]\<rparr>
      | _ \<Rightarrow> p')"

definition replacement_sent :: "pool \<Rightarrow> pool option" where
  "replacement_sent p =
     (case pl_sending p of
        c # cs \<Rightarrow> if length (pl_queue p) < pl_size p
          then Some (p\<lparr>pl_queue := pl_queue p @ [c], pl_sending := cs\<rparr>) else None
      | [] \<Rightarrow> None)"

definition try_send :: "stream_client \<Rightarrow> pool \<Rightarrow> pool" where
  "try_send c p = (if length (pl_queue p) < pl_size p then p\<lparr>pl_queue := pl_queue p @ [c]\<rparr> else p)"

text \<open>
  One round of the loop of \<open>acquire\<close>: nothing while the channel is empty, otherwise the connection
  taken, or none when it does not look alive.
\<close>

definition acquire_attempt :: "try_read \<Rightarrow> pool \<Rightarrow> (stream_client option \<times> pool) option" where
  "acquire_attempt r p =
     (case pl_queue p of
        [] \<Rightarrow> None
      | c # cs \<Rightarrow>
          let p' = p\<lparr>pl_queue := cs\<rparr> in
          if is_alive r then Some (Some c, p') else Some (None, spawn_replacement p'))"

definition max_attempts :: "pool \<Rightarrow> nat" where
  "max_attempts p = unat (pl_active p + 1)"

datatype acquired = Got stream_client | Exhausted | Waits nat

fun acquire_loop :: "nat \<Rightarrow> (nat \<Rightarrow> try_read) \<Rightarrow> pool \<Rightarrow> acquired \<times> pool" where
  "acquire_loop 0 rs p = (Exhausted, p)"
| "acquire_loop (Suc n) rs p =
     (case acquire_attempt (rs 0) p of
        None \<Rightarrow> (Waits (Suc n), p)
      | Some (Some c, p') \<Rightarrow> (Got c, p')
      | Some (None, p') \<Rightarrow> acquire_loop n (\<lambda>i. rs (Suc i)) p')"

text \<open>\<open>acquire\<close> up to the point where it returns, or \<open>None\<close> where it waits for a connection.\<close>

definition pool_acquire :: "(nat \<Rightarrow> try_read) \<Rightarrow> (string, unit) result \<Rightarrow> pool
    \<Rightarrow> (string, pooled_client) result option \<times> pool" where
  "pool_acquire rs socket p =
     (case acquire_loop (max_attempts p) rs p of
        (Got c, p') \<Rightarrow> (Some (Ok \<lparr>pc_client = Some c, pc_poisoned = False\<rparr>), p')
      | (Waits _, p') \<Rightarrow> (None, p')
      | (Exhausted, p') \<Rightarrow>
          (Some (map_ok (\<lambda>c. \<lparr>pc_client = Some c, pc_poisoned = False\<rparr>) (sc_connect socket)), p'))"

definition pool_release :: "try_read \<Rightarrow> stream_client \<Rightarrow> pool \<Rightarrow> pool" where
  "pool_release r c p = (if is_alive r then try_send c p else spawn_replacement p)"

definition pc_conn :: "pooled_client \<Rightarrow> (string, stream_client) result" where
  "pc_conn pc = (case pc_client pc of Some c \<Rightarrow> Ok c | None \<Rightarrow> Fault UnwrapPanic)"

definition pc_poison :: "pooled_client \<Rightarrow> pooled_client" where
  "pc_poison pc = pc\<lparr>pc_poisoned := True\<rparr>"

definition drop_client :: "try_read \<Rightarrow> pooled_client \<Rightarrow> pool \<Rightarrow> pool" where
  "drop_client r pc p =
     (case pc_client pc of
        None \<Rightarrow> p
      | Some c \<Rightarrow> if pc_poisoned pc \<or> \<not> is_alive r then spawn_replacement p else try_send c p)"

text \<open>The handle is dropped without its connection after the replacement has been spawned.\<close>

definition pc_discard :: "try_read \<Rightarrow> pooled_client \<Rightarrow> pool \<Rightarrow> pool" where
  "pc_discard r pc p = drop_client r (pc\<lparr>pc_client := None\<rparr>) (spawn_replacement p)"

section \<open>The tasks around a pool\<close>

text \<open>
  The handles lent out, the attempts left to the caller of \<open>acquire\<close> that holds the lock, and two
  counters for the statements: failed replacements, and connections made because the attempts ran out.
\<close>

record pool_sys =
  ps_pool :: pool
  ps_lent :: "pooled_client list"
  ps_acq :: "nat option"
  ps_failed :: nat
  ps_extra :: nat

definition lend :: "stream_client \<Rightarrow> pool_sys \<Rightarrow> pool_sys" where
  "lend c s = s\<lparr>ps_lent := ps_lent s @ [\<lparr>pc_client = Some c, pc_poisoned = False\<rparr>], ps_acq := None\<rparr>"

definition give_back :: "nat \<Rightarrow> pool \<Rightarrow> pool_sys \<Rightarrow> pool_sys" where
  "give_back i p s = s\<lparr>ps_pool := p, ps_lent := take i (ps_lent s) @ drop (Suc i) (ps_lent s)\<rparr>"

inductive pool_step :: "pool_sys \<Rightarrow> pool_sys \<Rightarrow> bool" where
  call: "ps_acq s = None \<Longrightarrow> pool_step s (s\<lparr>ps_acq := Some (max_attempts (ps_pool s))\<rparr>)"
| got: "ps_acq s = Some (Suc n) \<Longrightarrow> acquire_attempt r (ps_pool s) = Some (Some c, p) \<Longrightarrow>
    pool_step s (lend c (s\<lparr>ps_pool := p\<rparr>))"
| dead: "ps_acq s = Some (Suc n) \<Longrightarrow> acquire_attempt r (ps_pool s) = Some (None, p) \<Longrightarrow>
    pool_step s (s\<lparr>ps_pool := p, ps_acq := Some n\<rparr>)"
| connected: "ps_acq s = Some 0 \<Longrightarrow> sc_connect socket = Ok c \<Longrightarrow>
    pool_step s (lend c (s\<lparr>ps_extra := ps_extra s + 1\<rparr>))"
| refused: "ps_acq s = Some 0 \<Longrightarrow> sc_connect socket = Err e \<Longrightarrow> pool_step s (s\<lparr>ps_acq := None\<rparr>)"
| cancel: "pool_step s (s\<lparr>ps_acq := None\<rparr>)"
| talk: "i < length (ps_lent s) \<Longrightarrow> pc_client (ps_lent s ! i) = Some c \<Longrightarrow>
    pool_step s (s\<lparr>ps_lent := (ps_lent s)[i := (ps_lent s ! i)\<lparr>pc_client := Some c'\<rparr>]\<rparr>)"
| poison: "i < length (ps_lent s) \<Longrightarrow>
    pool_step s (s\<lparr>ps_lent := (ps_lent s)[i := pc_poison (ps_lent s ! i)]\<rparr>)"
| dropped: "i < length (ps_lent s) \<Longrightarrow>
    pool_step s (give_back i (drop_client r (ps_lent s ! i) (ps_pool s)) s)"
| discard: "i < length (ps_lent s) \<Longrightarrow>
    pool_step s (give_back i (pc_discard r (ps_lent s ! i) (ps_pool s)) s)"
| replaced: "pl_spawned (ps_pool s) > 0 \<Longrightarrow> sc_connect socket = Ok c \<Longrightarrow>
    pool_step s (s\<lparr>ps_pool := replacement_connected socket (ps_pool s)\<rparr>)"
| replace_failed: "pl_spawned (ps_pool s) > 0 \<Longrightarrow> sc_connect socket = Err e \<Longrightarrow>
    pool_step s (s\<lparr>ps_pool := replacement_connected socket (ps_pool s), ps_failed := ps_failed s + 1\<rparr>)"
| sent: "replacement_sent (ps_pool s) = Some p \<Longrightarrow> pool_step s (s\<lparr>ps_pool := p\<rparr>)"

definition pool_sys_init :: "pool \<Rightarrow> pool_sys" where
  "pool_sys_init p = \<lparr>ps_pool = p, ps_lent = [], ps_acq = None, ps_failed = 0, ps_extra = 0\<rparr>"

end
