(* ===== verification/Server_Props.thy ===== *)
theory Server_Props
  imports Server Pool Db_Props
begin

text \<open>
  The client and the server together: what a call of the client library returns, and what it does to
  the database, when the other end of its connection is the server.
\<close>

section \<open>One request\<close>

lemma serve_one:
  assumes "length frame \<le> MAX_FRAME_SIZE" and "parse_command frame = Ok cmd" and "handle_command v cmd s = (r, s')"
  shows "server_peer v (put_bytes frame) s = (Ok (case r of Ok b \<Rightarrow> b | _ \<Rightarrow> []), s')"
proof -
  have "decode_all [] = ([], [], True)" by (simp add: decode_all.simps codec_decode_def)
  then have "decode_all (put_bytes frame) = ([frame], [], True)"
    using decode_all_frames [of "[frame]" "[]"] assms(1) by simp
  then show ?thesis
    using assms(2,3) by (simp add: server_peer_def serve_frame_def codec_encode_def split: result.split)
qed

lemma request_served:
  assumes "length frame \<le> MAX_FRAME_SIZE" and "parse_command frame = Ok cmd"
    and "handle_command v cmd s = (Ok (finalize ([0, 0, 0, 0] @ body)), s')" and "length body < 2 ^ 32"
  shows "request (server_peer v) frame k s = (k body, s')"
  using serve_one [OF assms(1-3)] recv_frame_finalize [OF assms(4)]
  by (simp add: request_def send_recv_def put_bytes_fold)

lemma request_crashed:
  assumes "length frame \<le> MAX_FRAME_SIZE" and "parse_command frame = Ok cmd"
    and "handle_command v cmd s = (Fault p, s')"
  shows "request (server_peer v) frame k s = (Err UnexpectedEof, s')"
  using serve_one [OF assms(1-3)] by (simp add: request_def send_recv_def put_bytes_fold recv_frame_def)

section \<open>Error texts fit the error response\<close>

text \<open>A group's errors name that group; a name of at most 65000 bytes leaves room for the rest of the text.\<close>

fun names_only :: "string \<Rightarrow> group_error \<Rightarrow> bool" where
  "names_only n (GroupNotFound m) = (m = n)"
| "names_only n (GroupAlreadyExists m) = (m = n)"
| "names_only n (GLogError e) = True"

definition name_ok :: "string \<Rightarrow> bool" where
  "name_ok n \<longleftrightarrow> utf8_valid (bytes_of_string n) \<and> length n \<le> 65000"

definition errs_name :: "string \<Rightarrow> (group_error, 'a) result \<Rightarrow> bool" where
  "errs_name n r \<longleftrightarrow> (\<forall>e. r = Err e \<longrightarrow> names_only n e)"

lemma errs_name_simps [simp]: "errs_name n (Ok x)" "errs_name n (Fault p)" "errs_name n (Err e) = names_only n e"
  "errs_name n (map_err GLogError r)"
  by (cases r; simp add: errs_name_def)+

lemma errs_name_add: "errs_name n (fst (group_add h a now ts p g))"
  by (auto simp: group_add_def split: prod.splits result.splits option.splits)

lemma errs_name_add_rest: "errs_name n (fst (group_add_rest h a now i es g))"
proof (induction h a now i es g rule: group_add_rest.induct)
  case (2 h a now i ts p es g)
  show ?case using errs_name_add [of n h "a 0" "now 0" ts p g] 2
    by (auto split: prod.splits result.splits)
qed simp

lemma errs_name_bodies:
  "errs_name n (fst (group_add_range h a now e es g))"
  "errs_name n (fst (group_read h t i g))"
  "errs_name n (fst (group_read_range h now i j g))"
  "errs_name n (fst (group_remove h i g))"
proof -
  show "errs_name n (fst (group_add_range h a now e es g))"
    using errs_name_add [of n h "a 0" "now 0" "fst e" "snd e" g] errs_name_add_rest [of n h]
    by (auto simp: group_add_range_def split: prod.splits result.splits) (metis errs_name_simps(3) fst_conv)
  show "errs_name n (fst (group_read h t i g))"
    by (auto simp: group_read_def split: option.splits prod.splits)
  show "errs_name n (fst (group_read_range h now i j g))"
    by (auto simp: group_read_range_def Let_def split: option.splits prod.splits if_splits)
  show "errs_name n (fst (group_remove h i g))"
    by (auto simp: group_remove_def split: option.splits prod.splits result.splits)
qed

lemma errs_name_with_group:
  "(\<And>g. errs_name n (fst (f g))) \<Longrightarrow> errs_name n (fst (with_group n f m))"
  by (auto simp: with_group_def split: option.split prod.split) (metis fst_conv)

lemma errs_name_create: "errs_name n (fst (create_group a n m))"
  by (auto simp: create_group_def group_new_def split: result.splits)

lemma errs_name_drop: "errs_name n (fst (drop_group n m))"
  by (auto simp: drop_group_def)

lemma errs_name_manager:
  "errs_name n (fst (gm_add h b t n ts p m))"
  "errs_name n (fst (gm_add_range h a now n es m))"
  "errs_name n (fst (gm_read h t n i m))"
  "errs_name n (fst (gm_read_range h now n i j m))"
  "errs_name n (fst (gm_remove h n i m))"
  "errs_name n (gm_group_stats n m)"
  by (auto simp: gm_add_def gm_add_range_def gm_read_def gm_read_range_def gm_remove_def gm_group_stats_def
      intro!: errs_name_with_group errs_name_add errs_name_bodies split: list.split option.split)

definition err_fits :: "(db_error, 'a) result \<Rightarrow> bool" where
  "err_fits r \<longleftrightarrow> (\<forall>e. r = Err e \<longrightarrow> wire_str (db_error_text e))"

lemma utf8_text: "list_all (\<lambda>c. (of_char c :: u8) < 0x80) t \<Longrightarrow> utf8_valid (bytes_of_string t)"
  by (rule utf8_ascii) (auto simp: bytes_of_string_def list_all_iff)

lemma bytes_of_string_append: "bytes_of_string (a @ b) = bytes_of_string a @ bytes_of_string b"
  by (simp add: bytes_of_string_def)

lemma utf8_quoted:
  assumes "utf8_valid (bytes_of_string n)" and "list_all (\<lambda>c. (of_char c :: u8) < 0x80) a"
    and "list_all (\<lambda>c. (of_char c :: u8) < 0x80) b"
  shows "utf8_valid (bytes_of_string (a @ n @ b))"
  using assms by (simp add: bytes_of_string_append utf8_valid_append utf8_text)

lemma group_text_fits:
  assumes "names_only n e" and "name_ok n" and "list_all (\<lambda>c. (of_char c :: u8) < 0x80) pre" and "length pre \<le> 100"
  shows "wire_str (pre @ group_error_text e)"
proof -
  have g: "utf8_valid (bytes_of_string (group_error_text e)) \<and> length (group_error_text e) \<le> 65100"
  proof (cases e)
    case (GLogError l)
    have "list_all (\<lambda>c. (of_char c :: u8) < 0x80) (group_error_text e)" "length (group_error_text e) \<le> 100"
      unfolding GLogError by (cases l; simp)+
    then show ?thesis by (simp add: utf8_text)
  next
    case (GroupNotFound m)
    with assms utf8_quoted [of n "''group '' @ [CHR 0x27]" "[CHR 0x27] @ '' not found''"] show ?thesis
      by (simp add: name_ok_def)
  next
    case (GroupAlreadyExists m)
    with assms utf8_quoted [of n "''group '' @ [CHR 0x27]" "[CHR 0x27] @ '' already exists''"] show ?thesis
      by (simp add: name_ok_def)
  qed
  then show ?thesis
    using assms(3,4) by (simp add: wire_str_def bytes_of_string_append utf8_valid_append utf8_text)
qed

lemma err_fits_named:
  assumes "errs_name n r" and "name_ok n" and "\<And>e. db_error_text (c e) = pre @ group_error_text e"
    and "list_all (\<lambda>c. (of_char c :: u8) < 0x80) pre" and "length pre \<le> 100"
  shows "err_fits (map_err c r)" and "err_fits (fst (finish c x r d))"
proof -
  have t: "wire_str (db_error_text (c e))" if "r = Err e" for e
    using assms group_text_fits [of n e pre] that by (simp add: errs_name_def)
  show "err_fits (map_err c r)" using t by (cases r) (auto simp: err_fits_def)
  show "err_fits (fst (finish c x r d))" using t by (cases r) (auto simp: err_fits_def finish_def)
qed

lemma err_fits_log:
  assumes "name_ok n"
  shows "err_fits (fst (db_log_create_group e n d))" "err_fits (fst (db_log_drop_group n d))"
    "err_fits (fst (db_log_add e n ts p d))" "err_fits (fst (db_log_add_range e n es d))"
    "err_fits (fst (db_log_read e n i d))" "err_fits (fst (db_log_read_range e n i j d))"
    "err_fits (fst (db_log_remove e n i d))" "err_fits (db_log_group_stats n d)"
proof -
  note m = err_fits_named(1) [OF _ assms] and f = err_fits_named(2) [OF _ assms]
  show "err_fits (fst (db_log_create_group e n d))"
    using errs_name_create [of n "ev_alloc e" "st_gm (d_st d)"]
    by (auto simp: db_log_create_group_def split: prod.split intro!: f)
  show "err_fits (fst (db_log_drop_group n d))"
    using errs_name_drop [of n "st_gm (d_st d)"]
    by (auto simp: db_log_drop_group_def split: prod.split intro!: f)
  show "err_fits (fst (db_log_add e n ts p d))"
    using errs_name_manager(1) [of n "ev_hash e" "ev_alloc e 0" "ev_clock e 0" ts p "st_gm (d_st d)"]
    by (auto simp: db_log_add_def split: prod.split intro!: f)
  show "err_fits (fst (db_log_add_range e n es d))"
    using errs_name_manager(2) [of n "ev_hash e" "ev_alloc e" "ev_clock e" es "st_gm (d_st d)"]
    by (auto simp: db_log_add_range_def split: prod.split intro!: f)
  show "err_fits (fst (db_log_read e n i d))"
    using errs_name_manager(3) [of n "ev_hash e" "ev_clock e 0" i "st_gm (d_st d)"]
    by (auto simp: db_log_read_def split: prod.split intro!: m)
  show "err_fits (fst (db_log_read_range e n i j d))"
    using errs_name_manager(4) [of n "ev_hash e" "ev_clock e" i j "st_gm (d_st d)"]
    by (auto simp: db_log_read_range_def split: prod.split intro!: m)
  show "err_fits (fst (db_log_remove e n i d))"
    using errs_name_manager(5) [of n "ev_hash e" i "st_gm (d_st d)"]
    by (auto simp: db_log_remove_def split: prod.split intro!: f)
  show "err_fits (db_log_group_stats n d)"
    using errs_name_manager(6) [of n "st_gm (d_st d)"]
    by (auto simp: db_log_group_stats_def intro!: m)
qed

section \<open>Calls of the client\<close>

text \<open>What the client makes of a result of the database: a panic of the server closes the connection.\<close>

definition delivered :: "('a \<Rightarrow> 'b) \<Rightarrow> (db_error, 'a) result \<Rightarrow> 'b reply" where
  "delivered g r =
     (case r of Ok x \<Rightarrow> Ok (Ok (g x)) | Err e \<Rightarrow> Ok (Err (db_error_text e)) | Fault p \<Rightarrow> Err UnexpectedEof)"

definition err_reading :: "(bytes \<Rightarrow> 'b reply) \<Rightarrow> bool" where
  "err_reading k \<longleftrightarrow> (\<forall>bs. k (STATUS_ERR # bs) = Ok (Err (extract_err (STATUS_ERR # bs))))"

text \<open>A response builder and a client's reading of the response agree on a value.\<close>

definition agrees :: "('a \<Rightarrow> bytes) \<Rightarrow> (bytes \<Rightarrow> 'b reply) \<Rightarrow> ('a \<Rightarrow> 'b) \<Rightarrow> 'a \<Rightarrow> bool" where
  "agrees f k g x \<longleftrightarrow> (\<exists>body. f x = finalize ([0, 0, 0, 0] @ body) \<and> length body < 2 ^ 32 \<and> k body = Ok (Ok (g x)))"

lemma db_error_text_not_Nil: "db_error_text e \<noteq> []"
  by (cases e) simp_all

lemma request_on_db:
  assumes "length frame \<le> MAX_FRAME_SIZE" and "parse_command frame = Ok cmd"
    and "handle_command v cmd s = on_db f m s" and "m (sv_db s) = (r, d)"
    and "err_fits r" and "err_reading k" and "\<And>x. r = Ok x \<Longrightarrow> agrees f k g x"
  shows "request (server_peer v) frame k s = (delivered g r, s\<lparr>sv_db := d\<rparr>)"
proof (cases r)
  case (Ok x)
  then obtain body where b: "f x = finalize ([0, 0, 0, 0] @ body)" "length body < 2 ^ 32" "k body = Ok (Ok (g x))"
    using assms(7) by (auto simp: agrees_def)
  have "handle_command v cmd s = (Ok (finalize ([0, 0, 0, 0] @ body)), s\<lparr>sv_db := d\<rparr>)"
    using assms(3,4) Ok b(1) by (simp add: on_db_def respond_def)
  from request_served [OF assms(1,2) this b(2), of k] show ?thesis using Ok b(3) by (simp add: delivered_def)
next
  case (Err e)
  then have e: "wire_str (db_error_text e)" using assms(5) by (simp add: err_fits_def)
  have h: "handle_command v cmd s = (Ok (finalize ([0, 0, 0, 0] @ STATUS_ERR # put_str (db_error_text e))), s\<lparr>sv_db := d\<rparr>)"
    using assms(3,4) Err by (simp add: on_db_def respond_def resp_err_def)
  have "length (STATUS_ERR # put_str (db_error_text e)) < 2 ^ 32"
    using e by (simp add: put_str_def wire_str_def)
  from request_served [OF assms(1,2) h this, of k] show ?thesis
    using assms(6) Err extract_err_put_str [OF e db_error_text_not_Nil]
    by (simp add: delivered_def err_reading_def)
next
  case (Fault p)
  have "handle_command v cmd s = (Fault p, s\<lparr>sv_db := d\<rparr>)"
    using assms(3,4) Fault by (simp add: on_db_def respond_def)
  from request_crashed [OF assms(1,2) this, of k] show ?thesis using Fault by (simp add: delivered_def)
qed

text \<open>
  The server answers a request frame with the result of an operation on the database, as a client
  reads it. On an open connection with nothing unread, the response is read and nothing is left behind; a
  panic of the server leaves the connection closed.
\<close>

definition served_by :: "'w srv_env \<Rightarrow> bytes \<Rightarrow> (bytes \<Rightarrow> 'b reply) \<Rightarrow> (db \<Rightarrow> (db_error, 'a) result \<times> db)
    \<Rightarrow> ('a \<Rightarrow> 'b) \<Rightarrow> 'w server \<Rightarrow> bool" where
  "served_by v frame k m g s \<longleftrightarrow>
     (\<exists>cmd f. length frame \<le> MAX_FRAME_SIZE \<and> parse_command frame = Ok cmd \<and> handle_command v cmd s = on_db f m s \<and>
        err_fits (fst (m (sv_db s))) \<and> err_reading k \<and> (\<forall>x. fst (m (sv_db s)) = Ok x \<longrightarrow> agrees f k g x))"

lemma served_byI:
  assumes "length frame \<le> MAX_FRAME_SIZE" and "parse_command frame = Ok cmd"
    and "handle_command v cmd s = on_db f m s" and "err_fits (fst (m (sv_db s)))" and "err_reading k"
    and "\<And>x. fst (m (sv_db s)) = Ok x \<Longrightarrow> agrees f k g x"
  shows "served_by v frame k m g s"
  using assms by (auto simp: served_by_def)

lemma served_directly:
  assumes "served_by v frame k m g s"
  shows "request (server_peer v) frame k s = (let (r, d) = m (sv_db s) in (delivered g r, s\<lparr>sv_db := d\<rparr>))"
proof -
  obtain r d where rd: "m (sv_db s) = (r, d)" by fastforce
  then show ?thesis
    using assms request_on_db [of frame _ v s _ m r d k g] by (auto simp: served_by_def)
qed

lemma after_finalize:
  assumes "length b < 2 ^ 32"
  shows "unread_after (finalize ([0, 0, 0, 0] @ b)) = []" "answers (finalize ([0, 0, 0, 0] @ b))"
  using recv_frame_finalize [OF assms] assms by (simp_all add: unread_after_def finalize_def answers_def)

lemma after_nothing: "unread_after [] = []" "\<not> answers []"
  by (simp_all add: unread_after_def answers_def recv_frame_def)

lemma served_reply:
  assumes "served_by v frame k m g s"
  shows "\<exists>out s'. server_peer v (put_bytes frame) s = (Ok out, s') \<and> unread_after out = [] \<and>
    (answers out \<longleftrightarrow> \<not> is_fault (fst (m (sv_db s))))"
proof -
  obtain cmd f where a: "length frame \<le> MAX_FRAME_SIZE" "parse_command frame = Ok cmd" "handle_command v cmd s = on_db f m s"
    "err_fits (fst (m (sv_db s)))" "\<forall>x. fst (m (sv_db s)) = Ok x \<longrightarrow> agrees f k g x"
    using assms by (auto simp: served_by_def)
  obtain r d where rd: "m (sv_db s) = (r, d)" by fastforce
  define out where "out = (case respond db_error_text f r of Ok b \<Rightarrow> b | _ \<Rightarrow> [])"
  have "unread_after out = [] \<and> (answers out \<longleftrightarrow> \<not> is_fault r)"
  proof (cases r)
    case (Ok x)
    with a(5) rd obtain b where "f x = finalize ([0, 0, 0, 0] @ b)" "length b < 2 ^ 32" by (auto simp: agrees_def)
    then show ?thesis using Ok after_finalize [of b] by (simp add: out_def respond_def)
  next
    case (Err e)
    with a(4) rd have "length (STATUS_ERR # put_str (db_error_text e)) < 2 ^ 32"
      by (simp add: err_fits_def put_str_def wire_str_def)
    then show ?thesis using Err after_finalize [of "STATUS_ERR # put_str (db_error_text e)"]
      by (simp add: out_def respond_def resp_err_def)
  qed (simp add: out_def respond_def after_nothing)
  then show ?thesis using serve_one [OF a(1,2), of v s] a(3) rd by (auto simp: on_db_def out_def)
qed

lemma request_conn:
  assumes "peer (put_bytes frame) s = (Ok out, s')" and "unread_after out = []"
  shows "request (conn_peer peer) frame k (s, \<lparr>sc_inbox = [], sc_closed = False\<rparr>) =
    (let (r, s') = request peer frame k s in (r, s', \<lparr>sc_inbox = [], sc_closed = \<not> answers out\<rparr>))"
  using assms by (simp add: request_def send_recv_def conn_peer_def put_bytes_fold)

lemma served_on_conn:
  assumes "served_by v frame k m g s"
  shows "request (conn_peer (server_peer v)) frame k (s, \<lparr>sc_inbox = [], sc_closed = False\<rparr>) =
    (let (r, d) = m (sv_db s) in (delivered g r, s\<lparr>sv_db := d\<rparr>, \<lparr>sc_inbox = [], sc_closed = is_fault r\<rparr>))"
proof -
  obtain out s' where o: "server_peer v (put_bytes frame) s = (Ok out, s')" "unread_after out = []"
    "answers out \<longleftrightarrow> \<not> is_fault (fst (m (sv_db s)))"
    using served_reply [OF assms] by blast
  show ?thesis
    using request_conn [where peer = "server_peer v", OF o(1,2), of k] o(3) by (simp add: served_directly [OF assms] Let_def split: prod.split)
qed

lemma err_readings [simp]:
  "err_reading (\<lambda>resp. Ok (check_status resp))" "err_reading (if_ok_len n m)" "err_reading (if_ok m')"
  "err_reading resp_optional"
  by (simp_all add: err_reading_def status_lemmas)

lemma agrees_empty: "agrees (\<lambda>_. ok_empty) (\<lambda>resp. Ok (check_status resp)) (\<lambda>_. ()) ()"
  unfolding agrees_def ok_empty_def
  by (rule exI [of _ "[STATUS_OK]"]) (simp add: check_status_def STATUS_OK_def)

lemma agrees_u64: "agrees ok_u64 (if_ok_len 9 resp_u64) (\<lambda>x. x) x"
  unfolding agrees_def ok_u64_def
proof (intro exI [of _ "STATUS_OK # u64_le x"] conjI)
  show "if_ok_len 9 resp_u64 (STATUS_OK # u64_le x) = Ok (Ok x)"
    by (rule if_ok_len_reads [where r = "[]"]) (simp_all add: reads_resp_u64)
qed simp_all

lemma agrees_entry:
  assumes "length p < 2 ^ 32 - 21"
  shows "agrees (\<lambda>(i, ts, data). ok_entry i ts data) (if_ok_len 21 resp_entry) (\<lambda>x. x) (i, ts, p)"
  unfolding agrees_def ok_entry_def prod.case
proof (intro exI [of _ "STATUS_OK # put_entry (i, ts, p)"] conjI)
  show "if_ok_len 21 resp_entry (STATUS_OK # put_entry (i, ts, p)) = Ok (Ok (i, ts, p))"
    by (rule if_ok_len_reads [where r = "[]"], rule resp_entry_field.reads_put)
      (use assms in \<open>simp_all add: wire_bytes_def put_entry_def put_bytes_def\<close>)
qed (use assms in \<open>simp_all add: put_entry_def put_bytes_def\<close>)

lemma agrees_optional:
  assumes "\<And>e. x = Some e \<Longrightarrow> length (de_val e) < 2 ^ 32 - 5"
  shows "agrees (\<lambda>x. case x of Some entry \<Rightarrow> ok_bytes (de_val entry) | None \<Rightarrow> ok_empty) resp_optional
    (\<lambda>x. case x of Some e \<Rightarrow> if de_val e = [] then None else Some (de_val e) | None \<Rightarrow> None) x"
proof (cases x)
  case None
  then show ?thesis
    unfolding agrees_def ok_empty_def by (auto intro!: exI [of _ "[STATUS_OK]"] simp: status_lemmas)
next
  case (Some e)
  with assms have l: "length (de_val e) < 2 ^ 32 - 5" by simp
  then have "length (STATUS_OK # put_bytes (de_val e)) < 2 ^ 32" by (simp add: put_bytes_def)
  moreover have "resp_optional (STATUS_OK # put_bytes (de_val e)) =
      Ok (Ok (if de_val e = [] then None else Some (de_val e)))"
    using l by (intro resp_optional_bytes) (simp add: wire_bytes_def)
  ultimately show ?thesis
    unfolding agrees_def ok_bytes_def Some
    by (intro exI [of _ "STATUS_OK # put_bytes (de_val e)"]) simp
qed

lemma name_ok_wire: "name_ok n \<Longrightarrow> wire_str n"
  by (simp add: name_ok_def wire_str_def)

text \<open>The frames with one or two names are far below the frame limit.\<close>

lemma small_frames:
  assumes "wire_str a" and "wire_str b"
  shows "length (build_cmd_with_group t a) \<le> MAX_FRAME_SIZE" "length (read_frame a i) \<le> MAX_FRAME_SIZE"
    "length (read_range_frame a i j) \<le> MAX_FRAME_SIZE" "length (remove_frame a i) \<le> MAX_FRAME_SIZE"
    "length (build_cmd_with_db_key t a b) \<le> MAX_FRAME_SIZE" "length (kv_flush_frame a) \<le> MAX_FRAME_SIZE"
  using assms by (simp_all add: frame_defs wire_str_def MAX_FRAME_SIZE_def)

lemma agrees_pair:
  "agrees (\<lambda>(a, b). ok_u64_pair a b)
     (if_ok_len 17 (rd_bind resp_u64 (\<lambda>first. rd_bind resp_u64 (\<lambda>last. rd_return (first, last))))) (\<lambda>x. x) x"
proof -
  obtain a b where x: "x = (a, b)" by fastforce
  show ?thesis
    unfolding agrees_def ok_u64_pair_def x prod.case
  proof (intro exI [of _ "STATUS_OK # u64_le a @ u64_le b"] conjI)
    show "if_ok_len 17 (rd_bind resp_u64 (\<lambda>first. rd_bind resp_u64 (\<lambda>last. rd_return (first, last))))
        (STATUS_OK # u64_le a @ u64_le b) = Ok (Ok (a, b))"
      by (rule if_ok_len_reads [where r = "[]"]) (auto intro!: reads_bind reads_return reads_resp_u64)
  qed simp_all
qed

lemma agrees_entries:
  assumes "list_all (\<lambda>e. wire_bytes (snd (snd e))) es" and "length es < 2 ^ 32" and "length (ok_entries es) < 2 ^ 32"
  shows "agrees ok_entries (if_ok_len 5 (resp_counted resp_entry)) (\<lambda>x. x) es"
  unfolding agrees_def ok_entries_def
proof (intro exI [of _ "[STATUS_OK] @ u32_le (word_of_nat (length es)) @ concat (map put_entry es)"] conjI)
  show "if_ok_len 5 (resp_counted resp_entry)
      ([STATUS_OK] @ u32_le (word_of_nat (length es)) @ concat (map put_entry es)) = Ok (Ok es)"
    unfolding append_Cons append_Nil
    by (rule if_ok_len_reads [where r = "[]"],
        rule reads_counted_list [OF resp_entry_field.wire_field_axioms assms(1,2)]) simp_all
  show "length ([STATUS_OK] @ u32_le (word_of_nat (length es)) @ concat (map put_entry es)) < 2 ^ 32"
    using assms(3) by (simp add: ok_entries_def finalize_def)
qed simp

lemma agrees_group_list:
  assumes "list_all wire_str gs" and "length gs < 2 ^ 32" and "length (ok_group_list gs) < 2 ^ 32"
  shows "agrees ok_group_list (if_ok_len 5 (resp_counted resp_name)) (\<lambda>x. x) gs"
  unfolding agrees_def ok_group_list_def
proof (intro exI [of _ "[STATUS_OK] @ u32_le (word_of_nat (length gs)) @ concat (map put_str gs)"] conjI)
  show "if_ok_len 5 (resp_counted resp_name)
      ([STATUS_OK] @ u32_le (word_of_nat (length gs)) @ concat (map put_str gs)) = Ok (Ok gs)"
    unfolding append_Cons append_Nil
    by (rule if_ok_len_reads [where r = "[]"],
        rule reads_counted_list [OF resp_name_field.wire_field_axioms assms(1,2)]) simp_all
  show "length ([STATUS_OK] @ u32_le (word_of_nat (length gs)) @ concat (map put_str gs)) < 2 ^ 32"
    using assms(3) by (simp add: ok_group_list_def finalize_def)
qed simp

text \<open>The number of segments goes through a \<open>u32\<close>.\<close>

definition read_stats :: "group_stats \<Rightarrow> u64 \<times> u32 \<times> u64" where
  "read_stats st = (gs_total_entries st, word_of_nat (gs_total_segments st), gs_next_id st)"

lemma agrees_stats:
  "agrees (\<lambda>st. ok_stats (gs_total_entries st) (gs_total_segments st) (gs_next_id st))
     (if_ok_len 21 (rd_bind resp_u64 (\<lambda>entries. rd_bind resp_u32 (\<lambda>segments. rd_bind resp_u64 (\<lambda>next_id.
        rd_return (entries, segments, next_id)))))) read_stats st"
  unfolding agrees_def ok_stats_def
proof (intro exI [of _ "STATUS_OK # u64_le (gs_total_entries st) @ u32_le (word_of_nat (gs_total_segments st)) @
    u64_le (gs_next_id st)"] conjI)
  show "if_ok_len 21 (rd_bind resp_u64 (\<lambda>entries. rd_bind resp_u32 (\<lambda>segments. rd_bind resp_u64 (\<lambda>next_id.
        rd_return (entries, segments, next_id)))))
      (STATUS_OK # u64_le (gs_total_entries st) @ u32_le (word_of_nat (gs_total_segments st)) @ u64_le (gs_next_id st)) =
    Ok (Ok (read_stats st))"
    unfolding read_stats_def
    by (rule if_ok_len_reads [where r = "[]"]) (auto intro!: reads_bind reads_return reads_resp_u64 reads_resp_u32)
qed simp_all

text \<open>The operations of the client, one by one.\<close>

lemma group_served:
  assumes "name_ok grp"
  shows "served_by v (build_cmd_with_group 0x01 grp) (\<lambda>resp. Ok (check_status resp)) (db_log_create_group (se_env v) grp) (\<lambda>x. x) s"
    and "served_by v (build_cmd_with_group 0x02 grp) (\<lambda>resp. Ok (check_status resp)) (db_log_drop_group grp) (\<lambda>x. x) s"
proof -
  note w = name_ok_wire [OF assms] and fits = err_fits_log [OF assms]
  show "served_by v (build_cmd_with_group 0x01 grp) (\<lambda>resp. Ok (check_status resp)) (db_log_create_group (se_env v) grp) (\<lambda>x. x) s"
    by (rule served_byI [where f = "\<lambda>_. ok_empty", OF small_frames(1) [OF w w] group_request_parsed(1) [OF w]])
      (simp_all add: handle_command_def fits agrees_empty)
  show "served_by v (build_cmd_with_group 0x02 grp) (\<lambda>resp. Ok (check_status resp)) (db_log_drop_group grp) (\<lambda>x. x) s"
    by (rule served_byI [where f = "\<lambda>_. ok_empty", OF small_frames(1) [OF w w] group_request_parsed(2) [OF w]])
      (simp_all add: handle_command_def fits agrees_empty)
qed

lemma add_served:
  assumes "name_ok grp" and "length (add_frame grp ts payload) \<le> MAX_FRAME_SIZE"
  shows "served_by v (add_frame grp ts payload) (if_ok_len 9 resp_u64) (db_log_add (se_env v) grp ts payload) (\<lambda>x. x) s"
proof -
  have p: "wire_bytes payload" using assms(2) by (simp add: frame_defs MAX_FRAME_SIZE_def wire_bytes_def)
  show ?thesis
    by (rule served_byI [where f = ok_u64, OF assms(2) add_request_parsed [OF name_ok_wire [OF assms(1)] p]])
      (simp_all add: handle_command_def err_fits_log [OF assms(1)] agrees_u64)
qed

lemma wire_entries:
  assumes "length (add_range_frame grp entries) \<le> MAX_FRAME_SIZE"
  shows "list_all (\<lambda>e. wire_bytes (snd e)) entries" and "length entries < 2 ^ 32"
proof -
  let ?put = "\<lambda>(ts :: u64, payload). u64_le ts @ u32_le (word_of_nat (length payload)) @ (payload :: bytes)"
  have l: "length (concat (map ?put entries)) \<le> MAX_FRAME_SIZE" using assms by (simp add: add_range_frame_def)
  have "length entries \<le> length (concat (map ?put entries))"
    by (induction entries) auto
  then show "length entries < 2 ^ 32" using l by (simp add: MAX_FRAME_SIZE_def)
  have "length (snd e) \<le> length (concat (map ?put entries))" if "e \<in> set entries" for e
    using that by (induction entries) (auto split: prod.splits)
  then show "list_all (\<lambda>e. wire_bytes (snd e)) entries"
    using l by (fastforce simp: list_all_iff wire_bytes_def MAX_FRAME_SIZE_def)
qed

lemma add_range_served:
  assumes "name_ok grp" and "length (add_range_frame grp entries) \<le> MAX_FRAME_SIZE"
  shows "served_by v (add_range_frame grp entries)
    (if_ok_len 17 (rd_bind resp_u64 (\<lambda>first. rd_bind resp_u64 (\<lambda>last. rd_return (first, last)))))
    (db_log_add_range (se_env v) grp entries) (\<lambda>x. x) s"
  by (rule served_byI [where f = "\<lambda>(a, b). ok_u64_pair a b",
        OF assms(2) add_range_request_parsed [OF name_ok_wire [OF assms(1)] wire_entries [OF assms(2)]]])
    (simp_all add: handle_command_def err_fits_log [OF assms(1)] agrees_pair)

lemma read_served:
  assumes "name_ok grp"
    and "\<And>i' ts' p. fst (db_log_read (se_env v) grp i (sv_db s)) = Ok (i', ts', p) \<Longrightarrow> length p < 2 ^ 32 - 21"
  shows "served_by v (read_frame grp i) (if_ok_len 21 resp_entry) (db_log_read (se_env v) grp i) (\<lambda>x. x) s"
proof (rule served_byI [where f = "\<lambda>(i, ts, data). ok_entry i ts data"])
  note w = name_ok_wire [OF assms(1)]
  show "length (read_frame grp i) \<le> MAX_FRAME_SIZE" using small_frames(2) [OF w w] .
  show "parse_command (read_frame grp i) = Ok (Read grp i)" using read_request_parsed(1) [OF w] .
  show "agrees (\<lambda>(i, ts, data). ok_entry i ts data) (if_ok_len 21 resp_entry) (\<lambda>x. x) x"
    if "fst (db_log_read (se_env v) grp i (sv_db s)) = Ok x" for x
    using agrees_entry [of "snd (snd x)" "fst x" "fst (snd x)"] assms(2) that by (cases x) simp
qed (simp_all add: handle_command_def err_fits_log [OF assms(1)])

lemma read_range_served:
  assumes "name_ok grp"
    and "\<And>es. fst (db_log_read_range (se_env v) grp i j (sv_db s)) = Ok es \<Longrightarrow>
      list_all (\<lambda>e. wire_bytes (snd (snd e))) es \<and> length es < 2 ^ 32 \<and> length (ok_entries es) < 2 ^ 32"
  shows "served_by v (read_range_frame grp i j) (if_ok_len 5 (resp_counted resp_entry)) (db_log_read_range (se_env v) grp i j) (\<lambda>x. x) s"
proof (rule served_byI [where f = ok_entries])
  note w = name_ok_wire [OF assms(1)]
  show "length (read_range_frame grp i j) \<le> MAX_FRAME_SIZE" using small_frames(3) [OF w w] .
  show "parse_command (read_range_frame grp i j) = Ok (ReadRange grp i j)" using read_request_parsed(2) [OF w] .
  show "agrees ok_entries (if_ok_len 5 (resp_counted resp_entry)) (\<lambda>x. x) es"
    if "fst (db_log_read_range (se_env v) grp i j (sv_db s)) = Ok es" for es
    using assms(2) [OF that] by (intro agrees_entries) simp_all
qed (simp_all add: handle_command_def err_fits_log [OF assms(1)])

lemma list_groups_served:
  assumes "\<And>gs. db_log_list_groups (se_iter v) (sv_db s) = Ok gs \<Longrightarrow>
      list_all wire_str gs \<and> length gs < 2 ^ 32 \<and> length (ok_group_list gs) < 2 ^ 32"
  shows "served_by v list_groups_frame (if_ok_len 5 (resp_counted resp_name))
    (\<lambda>d. (db_log_list_groups (se_iter v) d, d)) (\<lambda>x. x) s"
proof (rule served_byI [where f = ok_group_list, OF _ list_groups_request_parsed])
  show "length list_groups_frame \<le> MAX_FRAME_SIZE" by (simp add: list_groups_frame_def MAX_FRAME_SIZE_def)
  show "err_fits (fst (db_log_list_groups (se_iter v) (sv_db s), sv_db s))" by (simp add: db_log_list_groups_def err_fits_def)
  show "agrees ok_group_list (if_ok_len 5 (resp_counted resp_name)) (\<lambda>x. x) gs"
    if "fst (db_log_list_groups (se_iter v) (sv_db s), sv_db s) = Ok gs" for gs
    using assms that by (intro agrees_group_list) simp_all
qed (simp_all add: handle_command_def)

lemma group_stats_served:
  assumes "name_ok grp"
  shows "served_by v (build_cmd_with_group 0x09 grp)
    (if_ok_len 21 (rd_bind resp_u64 (\<lambda>entries. rd_bind resp_u32 (\<lambda>segments. rd_bind resp_u64 (\<lambda>next_id.
        rd_return (entries, segments, next_id))))))
    (\<lambda>d. (db_log_group_stats grp d, d)) read_stats s"
proof -
  note w = name_ok_wire [OF assms]
  show ?thesis
    by (rule served_byI [OF small_frames(1) [OF w w] group_request_parsed(3) [OF w],
          where f = "\<lambda>st. ok_stats (gs_total_entries st) (gs_total_segments st) (gs_next_id st)"])
      (simp_all add: handle_command_def err_fits_log [OF assms] agrees_stats)
qed

lemma remove_served:
  assumes "name_ok grp"
  shows "served_by v (remove_frame grp i) (\<lambda>resp. Ok (check_status resp)) (db_log_remove (se_env v) grp i) (\<lambda>x. x) s"
proof -
  note w = name_ok_wire [OF assms]
  show ?thesis
    by (rule served_byI [where f = "\<lambda>_. ok_empty", OF small_frames(4) [OF w w] read_request_parsed(3) [OF w]])
      (simp_all add: handle_command_def err_fits_log [OF assms] agrees_empty)
qed

text \<open>
  The log operations end to end: for a group name of at most 65000 bytes and a request that fits a
  frame, a call of the client library on a connection to the server returns exactly the result of
  the operation on the database (ids, entries, or the text of the error), leaves the server with
  exactly the database of that operation, and reports a closed connection when the server panics.
\<close>

theorem client_log_calls:
  assumes "name_ok grp"
  shows "sc_create_group (server_peer v) grp s =
      (let (r, d) = db_log_create_group (se_env v) grp (sv_db s) in (delivered (\<lambda>x. x) r, s\<lparr>sv_db := d\<rparr>)) \<and>
    (length (add_frame grp ts payload) \<le> MAX_FRAME_SIZE \<longrightarrow> sc_add (server_peer v) grp ts payload s =
      (let (r, d) = db_log_add (se_env v) grp ts payload (sv_db s) in (delivered (\<lambda>x. x) r, s\<lparr>sv_db := d\<rparr>))) \<and>
    ((\<forall>i' ts' p. fst (db_log_read (se_env v) grp i (sv_db s)) = Ok (i', ts', p) \<longrightarrow> length p < 2 ^ 32 - 21) \<longrightarrow>
     sc_read (server_peer v) grp i s =
      (let (r, d) = db_log_read (se_env v) grp i (sv_db s) in (delivered (\<lambda>x. x) r, s\<lparr>sv_db := d\<rparr>))) \<and>
    sc_remove (server_peer v) grp i s =
      (let (r, d) = db_log_remove (se_env v) grp i (sv_db s) in (delivered (\<lambda>x. x) r, s\<lparr>sv_db := d\<rparr>))"
  unfolding sc_create_group_def sc_add_def sc_read_def sc_remove_def
  using assms by (intro conjI impI served_directly group_served add_served read_served remove_served) blast+

text \<open>What \<open>kv_get\<close> of the client makes of an entry: an empty value is no value.\<close>

definition read_value :: "db_entry option \<Rightarrow> bytes option" where
  "read_value x = (case x of Some e \<Rightarrow> if de_val e = [] then None else Some (de_val e) | None \<Rightarrow> None)"

lemma kv_set_served:
  assumes "name_ok db" and "name_ok key" and "length (kv_set_frame db key val ttl) \<le> MAX_FRAME_SIZE"
  shows "served_by v (kv_set_frame db key val ttl) (\<lambda>resp. Ok (check_status resp))
    (db_kv_set (se_env v) db key val (ttl * 1000)) (\<lambda>x. x) s"
proof -
  have b: "wire_bytes val" using assms(3) by (simp add: frame_defs MAX_FRAME_SIZE_def wire_bytes_def)
  have "err_fits (fst (db_kv_set (se_env v) db key val (ttl * 1000) (sv_db s)))"
    by (simp add: db_kv_set_def finish_def err_fits_def)
  then show ?thesis
    by (intro served_byI [where f = "\<lambda>_. ok_empty",
          OF assms(3) kv_set_request_parsed [OF name_ok_wire [OF assms(1)] name_ok_wire [OF assms(2)] b]])
      (simp_all add: handle_command_def agrees_empty)
qed

lemma kv_get_served:
  assumes "name_ok db" and "name_ok key"
    and "\<And>e. fst (db_kv_get (se_env v) db key (sv_db s)) = Ok (Some e) \<Longrightarrow> length (de_val e) < 2 ^ 32 - 5"
  shows "served_by v (build_cmd_with_db_key 0x11 db key) resp_optional (db_kv_get (se_env v) db key) read_value s"
proof (rule served_byI [where f = "\<lambda>x. case x of Some entry \<Rightarrow> ok_bytes (de_val entry) | None \<Rightarrow> ok_empty"])
  note w = name_ok_wire [OF assms(1)] name_ok_wire [OF assms(2)]
  show "length (build_cmd_with_db_key 0x11 db key) \<le> MAX_FRAME_SIZE" using small_frames(5) [OF w] .
  show "parse_command (build_cmd_with_db_key 0x11 db key) = Ok (GetKey db key)" using kv_key_request_parsed(1) [OF w] .
  show "err_fits (fst (db_kv_get (se_env v) db key (sv_db s)))"
    by (auto simp: db_kv_get_def err_fits_def split: prod.split)
  show "agrees (\<lambda>x. case x of Some entry \<Rightarrow> ok_bytes (de_val entry) | None \<Rightarrow> ok_empty) resp_optional read_value x"
    if "fst (db_kv_get (se_env v) db key (sv_db s)) = Ok x" for x
    unfolding read_value_def [abs_def] using assms(3) that by (intro agrees_optional) auto
qed (simp_all add: handle_command_def)

lemma kv_del_served:
  assumes "name_ok db" and "name_ok key"
  shows "served_by v (build_cmd_with_db_key 0x12 db key) (\<lambda>resp. Ok (check_status resp)) (db_kv_del db key) (\<lambda>x. x) s"
proof -
  note w = name_ok_wire [OF assms(1)] name_ok_wire [OF assms(2)]
  have "wire_str (''failed to del key: '' @ key @ '' not found'')"
    using assms(2) utf8_quoted [of key "''failed to del key: ''" "'' not found''"]
    by (simp add: wire_str_def name_ok_def)
  then have "err_fits (fst (db_kv_del db key (sv_db s)))"
    by (auto simp: db_kv_del_def kv_del_def db_del_def finish_def err_fits_def
        split: prod.split result.split option.splits)
  then show ?thesis
    by (intro served_byI [where f = "\<lambda>_. ok_empty", OF small_frames(5) [OF w] kv_key_request_parsed(2) [OF w]])
      (simp_all add: handle_command_def agrees_empty)
qed

text \<open>
  The key-value operations end to end: for names of at most 65000 bytes, \<open>kv_set\<close> through the
  client stores the value with a deadline of the given seconds in milliseconds (modulo \<open>2^64\<close>),
  \<open>kv_del\<close> deletes, and \<open>kv_get\<close> returns the stored value, except that a stored empty value comes
  back as if the key did not exist.
\<close>

theorem client_kv_calls:
  assumes "name_ok db" and "name_ok key"
  shows "(length (kv_set_frame db key val ttl) \<le> MAX_FRAME_SIZE \<longrightarrow> sc_kv_set (server_peer v) db key val ttl s =
      (let (r, d) = db_kv_set (se_env v) db key val (ttl * 1000) (sv_db s) in (delivered (\<lambda>x. x) r, s\<lparr>sv_db := d\<rparr>))) \<and>
    ((\<forall>e. fst (db_kv_get (se_env v) db key (sv_db s)) = Ok (Some e) \<longrightarrow> length (de_val e) < 2 ^ 32 - 5) \<longrightarrow>
     sc_kv_get (server_peer v) db key s =
      (let (r, d) = db_kv_get (se_env v) db key (sv_db s)
       in (delivered read_value r, s\<lparr>sv_db := d\<rparr>))) \<and>
    sc_kv_del (server_peer v) db key s =
      (let (r, d) = db_kv_del db key (sv_db s) in (delivered (\<lambda>x. x) r, s\<lparr>sv_db := d\<rparr>))"
  unfolding sc_kv_set_def sc_kv_get_def sc_kv_del_def
  using assms by (intro conjI impI served_directly kv_set_served kv_get_served kv_del_served) blast+

definition sample_env :: "unit srv_env" where
  "sample_env = \<lparr>se_env = \<lparr>ev_hash = (\<lambda>_. 0), ev_alloc = (\<lambda>_. True), ev_grow = (\<lambda>_. True), ev_clock = (\<lambda>_. 0),
     ev_now = (\<lambda>_. 0), ev_iter = (\<lambda>m. m)\<rparr>, se_envs = (\<lambda>_. undefined), se_iter = (\<lambda>m. m),
     se_net = (\<lambda>_ _ w. (Err UnexpectedEof, w)), se_io_text = (\<lambda>_. ''eof''), se_to_json = (\<lambda>_. [123, 125]),
     se_from_json = (\<lambda>_. Some (KvFlush ''d'')), se_file = None, se_load_err = ''load''\<rparr>"

definition sample_server :: "kv_store \<Rightarrow> unit server" where
  "sample_server k = server_new
     \<lparr>d_st = \<lparr>st_kv = k, st_list = \<lparr>sg_written = [], sg_free = [], sg_mem = (\<lambda>_. None), sg_brk = 0\<rparr>, st_gm = gm_new\<rparr>,
       d_aof = [], d_event_tx = None\<rparr> (ha_new conf_default [] [] True) ()"

theorem client_log_calls_witness:
  "sc_add (server_peer sample_env) ''g'' 5 [1, 2] (sample_server kv_new) =
     (Ok (Err (''failed to append to log: group '' @ [CHR 0x27] @ ''g'' @ [CHR 0x27] @ '' not found'')), sample_server kv_new)"
proof -
  have "name_ok ''g''" by (simp add: name_ok_def bytes_of_string_def)
  moreover have "length (add_frame ''g'' 5 [1, 2]) \<le> MAX_FRAME_SIZE"
    by (simp add: frame_defs MAX_FRAME_SIZE_def)
  moreover have "db_log_add (se_env sample_env) ''g'' 5 [1, 2] (sv_db (sample_server kv_new)) =
      (Err (LogAppendError (GroupNotFound ''g'')), sv_db (sample_server kv_new))"
    by (simp add: db_log_add_def sample_server_def server_new_def gm_add_def with_group_def gm_new_def finish_def set_gm_def)
  ultimately show ?thesis
    using client_log_calls [of "''g''" sample_env "sample_server kv_new" 5 "[1, 2]"]
    by (simp add: delivered_def)
qed

text \<open>An empty value is stored, and the client is told that the key does not exist.\<close>

theorem client_kv_calls_witness:
  "let k = \<lparr>kv_dbs = [(''d'', \<lparr>kd_id = ''d'', kd_entries = [(''k'', \<lparr>de_val = [], de_ttl = 0, de_used_count = 0, de_last_used = 0\<rparr>)]\<rparr>)]\<rparr>
   in (\<exists>e. fst (db_kv_get (se_env sample_env) ''d'' ''k'' (sv_db (sample_server k))) = Ok (Some e)) \<and>
     fst (sc_kv_get (server_peer sample_env) ''d'' ''k'' (sample_server k)) = Ok (Ok None)"
proof -
  let ?k = "\<lparr>kv_dbs = [(''d'', \<lparr>kd_id = ''d'', kd_entries = [(''k'', \<lparr>de_val = [], de_ttl = 0, de_used_count = 0, de_last_used = 0\<rparr>)]\<rparr>)]\<rparr>"
  have n: "name_ok ''d''" "name_ok ''k''" by (simp_all add: name_ok_def bytes_of_string_def)
  have g: "fst (db_kv_get (se_env sample_env) ''d'' ''k'' (sv_db (sample_server ?k))) =
      Ok (Some \<lparr>de_val = [], de_ttl = 0, de_used_count = 1, de_last_used = 0\<rparr>)"
    by (simp add: db_kv_get_def kv_get_def get_db_mut_def put_db_def db_get_def sample_server_def server_new_def sample_env_def)
  obtain r d where rd: "db_kv_get (se_env sample_env) ''d'' ''k'' (sv_db (sample_server ?k)) = (r, d)" by fastforce
  show ?thesis
    using client_kv_calls [OF n, of "[]" 0 sample_env "sample_server ?k"] g rd
    by (simp add: Let_def delivered_def read_value_def)
qed

section \<open>Replication end to end\<close>

lemma sync_frame_fields:
  "sync_frame to_json es = HA_SYNC # u32_le (word_of_nat (length es)) @
     concat (map put_bytes (map (\<lambda>e. bytes_of_string (to_base64 to_json e)) es))"
proof -
  have "map (\<lambda>t. u32_le (word_of_nat (length (bytes_of_string t))) @ bytes_of_string t) (map (to_base64 to_json) es) =
      map put_bytes (map (\<lambda>e. bytes_of_string (to_base64 to_json e)) es)"
    by (simp add: put_bytes_def)
  then show ?thesis by (simp only: sync_frame_def Let_def length_map)
qed

lemma sync_request_parsed:
  assumes "length es < 2 ^ 32" and "list_all (\<lambda>e. length (to_base64 to_json e) < 2 ^ 32) es"
  shows "parse_command (sync_frame to_json es) = Ok (HaSync (map (\<lambda>e. bytes_of_string (to_base64 to_json e)) es))"
proof -
  let ?bs = "map (\<lambda>e. bytes_of_string (to_base64 to_json e)) es"
  have a: "list_all wire_bytes ?bs" using assms(2) by (simp add: list_all_iff wire_bytes_def)
  have "reads (read_many (unat (word_of_nat (length es) :: u32)) read_bytes) c ?bs []"
    if "ahead c (concat (map put_bytes ?bs))" for c
    using bytes_field.reads_counted [OF a, of c "[]"] assms(1) that by simp
  then show ?thesis
    unfolding sync_frame_fields
    by (intro parse_command_reads) (auto simp: parse_body_def tag_defs intro!: reads_bind reads_u32 reads_return)
qed

lemma decode_synced:
  "list_all (json_ok to_json from_json) es \<Longrightarrow>
   decode_entries from_json (map (\<lambda>e. bytes_of_string (to_base64 to_json e)) es) = Some es"
proof (induction es)
  case (Cons e es)
  have "utf8_valid (bytes_of_string (to_base64 to_json e))"
    unfolding to_base64_def by (intro utf8_text base64_ascii)
  with Cons show ?case by (simp add: from_utf8_def base64_entry)
qed simp

text \<open>What \<open>DB::apply_aof\<close> leaves of a batch: its key-value entries, applied in order.\<close>

lemma follower_apply_kv:
  "fold (\<lambda>(v, e). follower_apply v e) zs s = set_kv (fold (\<lambda>(v, e). kv_part v e) (of_cat CKv zs) (st_kv (d_st s))) s"
proof (induction zs arbitrary: s)
  case (Cons z zs)
  obtain v e where z: "z = (v, e)" by fastforce
  show ?case using Cons [of "follower_apply v e s"] z by (cases e) (simp_all add: of_cat_def kv_part_def set_kv_def)
qed (simp add: of_cat_def set_kv_def)

text \<open>
  C27. Replication end to end: when the follower at the address is this server, \<open>sync_follower\<close> reports
  success to the leader, and what the follower has done with the entries sent is to apply the
  key-value entries among them, in order: its log groups, its lists, its file and its event channel are
  unchanged whatever log and list entries were in the batch, because \<open>DB::apply_aof\<close> drops the futures
  of those calls without awaiting them. A batch whose frame exceeds 16 MiB (the whole file of a large
  database, for instance) is refused by the follower's codec: nothing is applied and the leader sees a
  closed connection.
\<close>

theorem sync_applies_kv_only:
  assumes "list_all (json_ok to_json (se_from_json v)) es" and "length es < 2 ^ 32"
    and "list_all (\<lambda>e. length (to_base64 to_json e) < 2 ^ 32) es" and "length (sync_frame to_json es) < 2 ^ 32"
  shows "sync_follower io_text to_json (\<lambda>_. server_peer v) addr es s =
    (if length (sync_frame to_json es) \<le> MAX_FRAME_SIZE
     then (Ok (), s\<lparr>sv_db := set_kv (fold (\<lambda>(v, e). kv_part v e)
        (of_cat CKv (map2 (\<lambda>n e. (se_envs v n, e)) [0..<length es] es)) (st_kv (d_st (sv_db s)))) (sv_db s)\<rparr>)
     else (Err (io_text UnexpectedEof), s))"
proof (cases "length (sync_frame to_json es) \<le> MAX_FRAME_SIZE")
  case True
  let ?d = "fold (\<lambda>(e', e). follower_apply e' e) (map2 (\<lambda>n e. (se_envs v n, e)) [0..<length es] es) (sv_db s)"
  have "handle_command v (HaSync (map (\<lambda>e. bytes_of_string (to_base64 to_json e)) es)) s = (Ok ok_empty, s\<lparr>sv_db := ?d\<rparr>)"
    using decode_synced [OF assms(1)]
    by (simp add: handle_command_def handle_sync_def on_db_def respond_def db_apply_aof_def)
  from serve_one [OF True sync_request_parsed [OF assms(2,3)] this]
  have "server_peer v (u32_le (word_of_nat (length (sync_frame to_json es))) @ sync_frame to_json es) s = (Ok ok_empty, s\<lparr>sv_db := ?d\<rparr>)"
    by (simp add: put_bytes_def)
  moreover have "recv_frame ok_empty = Ok [STATUS_OK]"
    using recv_frame_finalize [of "[STATUS_OK]"] by (simp add: ok_empty_def)
  ultimately show ?thesis
    using True by (simp add: sync_follower_def ha_send_recv_def expect_ok_def follower_apply_kv)
next
  case False
  then have "codec_decode (u32_le (word_of_nat (length (sync_frame to_json es))) @ sync_frame to_json es) =
      TooLarge (length (sync_frame to_json es))"
    using assms(4) by (simp add: codec_decode_def)
  then have "server_peer v (u32_le (word_of_nat (length (sync_frame to_json es))) @ sync_frame to_json es) s = (Ok [], s)"
    by (simp add: server_peer_def decode_all.simps)
  with False show ?thesis
    by (simp add: sync_follower_def ha_send_recv_def expect_ok_def recv_frame_def)
qed

theorem sync_applies_kv_only_witness:
  "\<exists>s'. sync_follower (\<lambda>_. ''eof'') (\<lambda>_. [123, 125]) (\<lambda>_. server_peer sample_env) ''f'' [KvFlush ''d'']
     (sample_server kv_new) = (Ok (), s') \<and> st_kv (d_st (sv_db s')) = kv_flush ''d'' kv_new \<and>
     st_list (d_st (sv_db s')) = st_list (d_st (sv_db (sample_server kv_new)))"
proof -
  let ?tj = "\<lambda>_ :: aof_entry. [123, 125] :: bytes"
  have j: "list_all (json_ok ?tj (se_from_json sample_env)) [KvFlush ''d'']"
    by (simp add: json_ok_def sample_env_def)
  have f: "length (sync_frame ?tj [KvFlush ''d'']) = 13" "length (to_base64 ?tj (KvFlush ''d'')) = 4"
    by code_simp+
  have k: "st_kv (d_st (sv_db (sample_server kv_new))) = kv_new" by (simp add: sample_server_def server_new_def)
  show ?thesis
    using sync_applies_kv_only [OF j, of "\<lambda>_. ''eof''" "''f''" "sample_server kv_new"] f k
    by (auto simp: MAX_FRAME_SIZE_def set_kv_def of_cat_def kv_part_def)
qed

end
