(* ===== verification/Sessions.thy ===== *)
theory Sessions
  imports Server_Props "HOL-Library.Sublist"
begin

text \<open>
  The connections of a running server (\<open>Server::start\<close>): the accept loop spawns one task for every
  connection, which decodes frames from the bytes received so far, has the shared server answer them
  and sends the responses. The tasks interleave freely; this theory shows that together they behave
  like one task that handles the same requests one after the other.
\<close>

section \<open>State and steps\<close>

text \<open>
  \<open>cn_got\<close> are all bytes received from the peer, \<open>cn_buf\<close> those in the buffer of \<open>Framed\<close>, \<open>cn_out\<close> the
  bytes sent; the task of a connection ends when \<open>cn_open\<close> becomes false.
\<close>

record conn =
  cn_got :: bytes
  cn_buf :: bytes
  cn_out :: bytes
  cn_open :: bool

record 'w listener =
  ln_server :: "'w server"
  ln_conns :: "conn list"

definition conn_new :: conn where
  "conn_new = \<lparr>cn_got = [], cn_buf = [], cn_out = [], cn_open = True\<rparr>"

definition listener_new :: "'w server \<Rightarrow> 'w listener" where
  "listener_new s = \<lparr>ln_server = s, ln_conns = []\<rparr>"

text \<open>
  What a step does: a socket is accepted, bytes arrive, a frame is answered (in the environment of
  that request), the answer cannot be sent completely, the handler panics, a frame is refused by the
  decoder, the peer closes the connection.
\<close>

datatype 'w conn_event =
    Accept
  | Receive nat bytes
  | Answer nat "'w srv_env" bytes
  | SendFails nat "'w srv_env" bytes
  | Panic nat "'w srv_env" bytes
  | Refuse nat
  | Hangup nat

inductive listener_step :: "'w conn_event \<Rightarrow> 'w listener \<Rightarrow> 'w listener \<Rightarrow> bool" where
  accept: "listener_step Accept l (l\<lparr>ln_conns := ln_conns l @ [conn_new]\<rparr>)"
| receive: "i < length (ln_conns l) \<Longrightarrow> ln_conns l ! i = c \<Longrightarrow> cn_open c \<Longrightarrow>
    listener_step (Receive i bs) l (l\<lparr>ln_conns := (ln_conns l)[i := c\<lparr>cn_got := cn_got c @ bs, cn_buf := cn_buf c @ bs\<rparr>]\<rparr>)"
| answer: "i < length (ln_conns l) \<Longrightarrow> ln_conns l ! i = c \<Longrightarrow> cn_open c \<Longrightarrow>
    codec_decode (cn_buf c) = Frame f rest \<Longrightarrow> serve_frame v f (ln_server l) = (Ok resp, s) \<Longrightarrow>
    listener_step (Answer i v f) l
      (l\<lparr>ln_server := s, ln_conns := (ln_conns l)[i := c\<lparr>cn_buf := rest, cn_out := codec_encode resp (cn_out c)\<rparr>]\<rparr>)"
| send_fails: "i < length (ln_conns l) \<Longrightarrow> ln_conns l ! i = c \<Longrightarrow> cn_open c \<Longrightarrow>
    codec_decode (cn_buf c) = Frame f rest \<Longrightarrow> serve_frame v f (ln_server l) = (Ok resp, s) \<Longrightarrow>
    listener_step (SendFails i v f) l
      (l\<lparr>ln_server := s, ln_conns := (ln_conns l)[i := c\<lparr>cn_buf := rest, cn_out := codec_encode (take n resp) (cn_out c), cn_open := False\<rparr>]\<rparr>)"
| panic: "i < length (ln_conns l) \<Longrightarrow> ln_conns l ! i = c \<Longrightarrow> cn_open c \<Longrightarrow>
    codec_decode (cn_buf c) = Frame f rest \<Longrightarrow> serve_frame v f (ln_server l) = (Fault p, s) \<Longrightarrow>
    listener_step (Panic i v f) l (l\<lparr>ln_server := s, ln_conns := (ln_conns l)[i := c\<lparr>cn_buf := rest, cn_open := False\<rparr>]\<rparr>)"
| refuse: "i < length (ln_conns l) \<Longrightarrow> ln_conns l ! i = c \<Longrightarrow> cn_open c \<Longrightarrow> codec_decode (cn_buf c) = TooLarge n \<Longrightarrow>
    listener_step (Refuse i) l (l\<lparr>ln_conns := (ln_conns l)[i := c\<lparr>cn_open := False\<rparr>]\<rparr>)"
| hangup: "i < length (ln_conns l) \<Longrightarrow> ln_conns l ! i = c \<Longrightarrow> cn_open c \<Longrightarrow>
    listener_step (Hangup i) l (l\<lparr>ln_conns := (ln_conns l)[i := c\<lparr>cn_open := False\<rparr>]\<rparr>)"

inductive_cases listener_stepE: "listener_step ev l l'"

inductive listener_run :: "'w server \<Rightarrow> 'w conn_event list \<Rightarrow> 'w listener \<Rightarrow> bool" for s0 where
  started: "listener_run s0 [] (listener_new s0)"
| stepped: "listener_run s0 evs l \<Longrightarrow> listener_step ev l l' \<Longrightarrow> listener_run s0 (evs @ [ev]) l'"

section \<open>The sequential server\<close>

text \<open>The requests of a run in the order in which they were handled, each with its connection.\<close>

fun request_of :: "'w conn_event \<Rightarrow> (nat \<times> 'w srv_env \<times> bytes) list" where
  "request_of (Answer i v f) = [(i, v, f)]"
| "request_of (SendFails i v f) = [(i, v, f)]"
| "request_of (Panic i v f) = [(i, v, f)]"
| "request_of _ = []"

definition requests :: "'w conn_event list \<Rightarrow> (nat \<times> 'w srv_env \<times> bytes) list" where
  "requests evs = concat (map request_of evs)"

text \<open>One task that handles the requests one after the other.\<close>

fun serve_all :: "(nat \<times> 'w srv_env \<times> bytes) list \<Rightarrow> 'w server \<Rightarrow> (nat \<times> (io_error, bytes) result) list \<times> 'w server" where
  "serve_all [] s = ([], s)"
| "serve_all ((i, v, f) # rs) s =
     (let (r, s1) = serve_frame v f s; (out, s2) = serve_all rs s1 in ((i, r) # out, s2))"

definition frames_on :: "nat \<Rightarrow> (nat \<times> 'w srv_env \<times> bytes) list \<Rightarrow> bytes list" where
  "frames_on i rs = map (\<lambda>(_, _, f). f) (filter (\<lambda>(j, _, _). j = i) rs)"

definition responses_on :: "nat \<Rightarrow> (nat \<times> (io_error, bytes) result) list \<Rightarrow> bytes" where
  "responses_on i out = concat (map (\<lambda>(j, r). case r of Ok resp \<Rightarrow> if j = i then resp else [] | _ \<Rightarrow> []) out)"

lemma requests_snoc [simp]: "requests [] = []" "requests (evs @ [ev]) = requests evs @ request_of ev"
  by (simp_all add: requests_def)

lemma frames_on_snoc [simp]: "frames_on i [] = []"
  "frames_on i (rs @ [(j, v, f)]) = frames_on i rs @ (if j = i then [f] else [])"
  by (simp_all add: frames_on_def)

lemma responses_on_snoc [simp]: "responses_on i [] = []"
  "responses_on i (out @ [(j, r)]) = responses_on i out @ (case r of Ok resp \<Rightarrow> if j = i then resp else [] | _ \<Rightarrow> [])"
  by (simp_all add: responses_on_def)

lemma serve_all_snoc:
  "serve_all (rs @ [(i, v, f)]) s =
     (let (out, s1) = serve_all rs s; (r, s2) = serve_frame v f s1 in (out @ [(i, r)], s2))"
  by (induction rs arbitrary: s) (auto split: prod.splits)

section \<open>The connections together\<close>

text \<open>
  What a connection has seen: the bytes received decode to the frames handled followed by those in
  the buffer, whatever is still to come, and the bytes sent are the responses.
\<close>

definition conn_inv :: "(nat \<times> 'w srv_env \<times> bytes) list \<Rightarrow> (nat \<times> (io_error, bytes) result) list \<Rightarrow> nat \<Rightarrow> conn \<Rightarrow> bool" where
  "conn_inv rs out i c \<longleftrightarrow>
     (\<forall>b. decode_all (cn_got c @ b) = (let (fs, r, ok) = decode_all (cn_buf c @ b) in (frames_on i rs @ fs, r, ok))) \<and>
     prefix (cn_out c) (responses_on i out) \<and>
     (cn_open c \<longrightarrow> cn_out c = responses_on i out \<and> (\<forall>p. (i, Fault p) \<notin> set out))"

definition listener_inv :: "'w server \<Rightarrow> (nat \<times> 'w srv_env \<times> bytes) list \<Rightarrow> 'w listener \<Rightarrow> bool" where
  "listener_inv s0 rs l \<longleftrightarrow>
     (case serve_all rs s0 of (out, s) \<Rightarrow> ln_server l = s \<and>
        (\<forall>i < length (ln_conns l). conn_inv rs out i (ln_conns l ! i)) \<and>
        (\<forall>i \<ge> length (ln_conns l). frames_on i rs = [] \<and> responses_on i out = [] \<and> (\<forall>p. (i, Fault p) \<notin> set out)))"

lemma conn_inv_others:
  "conn_inv rs out i c \<Longrightarrow> j \<noteq> i \<Longrightarrow> conn_inv (rs @ [(j, v, f)]) (out @ [(j, r)]) i c"
  by (auto simp: conn_inv_def split: result.split)

lemma decode_all_frame: "codec_decode buf = Frame f rest \<Longrightarrow>
    decode_all (buf @ b) = (let (fs, r, ok) = decode_all (rest @ b) in (f # fs, r, ok))"
  by (subst decode_all.simps) (simp add: codec_decode_append(1))

text \<open>One request handled on connection \<open>i\<close>, whose connection becomes \<open>c'\<close>.\<close>

lemma listener_inv_request:
  assumes "listener_inv s0 rs l" and i: "i < length (ln_conns l)" and c: "ln_conns l ! i = c" "cn_open c"
    and f: "codec_decode (cn_buf c) = Frame f rest" and r: "serve_frame v f (ln_server l) = (r, s)"
    and c': "cn_got c' = cn_got c" "cn_buf c' = rest"
    and out: "prefix (cn_out c') (cn_out c @ (case r of Ok resp \<Rightarrow> resp | _ \<Rightarrow> []))"
    and still: "cn_open c' \<Longrightarrow> (\<exists>resp. r = Ok resp \<and> cn_out c' = cn_out c @ resp)"
  shows "listener_inv s0 (rs @ [(i, v, f)]) (l\<lparr>ln_server := s, ln_conns := (ln_conns l)[i := c']\<rparr>)"
proof -
  obtain out0 s1 where 0: "serve_all rs s0 = (out0, s1)" by fastforce
  have inv: "ln_server l = s1" "conn_inv rs out0 i c"
    using assms(1) i c 0 by (auto simp: listener_inv_def)
  then have 1: "serve_all (rs @ [(i, v, f)]) s0 = (out0 @ [(i, r)], s)" using 0 r by (simp add: serve_all_snoc)
  have "conn_inv (rs @ [(i, v, f)]) (out0 @ [(i, r)]) i c'"
    using inv(2) c(2) c' out still
    by (auto simp: conn_inv_def decode_all_frame [OF f] split: prod.splits result.splits)
  then show ?thesis
    using assms(1) 0 1 i c by (auto simp: listener_inv_def nth_list_update conn_inv_others split: result.split)
qed

lemma listener_inv_conn:
  assumes "listener_inv s0 rs l" and "i < length (ln_conns l)" and "\<And>out. conn_inv rs out i (ln_conns l ! i) \<Longrightarrow> conn_inv rs out i c'"
  shows "listener_inv s0 rs (l\<lparr>ln_conns := (ln_conns l)[i := c']\<rparr>)"
  using assms by (auto simp: listener_inv_def nth_list_update split: prod.splits)

lemma listener_inv_step:
  assumes "listener_step ev l l'" "listener_inv s0 rs l"
  shows "listener_inv s0 (rs @ request_of ev) l'"
  using assms
proof (induction rule: listener_step.induct)
  case (accept l)
  then show ?case
    by (auto simp: listener_inv_def nth_append conn_inv_def conn_new_def less_Suc_eq split: prod.splits)
next
  case (receive i l c bs)
  show ?case
    using listener_inv_conn [OF receive(4,1), of "c\<lparr>cn_got := cn_got c @ bs, cn_buf := cn_buf c @ bs\<rparr>"] receive(2)
    by (simp add: conn_inv_def)
next
  case (answer i l c f rest v resp s)
  show ?case
    using listener_inv_request [OF answer(6,1,2,3,4,5), of "c\<lparr>cn_buf := rest, cn_out := codec_encode resp (cn_out c)\<rparr>"]
    by (simp add: codec_encode_def)
next
  case (send_fails i l c f rest v resp s n)
  show ?case
    using listener_inv_request [OF send_fails(6,1,2,3,4,5),
        of "c\<lparr>cn_buf := rest, cn_out := codec_encode (take n resp) (cn_out c), cn_open := False\<rparr>"]
    by (simp add: codec_encode_def take_is_prefix)
next
  case (panic i l c f rest v p s)
  show ?case
    using listener_inv_request [OF panic(6,1,2,3,4,5), of "c\<lparr>cn_buf := rest, cn_open := False\<rparr>"] by simp
next
  case (refuse i l c n)
  show ?case using listener_inv_conn [OF refuse(5,1), of "c\<lparr>cn_open := False\<rparr>"] refuse(2) by (simp add: conn_inv_def)
next
  case (hangup i l c)
  show ?case using listener_inv_conn [OF hangup(4,1), of "c\<lparr>cn_open := False\<rparr>"] hangup(2) by (simp add: conn_inv_def)
qed

lemma listener_run_inv: "listener_run s0 evs l \<Longrightarrow> listener_inv s0 (requests evs) l"
proof (induction rule: listener_run.induct)
  case started
  show ?case by (simp add: listener_inv_def listener_new_def)
next
  case (stepped evs l ev l')
  then show ?case using listener_inv_step by fastforce
qed

text \<open>
  C8. The connections are serialised: however the tasks of the connections interleave and however TCP
  cuts the input, the state of the server is the one of a single task that handles the requests in the
  order of the run, and every connection is sent the responses of that task to its own requests and
  nothing else, in order. The requests handled for a connection are a prefix of the frames its peer
  sent, and all of them when the connection waits for input. A connection whose handler panicked is
  closed; the others go on.
\<close>

theorem connections_serialised:
  assumes "listener_run s0 evs l"
  shows "case serve_all (requests evs) s0 of (out, s) \<Rightarrow> ln_server l = s \<and>
    (\<forall>i < length (ln_conns l). let c = ln_conns l ! i; frames = fst (decode_all (cn_got c)) in
       prefix (frames_on i (requests evs)) frames \<and>
       (codec_decode (cn_buf c) = NeedMore \<longrightarrow> frames_on i (requests evs) = frames) \<and>
       prefix (cn_out c) (responses_on i out) \<and>
       (cn_open c \<longrightarrow> cn_out c = responses_on i out \<and> (\<forall>p. (i, Fault p) \<notin> set out)))"
proof -
  obtain out s where o: "serve_all (requests evs) s0 = (out, s)" by fastforce
  with listener_run_inv [OF assms] have s: "ln_server l = s"
    and c: "\<And>i. i < length (ln_conns l) \<Longrightarrow> conn_inv (requests evs) out i (ln_conns l ! i)"
    by (simp_all add: listener_inv_def)
  have got: "fst (decode_all (cn_got (ln_conns l ! i))) = frames_on i (requests evs) @ fst (decode_all (cn_buf (ln_conns l ! i)))"
    if "i < length (ln_conns l)" for i
  proof -
    have "decode_all (cn_got (ln_conns l ! i) @ []) =
        (let (fs, r, ok) = decode_all (cn_buf (ln_conns l ! i) @ []) in (frames_on i (requests evs) @ fs, r, ok))"
      using c [OF that] unfolding conn_inv_def by blast
    then show ?thesis by (simp split: prod.splits)
  qed
  moreover have "fst (decode_all b) = []" if "codec_decode b = NeedMore" for b
    using that by (subst decode_all.simps) simp
  moreover have "prefix (cn_out (ln_conns l ! i)) (responses_on i out)"
    "cn_open (ln_conns l ! i) \<Longrightarrow> cn_out (ln_conns l ! i) = responses_on i out \<and> (\<forall>p. (i, Fault p) \<notin> set out)"
    if "i < length (ln_conns l)" for i
    using c [OF that] by (auto simp: conn_inv_def)
  ultimately show ?thesis using o s by (simp add: Let_def)
qed

text \<open>Two requests as bytes.\<close>

lemma heartbeat_parsed: "parse_command [0x23] = Ok HaHeartBeat"
  by (rule parse_command_reads, simp add: parse_body_def tag_defs, blast intro: request_intros)

lemma flush_parsed: "parse_command [20, 1, 0, 100] = Ok (Flush ''d'')"
proof -
  have "kv_flush_frame ''d'' = [20, 1, 0, 100]" by code_simp
  moreover have "wire_str ''d''" by (simp add: wire_str_def bytes_of_string_def)
  ultimately show ?thesis using kv_db_request_parsed(2) by metis
qed

text \<open>Two connections; the heartbeat sent on the second arrives in two pieces.\<close>

theorem connections_serialised_witness:
  "\<exists>evs l. listener_run (sample_server kv_new) evs l \<and> requests evs = [(1, sample_env, [0x23])] \<and>
     cn_out (ln_conns l ! 1) = ok_bytes (bytes_of_string ''ACK'') \<and> cn_out (ln_conns l ! 0) = []"
proof -
  let ?s = "sample_server kv_new"
  have f: "serve_frame sample_env [0x23] ?s = (Ok (ok_bytes (bytes_of_string ''ACK'')), ?s)"
    by (simp add: serve_frame_def heartbeat_parsed handle_command_def ack_heartbeat_def respond_def)
  have "put_bytes [0x23] = [1, 0, 0, 0, 0x23]" by code_simp
  then have d: "codec_decode [1, 0, 0, 0, 0x23] = Frame [0x23] []"
    using codec_decode_frame [of "[0x23]" "[]"] by (simp add: MAX_FRAME_SIZE_def)
  define l where "l = (\<lambda>c1. \<lparr>ln_server = ?s, ln_conns = [conn_new, c1]\<rparr>)"
  have 0: "listener_run ?s [] (listener_new ?s)" by (rule listener_run.started)
  have 1: "listener_run ?s [Accept] (listener_new ?s\<lparr>ln_conns := [conn_new]\<rparr>)"
    using listener_run.stepped [OF 0 listener_step.accept] by (simp add: listener_new_def)
  have 2: "listener_run ?s [Accept, Accept] (l conn_new)"
    using listener_run.stepped [OF 1 listener_step.accept] by (simp add: listener_new_def l_def)
  have r: "listener_step (Receive 1 bs) (l c) (l (c\<lparr>cn_got := cn_got c @ bs, cn_buf := cn_buf c @ bs\<rparr>))" if "cn_open c" for c bs
    using listener_step.receive [of 1 "l c" c bs] that by (simp add: l_def)
  let ?c = "\<lparr>cn_got = [1, 0, 0, 0, 0x23], cn_buf = [1, 0, 0, 0, 0x23], cn_out = [], cn_open = True\<rparr>"
  have 3: "listener_run ?s [Accept, Accept, Receive 1 [1, 0, 0], Receive 1 [0, 0x23]] (l ?c)"
    using listener_run.stepped [OF listener_run.stepped [OF 2 r [of conn_new "[1, 0, 0]"]] r, of "[0, 0x23]"]
    by (simp add: conn_new_def)
  have "listener_step (Answer 1 sample_env [0x23]) (l ?c) (l (?c\<lparr>cn_buf := [], cn_out := ok_bytes (bytes_of_string ''ACK'')\<rparr>))"
    using listener_step.answer [of 1 "l ?c" ?c "[0x23]" "[]" sample_env "ok_bytes (bytes_of_string ''ACK'')" ?s] d f
    by (simp add: l_def codec_encode_def)
  from listener_run.stepped [OF 3 this]
  have run: "listener_run ?s [Accept, Accept, Receive 1 [1, 0, 0], Receive 1 [0, 0x23], Answer 1 sample_env [0x23]]
      (l (?c\<lparr>cn_buf := [], cn_out := ok_bytes (bytes_of_string ''ACK'')\<rparr>))" by simp
  have q: "requests [Accept, Accept, Receive 1 [1, 0, 0], Receive 1 [0, 0x23], Answer 1 sample_env [0x23]] = [(1, sample_env, [0x23])]"
    by (simp add: requests_def)
  have "cn_out (ln_conns (l (?c\<lparr>cn_buf := [], cn_out := ok_bytes (bytes_of_string ''ACK'')\<rparr>)) ! 0) = []"
    using connections_serialised [OF run] f by (simp add: q l_def Let_def responses_on_def conn_new_def)
  with run q show ?thesis
    by (intro exI [of _ "[Accept, Accept, Receive 1 [1, 0, 0], Receive 1 [0, 0x23], Answer 1 sample_env [0x23]]"]
        exI [of _ "l (?c\<lparr>cn_buf := [], cn_out := ok_bytes (bytes_of_string ''ACK'')\<rparr>)"]) (simp add: l_def)
qed

end
