(* ===== verification/Startup.thy ===== *)
theory Startup
  imports Sessions
begin

text \<open>
  The start of the server process (\<open>server/src/main.rs\<close>): reading the configuration, taking up the
  role in a replicated setup, and the lock of the high-availability manager that the main task, the
  event task and the handlers of the connections share.
\<close>

section \<open>Taking up the role\<close>

definition server_addr :: "string option \<Rightarrow> (nat \<Rightarrow> string) \<Rightarrow> conf \<Rightarrow> string" where
  "server_addr env_addr decimal cf = (case env_addr of Some a \<Rightarrow> a | None \<Rightarrow> ''localhost:'' @ decimal (cf_port cf))"

datatype boot_role = PlainServer | HeartbeatTask | Registered

text \<open>
  The block of \<open>main\<close> before the server listens: \<open>unwrap\<close> on a missing configuration part and
  \<open>expect\<close> on a failed registration are panics.
\<close>

definition take_role :: "(io_error \<Rightarrow> string) \<Rightarrow> 'w network \<Rightarrow> conf \<Rightarrow> string \<Rightarrow> 'w \<Rightarrow> (string, boot_role) result \<times> 'w" where
  "take_role io_text net cf addr w =
     (case cf_replica cf of
        None \<Rightarrow> (Fault UnwrapPanic, w)
      | Some rc \<Rightarrow>
          if \<not> rc_is_replica rc then (Ok PlainServer, w)
          else (case rc_master rc of
             None \<Rightarrow> (Fault UnwrapPanic, w)
           | Some master \<Rightarrow>
               (case rc_role rc of
                  Some Leader \<Rightarrow> (Ok HeartbeatTask, w)
                | Some Follower \<Rightarrow>
                    (case register_master io_text net master addr w of
                       (Ok _, w') \<Rightarrow> (Ok Registered, w')
                     | (Err _, w') \<Rightarrow> (Fault UnwrapPanic, w')
                     | (Fault p, w') \<Rightarrow> (Fault p, w'))
                | None \<Rightarrow> (Ok PlainServer, w))))"

lemma register_request_parsed:
  assumes "wire_str addr"
  shows "parse_command (HA_REGISTER # u16_le (word_of_nat (length addr)) @ bytes_of_string addr) = Ok (HaRegisterFollower addr)"
  unfolding frame_folds
  by (rule parse_command_reads, simp add: parse_body_def tag_defs, use assms in \<open>blast intro: request_intros\<close>)

text \<open>
  C33. A follower cannot join: it registers with the leader before it listens, and the leader first
  sends a heartbeat to the address that registers. As long as nobody answers at that address, the
  leader refuses (its list of followers does not change) and the process that wanted to follow
  panics.
\<close>

theorem follower_cannot_register:
  assumes "cf_replica cf = Some rc" and "rc_is_replica rc" and "rc_master rc = Some master"
    and "rc_role rc = Some Follower" and "wire_str addr"
    and "heartbeat_follower (se_io_text v) (se_net v) addr (sv_world s) = (Err e, w)" and "wire_str (''failed to register follower: '' @ e)"
  shows "take_role io_text (\<lambda>_. server_peer v) cf addr s = (Fault UnwrapPanic, s\<lparr>sv_world := w\<rparr>)"
proof -
  let ?f = "HA_REGISTER # u16_le (word_of_nat (length addr)) @ bytes_of_string addr"
  let ?m = "''failed to register follower: '' @ e"
  let ?b = "STATUS_ERR # put_str ?m"
  have l: "length ?f \<le> MAX_FRAME_SIZE" using assms(5) by (simp add: wire_str_def MAX_FRAME_SIZE_def)
  have "handle_command v (HaRegisterFollower addr) s = (Ok (finalize ([0, 0, 0, 0] @ ?b)), s\<lparr>sv_world := w\<rparr>)"
    using assms(6) by (simp add: handle_command_def handle_register_def register_follower_def respond_def resp_err_def)
  from serve_one [OF l register_request_parsed [OF assms(5)] this]
  have "server_peer v (u32_le (word_of_nat (length ?f)) @ ?f) s = (Ok (finalize ([0, 0, 0, 0] @ ?b)), s\<lparr>sv_world := w\<rparr>)"
    by (simp add: put_bytes_def)
  moreover have "recv_frame (finalize ([0, 0, 0, 0] @ ?b)) = Ok ?b"
    using assms(7) by (intro recv_frame_finalize) (simp add: put_str_def wire_str_def)
  moreover have "STATUS_ERR \<noteq> STATUS_OK" by (simp add: STATUS_ERR_def STATUS_OK_def)
  ultimately show ?thesis
    using assms(1-4) by (simp add: take_role_def register_master_def ha_send_recv_def expect_ok_def)
qed

theorem follower_cannot_register_witness:
  "let cf = conf_default\<lparr>cf_replica := Some \<lparr>rc_is_replica = True, rc_role = Some Follower, rc_followers = None,
       rc_master = Some ''m'', rc_event_buffer_size = None\<rparr>\<rparr>
   in fst (take_role (\<lambda>_. []) (\<lambda>_. server_peer sample_env) cf ''f'' (sample_server kv_new)) = Fault UnwrapPanic"
proof -
  have h: "heartbeat_follower (se_io_text sample_env) (se_net sample_env) ''f'' (sv_world (sample_server kv_new)) = (Err ''eof'', ())"
    by (simp add: heartbeat_follower_def ha_send_recv_def expect_ok_def sample_env_def)
  have w: "wire_str ''f''" "wire_str (''failed to register follower: '' @ ''eof'')"
    by (simp_all add: wire_str_def bytes_of_string_def)
  show ?thesis
    unfolding Let_def
    by (subst follower_cannot_register [where master = "''m''", OF _ _ _ _ w(1) h w(2)]) simp+
qed

section \<open>The process\<close>

text \<open>
  The tasks of the process: \<open>main\<close>, the event task that calls \<open>start\<close> once (spawned for a replica),
  the heartbeat task (spawned by a leader) and the tasks of the connections. They share the server and
  the manager; the manager's lock is held by the event task while \<open>start\<close> waits, by \<open>main\<close> while it
  takes up its role and by the handlers of registrations and heartbeats. \<open>main\<close> ends with a panic or
  when the listener fails, and the process ends with it.
\<close>

datatype event_pc = ENone | ELock | ERecv | EDone
datatype main_pc = MRole | MBind | MListening | MEnded

record 'w process =
  pr_listener :: "'w listener"
  pr_locked :: bool
  pr_event :: event_pc
  pr_heartbeat :: bool
  pr_main :: main_pc

abbreviation pr_server :: "'w process \<Rightarrow> 'w server" where
  "pr_server p \<equiv> ln_server (pr_listener p)"

definition with_server :: "'w server \<Rightarrow> 'w process \<Rightarrow> 'w process" where
  "with_server s p = p\<lparr>pr_listener := pr_listener p\<lparr>ln_server := s\<rparr>\<rparr>"

text \<open>
  \<open>main\<close> up to its first wait: the results of \<open>Conf::load\<close> and \<open>DB::new\<close> (\<open>None\<close>: an error that is
  unwrapped, a panic), the managers, and the tasks to start.
\<close>

definition main_start :: "conf option \<Rightarrow> db option \<Rightarrow> 'w \<Rightarrow> (string, 'w process) result" where
  "main_start cf_loaded db_opened w =
     (case cf_loaded of
        None \<Rightarrow> Fault UnwrapPanic
      | Some cf \<Rightarrow>
          (case db_opened of
             None \<Rightarrow> Fault UnwrapPanic
           | Some d \<Rightarrow>
               (case cf_replica cf of
                  None \<Rightarrow> Fault UnwrapPanic
                | Some rc \<Rightarrow>
                    if rc_is_replica rc \<and> rc_master rc = None then Fault UnwrapPanic
                    else Ok \<lparr>pr_listener = listener_new (server_new d (ha_new cf ha_conf_new [] True) w),
                       pr_locked = False, pr_event = (if rc_is_replica rc then ELock else ENone), pr_heartbeat = False,
                       pr_main = (if rc_is_replica rc \<and> rc_role rc \<noteq> None then MRole else MBind)\<rparr>)))"

text \<open>The channel between the database and the manager: what a request recorded arrives in \<open>ha_rx\<close>.\<close>

definition events :: "'w server \<Rightarrow> aof_entry list" where
  "events s = (case d_event_tx (sv_db s) of Some es \<Rightarrow> es | None \<Rightarrow> [])"

definition deliver :: "'w server \<Rightarrow> 'w server \<Rightarrow> 'w server" where
  "deliver s s' = s'\<lparr>sv_ha := sv_ha s'\<lparr>ha_rx := ha_rx (sv_ha s') @ drop (length (events s)) (events s')\<rparr>\<rparr>"

fun needs_manager :: "command \<Rightarrow> bool" where
  "needs_manager (HaRegisterFollower addr) = True"
| "needs_manager HaHeartBeat = True"
| "needs_manager _ = False"

definition locks_manager :: "'w conn_event \<Rightarrow> bool" where
  "locks_manager ev \<longleftrightarrow>
     list_ex (\<lambda>(i, v, f). case parse_command f of Ok cmd \<Rightarrow> needs_manager cmd | _ \<Rightarrow> False) (request_of ev)"

datatype 'w task_event = LockTaken | EventTaken | RoleTaken | Bound | ListenerFailed | Beat | Connection "'w conn_event"

inductive process_step :: "(io_error \<Rightarrow> string) \<Rightarrow> (aof_entry \<Rightarrow> bytes) \<Rightarrow> 'w network \<Rightarrow> string
    \<Rightarrow> 'w task_event \<Rightarrow> 'w process \<Rightarrow> 'w process \<Rightarrow> bool" for io_text to_json net addr where
  lock_taken: "pr_main p \<noteq> MEnded \<Longrightarrow> pr_event p = ELock \<Longrightarrow> \<not> pr_locked p \<Longrightarrow>
    process_step io_text to_json net addr LockTaken p (p\<lparr>pr_event := ERecv, pr_locked := True\<rparr>)"
| event_taken: "pr_main p \<noteq> MEnded \<Longrightarrow> pr_event p = ERecv \<Longrightarrow>
    ha_start waited io_text to_json net (sv_ha (pr_server p), sv_world (pr_server p)) = Some (r, h, w) \<Longrightarrow>
    process_step io_text to_json net addr EventTaken p
      (with_server ((pr_server p)\<lparr>sv_ha := h, sv_world := w\<rparr>) p\<lparr>pr_event := EDone, pr_locked := False\<rparr>)"
| role_taken: "pr_main p = MRole \<Longrightarrow> \<not> pr_locked p \<Longrightarrow>
    take_role io_text net (ha_conf (sv_ha (pr_server p))) addr (sv_world (pr_server p)) = (ro, w) \<Longrightarrow>
    process_step io_text to_json net addr RoleTaken p
      (with_server ((pr_server p)\<lparr>sv_world := w\<rparr>) p
        \<lparr>pr_main := (case ro of Ok _ \<Rightarrow> MBind | _ \<Rightarrow> MEnded), pr_heartbeat := (ro = Ok HeartbeatTask)\<rparr>)"
| bound: "pr_main p = MBind \<Longrightarrow> process_step io_text to_json net addr Bound p (p\<lparr>pr_main := MListening\<rparr>)"
| listener_failed: "pr_main p = MBind \<or> pr_main p = MListening \<Longrightarrow>
    process_step io_text to_json net addr ListenerFailed p (p\<lparr>pr_main := MEnded\<rparr>)"
| beat: "pr_main p \<noteq> MEnded \<Longrightarrow> pr_heartbeat p \<Longrightarrow>
    heartbeat_tick io_text net (sv_ha (pr_server p), sv_world (pr_server p)) = (o', h, w) \<Longrightarrow>
    process_step io_text to_json net addr Beat p
      (with_server ((pr_server p)\<lparr>sv_ha := h, sv_world := w\<rparr>) p\<lparr>pr_heartbeat := (o' = HbContinue)\<rparr>)"
| connection: "pr_main p = MListening \<Longrightarrow> \<not> (locks_manager ev \<and> pr_locked p) \<Longrightarrow> listener_step ev (pr_listener p) l \<Longrightarrow>
    process_step io_text to_json net addr (Connection ev) p
      (p\<lparr>pr_listener := l\<lparr>ln_server := deliver (pr_server p) (ln_server l)\<rparr>\<rparr>)"

inductive_cases process_stepE: "process_step io_text to_json net addr ev p q"

inductive process_reachable :: "(io_error \<Rightarrow> string) \<Rightarrow> (aof_entry \<Rightarrow> bytes) \<Rightarrow> 'w network \<Rightarrow> string \<Rightarrow> conf
    \<Rightarrow> 'w process \<Rightarrow> bool" for io_text to_json net addr cf where
  start: "database_new from_json file (Some []) d \<Longrightarrow> main_start (Some cf) (Some d) w = Ok p \<Longrightarrow>
    process_reachable io_text to_json net addr cf p"
| step: "process_reachable io_text to_json net addr cf p \<Longrightarrow> process_step io_text to_json net addr ev p q \<Longrightarrow>
    process_reachable io_text to_json net addr cf q"

section \<open>What requests do to the channel\<close>

text \<open>An operation of the database adds to the events sent and removes none.\<close>

definition grows :: "(db \<Rightarrow> 'r \<times> db) \<Rightarrow> bool" where
  "grows m \<longleftrightarrow> (\<forall>s. \<exists>new. d_event_tx (snd (m s)) = map_option (\<lambda>es. es @ new) (d_event_tx s))"

lemma grows_keep: "(\<And>s. d_event_tx (snd (m s)) = d_event_tx s) \<Longrightarrow> grows m"
  unfolding grows_def by (intro allI exI [of _ "[]"]) (simp add: option.map_ident)

lemma grows_finish: "(\<And>s. d_event_tx (g s) = d_event_tx s) \<Longrightarrow> grows (\<lambda>s. finish c e (f s) (g s))"
proof -
  assume g: "\<And>s. d_event_tx (g s) = d_event_tx s"
  have "\<exists>new. d_event_tx (snd (finish c e (f s) (g s))) = map_option (\<lambda>es. es @ new) (d_event_tx s)" for s
    by (cases "f s"; cases "d_event_tx s") (auto simp: finish_def emit_def send_event_def g)
  then show ?thesis by (simp add: grows_def)
qed

lemma grows_reads [intro]:
  "grows (db_log_read v grp i)" "grows (db_log_read_range v grp a b)" "grows (db_kv_get v db key)" "grows (db_list_len key)" "grows (\<lambda>d. (f d, d))"
  by (auto simp: db_log_read_def db_log_read_range_def db_kv_get_def db_list_len_def set_gm_def set_kv_def set_list_def
      split: prod.split intro!: grows_keep)

lemmas recorded_ops = db_log_create_group_def [abs_def] db_log_drop_group_def [abs_def] db_log_add_def [abs_def]
  db_log_add_range_def [abs_def] db_log_remove_def [abs_def] db_kv_set_def [abs_def] db_kv_del_def [abs_def]
  db_list_push_def [abs_def] db_list_push_range_def [abs_def] db_list_pop_def [abs_def] db_list_pop_range_def [abs_def]
  db_list_pop_count_def [abs_def] db_list_flush_def [abs_def]

lemma grows_changes [intro]:
  "grows (db_log_create_group v name)"
  "grows (db_log_drop_group name)"
  "grows (db_log_add v grp ts x)"
  "grows (db_log_add_range v grp es)"
  "grows (db_log_remove v grp i)"
  "grows (db_kv_set v db key x ttl)"
  "grows (db_kv_del db key)"
  "grows (db_list_push v key x)"
  "grows (db_list_push_range v key xs)"
  "grows (db_list_pop key)"
  "grows (db_list_pop_range key n m)"
  "grows (db_list_pop_count key n)"
  "grows (db_list_flush key)"
  unfolding recorded_ops Let_def case_prod_unfold
  by (rule grows_finish, simp add: set_gm_def set_kv_def set_list_def)+

lemma grows_flush [intro]: "grows (db_kv_flush db)"
  unfolding grows_def
  by (intro allI exI [of _ "[KvFlush db]"]) (simp add: db_kv_flush_def send_event_def set_kv_def)

lemma grows_apply [intro]: "grows (db_apply_aof es)"
proof (rule grows_keep)
  have "d_event_tx (follower_apply v e s) = d_event_tx s" for v e s
    by (cases e) (simp_all add: set_kv_def)
  then show "d_event_tx (snd (db_apply_aof es s)) = d_event_tx s" for s
    by (induction es arbitrary: s) (auto simp: db_apply_aof_def)
qed

text \<open>A request keeps the manager's part of the channel and only adds events.\<close>

definition ha_rest :: "ha_manager \<Rightarrow> conf \<times> aof_entry list \<times> bool \<times> aof_entry list" where
  "ha_rest h = (ha_conf h, ha_rx h, ha_open h, ha_uncommitted h)"

definition only_sends :: "'w server \<Rightarrow> 'w server \<Rightarrow> bool" where
  "only_sends s s' \<longleftrightarrow> ha_rest (sv_ha s') = ha_rest (sv_ha s) \<and>
     (\<exists>new. d_event_tx (sv_db s') = map_option (\<lambda>es. es @ new) (d_event_tx (sv_db s)))"

lemma only_sends_same: "sv_db s' = sv_db s \<Longrightarrow> ha_rest (sv_ha s') = ha_rest (sv_ha s) \<Longrightarrow> only_sends s s'"
  unfolding only_sends_def by (intro conjI exI [of _ "[]"]) (simp_all add: option.map_ident)

lemma on_db_sends: "on_db f m s = (r, s') \<Longrightarrow> grows m \<Longrightarrow> only_sends s s'"
  by (auto simp: on_db_def only_sends_def grows_def Let_def split: prod.splits) (metis snd_conv)

lemma register_rest:
  "register_follower io_text to_json from_json file err net addr (h, w) = (r, h', w') \<Longrightarrow> ha_rest h' = ha_rest h"
  by (auto simp: register_follower_def ha_rest_def Let_def split: prod.splits result.splits option.splits if_splits)

lemma handle_command_sends: "handle_command v cmd s = (r, s') \<Longrightarrow> only_sends s s'"
proof (cases cmd)
  case (HaSync es)
  then show "handle_command v cmd s = (r, s') \<Longrightarrow> only_sends s s'"
    by (auto simp: handle_command_def handle_sync_def intro: only_sends_same split: option.splits dest!: on_db_sends)
next
  case (HaRegisterFollower addr)
  then show "handle_command v cmd s = (r, s') \<Longrightarrow> only_sends s s'"
    by (auto simp: handle_command_def handle_register_def Let_def split: prod.splits dest!: register_rest intro!: only_sends_same)
qed (auto simp: handle_command_def start_pipeline_def ack_heartbeat_def Let_def split: prod.splits
    intro: only_sends_same dest!: on_db_sends)

lemma serve_frame_sends: "serve_frame v f s = (r, s') \<Longrightarrow> only_sends s s'"
  by (auto simp: serve_frame_def split: result.splits parse_error.splits dest: handle_command_sends intro: only_sends_same)

lemma listener_step_sends: "listener_step ev l l' \<Longrightarrow> only_sends (ln_server l) (ln_server l')"
  by (induction rule: listener_step.induct) (auto intro: only_sends_same dest: serve_frame_sends)

lemma heartbeat_rest: "heartbeat_tick io_text net (h, w) = (o', h', w') \<Longrightarrow> ha_rest h' = ha_rest h"
proof -
  have "hb_try io_text net fs (h, w) = (o', h', w') \<Longrightarrow> ha_rest h' = ha_rest h" for fs h w
    by (induction fs arbitrary: h w) (auto simp: ha_rest_def hb_failed_def Let_def split: prod.splits result.splits if_splits)
  then show "heartbeat_tick io_text net (h, w) = (o', h', w') \<Longrightarrow> ha_rest h' = ha_rest h" by (simp add: heartbeat_tick_def)
qed

section \<open>Invariant of the process\<close>

text \<open>
  Of the events sent the event task has received none before it is done and one afterwards, which
  it keeps when its buffer takes more than one.
\<close>

definition taken :: "'w process \<Rightarrow> nat" where
  "taken p = (if pr_event p = EDone then 1 else 0)"

definition process_inv :: "conf \<Rightarrow> replica_conf \<Rightarrow> 'w process \<Rightarrow> bool" where
  "process_inv cf rc p \<longleftrightarrow>
     cf_replica cf = Some rc \<and> d_event_tx (sv_db (pr_server p)) \<noteq> None \<and>
     ha_conf (sv_ha (pr_server p)) = cf \<and> ha_open (sv_ha (pr_server p)) \<and>
     taken p \<le> length (events (pr_server p)) \<and> ha_rx (sv_ha (pr_server p)) = drop (taken p) (events (pr_server p)) \<and>
     (pr_event p = EDone \<and> buffer_size rc < 2 \<or> ha_uncommitted (sv_ha (pr_server p)) = take (taken p) (events (pr_server p))) \<and>
     pr_locked p = (pr_event p = ERecv) \<and> (pr_event p = ENone) = (\<not> rc_is_replica rc) \<and>
     (pr_main p = MRole \<longrightarrow> events (pr_server p) = [] \<and> \<not> pr_heartbeat p) \<and>
     (pr_main p = MBind \<longrightarrow> events (pr_server p) = [])"

lemma deliver_sends:
  assumes "only_sends s s'" "d_event_tx (sv_db s) \<noteq> None"
  obtains new where "events (deliver s s') = events s @ new" "d_event_tx (sv_db (deliver s s')) \<noteq> None"
    "ha_conf (sv_ha (deliver s s')) = ha_conf (sv_ha s)" "ha_open (sv_ha (deliver s s')) = ha_open (sv_ha s)"
    "ha_uncommitted (sv_ha (deliver s s')) = ha_uncommitted (sv_ha s)"
    "ha_rx (sv_ha (deliver s s')) = ha_rx (sv_ha s) @ new"
  using assms that by (auto simp: only_sends_def deliver_def events_def ha_rest_def)

lemma process_start_inv:
  assumes "database_new from_json file (Some []) d" "main_start (Some cf) (Some d) w = Ok p"
  shows "\<exists>rc. process_inv cf rc p"
  using assms
  by (auto simp: main_start_def process_inv_def listener_new_def server_new_def ha_new_def events_def taken_def
      elim!: database_new.cases split: option.splits if_splits)

lemma process_inv_step:
  assumes "process_step io_text to_json net addr ev p q" "process_inv cf rc p"
  shows "process_inv cf rc q"
  using assms
proof (induction rule: process_step.induct)
  case (lock_taken p)
  then show ?case by (auto simp: process_inv_def taken_def)
next
  case (event_taken p waited r h w)
  let ?h = "sv_ha (pr_server p)"
  obtain e rx where e: "ha_rx ?h = e # rx" using event_taken(3,4) by (cases "ha_rx ?h") (auto simp: ha_start_def process_inv_def)
  with event_taken have es: "events (pr_server p) = e # rx" "ha_uncommitted ?h = []" "cf_replica (ha_conf ?h) = Some rc"
    by (auto simp: process_inv_def taken_def)
  then have "h = ?h\<lparr>ha_rx := rx, ha_uncommitted := (if buffer_size rc \<ge> 2 then [e] else [])\<rparr>"
    using event_taken(3) e by (auto simp: ha_start_def Let_def split: if_splits prod.splits)
  then show ?case
    using event_taken(1,2,4) es by (auto simp: process_inv_def taken_def with_server_def events_def split: if_splits)
next
  case (beat p o' h w)
  then show ?case
    using heartbeat_rest [OF beat(3)] by (auto simp: process_inv_def taken_def with_server_def events_def ha_rest_def)
next
  case (connection p ev l)
  obtain new where new: "events (deliver (pr_server p) (ln_server l)) = events (pr_server p) @ new"
    "d_event_tx (sv_db (deliver (pr_server p) (ln_server l))) \<noteq> None"
    "ha_conf (sv_ha (deliver (pr_server p) (ln_server l))) = ha_conf (sv_ha (pr_server p))"
    "ha_open (sv_ha (deliver (pr_server p) (ln_server l))) = ha_open (sv_ha (pr_server p))"
    "ha_uncommitted (sv_ha (deliver (pr_server p) (ln_server l))) = ha_uncommitted (sv_ha (pr_server p))"
    "ha_rx (sv_ha (deliver (pr_server p) (ln_server l))) = ha_rx (sv_ha (pr_server p)) @ new"
    using deliver_sends [OF listener_step_sends [OF connection(3)]] connection(4) unfolding process_inv_def by metis
  then show ?case using connection(1,4) by (auto simp: process_inv_def taken_def)
qed (auto simp: process_inv_def taken_def with_server_def events_def split: result.splits)

lemma process_reachable_inv: "process_reachable io_text to_json net addr cf p \<Longrightarrow> \<exists>rc. process_inv cf rc p"
  by (induction rule: process_reachable.induct) (auto intro: process_start_inv process_inv_step)

section \<open>Properties\<close>

text \<open>
  C34. The start-up of a replica can deadlock: when the event task has got the manager's lock before
  \<open>main\<close> has taken up its role, no task can take a step, so the server never listens. Also later, as
  long as the event task waits in \<open>start\<close>, no registration and no heartbeat is answered, and it waits
  until some client's change is recorded.
\<close>

theorem replica_startup_deadlock:
  assumes "process_reachable io_text to_json net addr cf p" and "pr_event p = ERecv"
  shows "(pr_main p = MRole \<longrightarrow> (\<nexists>ev q. process_step io_text to_json net addr ev p q)) \<and>
    (\<forall>ev q. process_step io_text to_json net addr (Connection ev) p q \<longrightarrow> \<not> locks_manager ev) \<and>
    (\<forall>ev q. process_step io_text to_json net addr ev p q \<and> events (pr_server p) = [] \<longrightarrow> pr_event q = ERecv)"
proof -
  obtain rc where inv: "process_inv cf rc p" using process_reachable_inv [OF assms(1)] by blast
  then have locked: "pr_locked p" using assms(2) by (simp add: process_inv_def)
  have wait: "ha_start waited io_text to_json net (sv_ha (pr_server p), w) = None" if "events (pr_server p) = []" for waited w
    using that inv assms(2) by (simp add: ha_start_def process_inv_def)
  have idle: "events (pr_server p) = []" "\<not> pr_heartbeat p" if "pr_main p = MRole" using that inv by (simp_all add: process_inv_def)
  have "\<not> process_step io_text to_json net addr ev p q" if "pr_main p = MRole" for ev q
    using that locked assms(2) wait idle by (auto elim!: process_stepE)
  moreover have "\<not> locks_manager ev" if "process_step io_text to_json net addr (Connection ev) p q" for ev q
    using that locked by (auto elim!: process_stepE)
  moreover have "pr_event q = ERecv" if "process_step io_text to_json net addr ev p q" "events (pr_server p) = []" for ev q
    using that assms(2) wait by (auto simp: with_server_def elim!: process_stepE)
  ultimately show ?thesis by blast
qed

text \<open>A database opened without a file.\<close>

lemma opened_empty:
  obtains l where "list_inv l" "database_new from_json None (Some []) \<lparr>d_st = fresh_stores l, d_aof = [], d_event_tx = Some []\<rparr>"
proof -
  obtain l0 where l0: "seglist_new True = Ok l0" "list_inv l0" "list_content l0 = (\<lambda>_. None)" by (rule fresh_list)
  have "load_and_apply from_json None (fresh_stores l0) (fresh_stores l0)"
    by (rule load_and_apply.intros [where es = "\<lparr>ae_kv = [], ae_list = [], ae_log = []\<rparr>" and ks = "[]" and ls = "[]" and gs = "[]"])
      (simp_all add: load_aof_separated_def replay_run.joined)
  then show thesis using that [OF l0(2)] database_new.intros [OF l0(1)] by blast
qed

definition leader_conf :: conf where
  "leader_conf = conf_default\<lparr>cf_replica := Some \<lparr>rc_is_replica = True, rc_role = Some Leader, rc_followers = None,
     rc_master = Some ''m'', rc_event_buffer_size = None\<rparr>\<rparr>"

theorem replica_startup_deadlock_witness:
  "\<exists>p :: unit process. process_reachable (\<lambda>_. []) (\<lambda>_. []) (\<lambda>_ _ w. (Ok [], w)) ''a'' leader_conf p \<and> pr_main p = MRole \<and>
     (\<nexists>ev q. process_step (\<lambda>_. []) (\<lambda>_. []) (\<lambda>_ _ w. (Ok [], w)) ''a'' ev p q)"
proof -
  let ?net = "\<lambda>_ _ w. (Ok [], w) :: (io_error, bytes) result \<times> unit"
  obtain l where d: "database_new (\<lambda>_. None) None (Some []) \<lparr>d_st = fresh_stores l, d_aof = [], d_event_tx = Some []\<rparr>"
    by (rule opened_empty)
  obtain p :: "unit process" where p: "main_start (Some leader_conf) (Some \<lparr>d_st = fresh_stores l, d_aof = [], d_event_tx = Some []\<rparr>) () = Ok p"
    "pr_event p = ELock" "pr_main p = MRole" "\<not> pr_locked p"
    by (simp add: main_start_def leader_conf_def)
  let ?q = "p\<lparr>pr_event := ERecv, pr_locked := True\<rparr>"
  have r: "process_reachable (\<lambda>_. []) (\<lambda>_. []) ?net ''a'' leader_conf ?q"
    using process_reachable.step [OF process_reachable.start [OF d p(1)] process_step.lock_taken] p by simp
  then show ?thesis using replica_startup_deadlock [OF r] p(3) by (intro exI [of _ ?q]) simp
qed

text \<open>
  C35. Replication reads one entry: \<open>start\<close> receives a single event and \<open>main\<close> calls it once, so of all
  entries ever recorded at most one leaves the channel, and none when the process is not a replica:
  the others stay in memory. With a buffer of two or more (the default is a hundred) receiving the one
  entry sends nothing to anybody.
\<close>

theorem replication_reads_one_entry:
  assumes "process_reachable io_text to_json net addr cf p"
  shows "\<exists>rc k. cf_replica cf = Some rc \<and> k \<le> 1 \<and> (\<not> rc_is_replica rc \<longrightarrow> k = 0) \<and>
    ha_rx (sv_ha (pr_server p)) = drop k (events (pr_server p)) \<and>
    (buffer_size rc \<ge> 2 \<longrightarrow> ha_uncommitted (sv_ha (pr_server p)) = take k (events (pr_server p)) \<and>
      (\<forall>q. process_step io_text to_json net addr EventTaken p q \<longrightarrow> sv_world (pr_server q) = sv_world (pr_server p)))"
proof -
  obtain rc where inv: "process_inv cf rc p" using process_reachable_inv [OF assms] by blast
  have "sv_world (pr_server q) = sv_world (pr_server p)"
    if "buffer_size rc \<ge> 2" "process_step io_text to_json net addr EventTaken p q" for q
    using that(2)
  proof (cases rule: process_step.cases)
    case (event_taken waited r h w)
    then have "ha_uncommitted (sv_ha (pr_server p)) = []" "cf_replica (ha_conf (sv_ha (pr_server p))) = Some rc"
      using inv by (auto simp: process_inv_def taken_def)
    then have "w = sv_world (pr_server p)"
      using event_taken(4) that(1) by (auto simp: ha_start_def Let_def split: list.splits if_splits)
    then show ?thesis by (simp add: event_taken(1) with_server_def)
  qed
  with inv show ?thesis
    by (intro exI [of _ rc] exI [of _ "taken p"]) (auto simp: process_inv_def taken_def split: if_splits)
qed

text \<open>A server that is not a replica: what a client changes stays in the channel.\<close>

theorem replication_reads_one_entry_witness:
  "\<exists>p :: unit process. process_reachable (\<lambda>_. []) (\<lambda>_. []) (\<lambda>_ _ w. (Ok [], w)) ''a'' conf_default p \<and>
     events (pr_server p) = [KvFlush ''d''] \<and> ha_rx (sv_ha (pr_server p)) = [KvFlush ''d'']"
proof -
  let ?net = "\<lambda>_ _ w. (Ok [], w) :: (io_error, bytes) result \<times> unit"
  let ?R = "process_reachable (\<lambda>_. []) (\<lambda>_. []) ?net ''a'' conf_default"
  obtain l where d: "database_new (\<lambda>_. None) None (Some []) \<lparr>d_st = fresh_stores l, d_aof = [], d_event_tx = Some []\<rparr>"
    by (rule opened_empty)
  let ?d = "\<lparr>d_st = fresh_stores l, d_aof = [], d_event_tx = Some []\<rparr>"
  let ?s = "server_new ?d (ha_new conf_default ha_conf_new [] True) ()"
  define p where "p = (\<lambda>cs (s :: unit server). \<lparr>pr_listener = \<lparr>ln_server = s, ln_conns = cs\<rparr>, pr_locked = False, pr_event = ENone,
    pr_heartbeat = False, pr_main = MListening\<rparr>)"
  have "?R ((p [] ?s)\<lparr>pr_main := MBind\<rparr>)"
    by (rule process_reachable.start [OF d]) (simp add: main_start_def conf_default_def default_replica_def listener_new_def p_def)
  from process_reachable.step [OF this process_step.bound] have 0: "?R (p [] ?s)" by (simp add: p_def)
  have conn: "?R (p cs' (deliver s s'))"
    if "?R (p cs s)" "listener_step ev \<lparr>ln_server = s, ln_conns = cs\<rparr> \<lparr>ln_server = s', ln_conns = cs'\<rparr>" for cs s ev s' cs'
    using process_reachable.step [OF that(1) process_step.connection [where ev = ev and l = "\<lparr>ln_server = s', ln_conns = cs'\<rparr>"]] that(2)
    by (simp add: p_def)
  have same: "deliver s s = s" for s :: "unit server" by (simp add: deliver_def)
  let ?f = "[20, 1, 0, 100] :: bytes"
  let ?c = "\<lparr>cn_got = put_bytes ?f, cn_buf = put_bytes ?f, cn_out = [], cn_open = True\<rparr>"
  have 1: "?R (p [conn_new] ?s)" using conn [OF 0, of Accept ?s "[conn_new]"] listener_step.accept [of "\<lparr>ln_server = ?s, ln_conns = []\<rparr>"] by (simp add: same)
  have 2: "?R (p [?c] ?s)"
    using conn [OF 1, of "Receive 0 (put_bytes ?f)" ?s "[?c]"]
      listener_step.receive [of 0 "\<lparr>ln_server = ?s, ln_conns = [conn_new]\<rparr>" conn_new "put_bytes ?f"]
    by (simp add: same conn_new_def)
  have f: "serve_frame sample_env ?f ?s = (Ok ok_empty, ?s\<lparr>sv_db := snd (db_kv_flush ''d'' ?d)\<rparr>)"
    by (simp add: serve_frame_def flush_parsed handle_command_def on_db_def respond_def db_kv_flush_def server_new_def)
  have dec: "codec_decode (put_bytes ?f @ []) = Frame ?f []" by (rule codec_decode_frame) (simp add: MAX_FRAME_SIZE_def)
  let ?p = "p [?c\<lparr>cn_buf := [], cn_out := ok_empty\<rparr>] (deliver ?s (?s\<lparr>sv_db := snd (db_kv_flush ''d'' ?d)\<rparr>))"
  have 3: "?R ?p"
    using conn [OF 2, of "Answer 0 sample_env ?f"] f dec
      listener_step.answer [of 0 "\<lparr>ln_server = ?s, ln_conns = [?c]\<rparr>" ?c ?f "[]" sample_env ok_empty "?s\<lparr>sv_db := snd (db_kv_flush ''d'' ?d)\<rparr>"]
    by (simp add: codec_encode_def)
  have ev: "events (pr_server ?p) = [KvFlush ''d'']"
    by (simp add: p_def deliver_def events_def db_kv_flush_def send_event_def set_kv_def server_new_def)
  moreover have "ha_rx (sv_ha (pr_server ?p)) = [KvFlush ''d'']"
    using replication_reads_one_entry [OF 3] ev by (auto simp: conf_default_def default_replica_def)
  ultimately show ?thesis using 3 by blast
qed

end
