(* ===== verification/Safety.thy ===== *)
theory Safety
  imports Sessions Db_Props
begin

text \<open>
  Panics of the server. A panic in a handler ends the task of its connection, and after some of them
  a component is left half changed. This theory states which requests cannot panic, for every state the
  server can be in, and that such requests keep the server in such a state: the segments of the list
  have one owner each, every cache agrees with its log, and every log has its active segment.
\<close>

section \<open>Groups\<close>

definition group_fine :: "(bytes \<Rightarrow> u64) \<Rightarrow> group \<Rightarrow> bool" where
  "group_fine h g \<longleftrightarrow> group_ok h g \<and> log_ready (g_log g)"

definition gm_fine :: "(bytes \<Rightarrow> u64) \<Rightarrow> group_manager \<Rightarrow> bool" where
  "gm_fine h m \<longleftrightarrow> gm_ok h m \<and> (\<forall>name g. hm_get (gm_groups m) name = Some g \<longrightarrow> log_ready (g_log g))"

text \<open>Room for \<open>n\<close> more entries: ids, and a segment for each in the worst case.\<close>

definition group_room :: "nat \<Rightarrow> group \<Rightarrow> bool" where
  "group_room n g \<longleftrightarrow> ids_left n g \<and> length (sl_segs (g_log g)) + n \<le> MAX_SEGMENTS"

text \<open>A step of a group that neither panics nor leaves it half changed.\<close>

definition fine_step :: "(bytes \<Rightarrow> u64) \<Rightarrow> group \<Rightarrow> (group_error, 'a) result \<times> group \<Rightarrow> bool" where
  "fine_step h g x \<longleftrightarrow> \<not> is_fault (fst x) \<and> group_fine h (snd x) \<and> g_name (snd x) = g_name g"

lemma append_segments:
  assumes "log_inv s" "append_entry alloc ts p s = (Ok i, s')"
  shows "length (sl_segs s') \<le> Suc (length (sl_segs s))"
  using assms(2)
  by (rule append_entry_OkE) (auto simp: roll_segment_def allocate_seg_def Let_def split: if_splits)

lemma append_with_room:
  assumes "log_inv s" "log_ready s" "length (sl_segs s) < MAX_SEGMENTS" "append_entry True ts p s = (r, s')"
  shows "(\<exists>i. r = Ok i) \<or> r = Err log_error.EntryTooLarge \<and> s' = s"
proof -
  have "r = append_outcome True p s" using append_entry_outcome [OF assms(1,2), of True ts p] assms(4) by simp
  with assms(3,4) append_too_large [of ts p s] show ?thesis by (auto simp: append_outcome_def Let_def split: if_splits)
qed

lemma group_add_fine:
  assumes "group_fine h g" "group_room (Suc n) g" "group_add h True now ts p g = (r, g')"
  shows "fine_step h g (r, g') \<and> (r = Ok i \<longrightarrow> group_room n g')"
proof -
  have ok: "group_ok h g" "log_inv (g_log g)" "log_ready (g_log g)" using assms(1) group_okD by (auto simp: group_fine_def)
  have ids: "sl_next_id (g_log g) \<noteq> - 1" using assms(2) ids_leftD by (auto simp: group_room_def)
  obtain ra l where app: "append_entry True ts p (g_log g) = (ra, l)" by fastforce
  have room: "length (sl_segs (g_log g)) < MAX_SEGMENTS" using assms(2) by (simp add: group_room_def)
  show ?thesis
  proof (cases "\<exists>j. ra = Ok j")
    case True
    then obtain j where j: "ra = Ok j" by blast
    note A = append_entry_Ok [OF ok(2) app [unfolded j] ids]
    have co: "gl.coherent h (g_name g) (g_log g) (g_cache g)" using ok(1) by (simp add: group_ok_def)
    have "\<exists>c. lru_insert now (build_key h (g_name g) j) \<lparr>le_id = j, le_timestamp = ts, le_len = length p, le_payload = p\<rparr> (g_cache g) = Some c \<and>
        gl.coherent h (g_name g) l c"
      by (rule gl.coherent_append [OF co ids]) (use app j in \<open>simp_all add: entry_of_cached_def\<close>)
    then obtain c where c: "r = Ok j" "g' = g\<lparr>g_log := l, g_cache := c\<rparr>" "gl.coherent h (g_name g) l c"
      using assms(3) app j by (auto simp: group_add_def cache_put_def)
    have "group_room n g'"
      using assms(2) append_segments [OF ok(2) app [unfolded j]] A(2) unat_plus_one [OF ids] c(2)
      by (simp add: group_room_def ids_left_def)
    with A(5) c show ?thesis by (simp add: fine_step_def group_fine_def group_ok_def)
  next
    case False
    then have "ra = Err log_error.EntryTooLarge" "l = g_log g" using append_with_room [OF ok(2,3) room app] by auto
    with assms(1,3) app show ?thesis by (auto simp: group_add_def fine_step_def)
  qed
qed

lemma group_add_rest_fine:
  "group_fine h g \<Longrightarrow> group_room (length es) g \<Longrightarrow> fine_step h g (group_add_rest h (\<lambda>_. True) now j es g)"
proof (induction es arbitrary: g j now)
  case (Cons e es)
  obtain ts p where e: "e = (ts, p)" by fastforce
  obtain r g1 where add: "group_add h True (now 0) ts p g = (r, g1)" by fastforce
  have room: "group_room (Suc (length es)) g" using Cons.prems(2) by simp
  note A = group_add_fine [OF Cons.prems(1) room add]
  show ?case
  proof (cases r)
    case (Ok i)
    then have "fine_step h g1 (group_add_rest h (\<lambda>_. True) (\<lambda>n. now (Suc n)) i es g1)" "g_name g1 = g_name g"
      using A Cons.IH by (auto simp: fine_step_def)
    with e add Ok show ?thesis by (simp add: fine_step_def)
  qed (use A e add in \<open>auto simp: fine_step_def\<close>)
qed (simp add: fine_step_def)

lemma group_add_range_fine:
  assumes "group_fine h g" "group_room (length (e # es)) g"
  shows "fine_step h g (group_add_range h (\<lambda>_. True) now e es g)"
proof -
  obtain r g1 where add: "group_add h True (now 0) (fst e) (snd e) g = (r, g1)" by fastforce
  have room: "group_room (Suc (length es)) g" using assms(2) by simp
  note A = group_add_fine [OF assms(1) room add]
  show ?thesis
  proof (cases r)
    case (Ok i)
    then have "fine_step h g1 (group_add_rest h (\<lambda>_. True) (\<lambda>n. now (Suc n)) i es g1)" "g_name g1 = g_name g"
      using A group_add_rest_fine by (auto simp: fine_step_def)
    with add Ok show ?thesis by (auto simp: group_add_range_def fine_step_def split: prod.splits result.splits)
  qed (use A add in \<open>auto simp: group_add_range_def fine_step_def\<close>)
qed

lemma group_read_fine: "group_fine h g \<Longrightarrow> fine_step h g (group_read h now i g)"
proof -
  assume g: "group_fine h g"
  obtain r g' where rd: "group_read h now i g = (r, g')" by fastforce
  have ok: "group_ok h g" using g by (simp add: group_fine_def)
  have "\<not> is_fault (log_read i (g_log g))" using seglog.read_is_lookup [OF group_okD [OF ok]] by (auto split: option.split)
  then show ?thesis using group_read_correct(1-4) [OF ok rd] rd g by (auto simp: fine_step_def group_fine_def)
qed

lemma group_read_range_fine:
  assumes "group_fine h g" "a \<le> b \<or> a = b + 1" "with_capacity_ok 40 (unat (b - a + 1))"
  shows "fine_step h g (group_read_range h now a b g)"
proof -
  obtain r g' where rd: "group_read_range h now a b g = (r, g')" by fastforce
  have ok: "group_ok h g" "gl.coherent h (g_name g) (g_log g) (g_cache g)" using assms(1) by (simp_all add: group_fine_def group_ok_def)
  obtain es x c where rc: "read_cached h now (g_name g) (id_range a b) (g_cache g) = Some (es, x, c)"
    using read_cached_coherent [OF ok(2), of now "id_range a b"] by blast
  have "\<not> is_fault r"
  proof (cases "a \<le> b")
    case True
    then have "\<not> is_fault (log_read_range a b (g_log g))" using log_read_range_spec [OF group_okD [OF ok(1)]] by auto
    with rd rc assms(3) show ?thesis by (auto simp: group_read_range_def Let_def split: if_splits)
  next
    case False
    with group_read_range_inverted [of b a h now g] assms(2) rd show ?thesis by (auto split: if_splits)
  qed
  moreover have "g_log g' = g_log g" using rd rc by (auto simp: group_read_range_def Let_def split: if_splits)
  ultimately show ?thesis using group_read_range_ok [OF ok(1) rd] assms(1) rd by (simp add: fine_step_def group_fine_def)
qed

lemma group_remove_fine: "group_fine h g \<Longrightarrow> fine_step h g (group_remove h n g)"
proof -
  assume g: "group_fine h g"
  then have ok: "group_ok h g" by (simp add: group_fine_def)
  obtain g' where g': "group_remove h n g = (Ok (), g')" "group_ok h g'" "g_name g' = g_name g"
    using group_remove_correct [OF ok, of n] by blast
  have "log_ready (snd (log_trim n (g_log g)))"
    using g by (auto simp: group_fine_def intro: log_trim_correct [OF group_okD [OF ok], of n])
  moreover have "invalidate_all h ids x = Some y \<Longrightarrow> g_log y = g_log x" for ids x y
    by (induction ids arbitrary: x) (auto simp: cache_invalidate_def bind_eq_Some_conv)
  ultimately have "log_ready (g_log g')" using g'(1) by (auto simp: group_remove_def split: prod.splits result.splits option.splits)
  with g' show ?thesis by (simp add: fine_step_def group_fine_def)
qed

section \<open>The manager and the list\<close>

lemma with_group_fine:
  assumes "gm_fine h m" "\<And>g. hm_get (gm_groups m) name = Some g \<Longrightarrow> group_fine h g \<Longrightarrow> fine_step h g (f g)"
  shows "\<not> is_fault (fst (with_group name f m)) \<and> gm_fine h (snd (with_group name f m))"
proof (cases "hm_get (gm_groups m) name")
  case None
  with assms(1) show ?thesis by (simp add: with_group_def)
next
  case (Some g)
  then have g: "group_fine h g" "g_name g = name" using assms(1) gm_okD by (auto simp: gm_fine_def group_fine_def)
  obtain r g' where f: "f g = (r, g')" by fastforce
  with assms(2) [OF Some g(1)] g(2) have "\<not> is_fault r" "group_ok h g'" "log_ready (g_log g')" "g_name g' = name"
    by (simp_all add: fine_step_def group_fine_def)
  with assms(1) Some f show ?thesis by (auto simp: with_group_def gm_fine_def gm_ok_put)
qed

lemma create_group_fine:
  "gm_fine h m \<Longrightarrow> \<not> is_fault (fst (create_group (\<lambda>_. True) name m)) \<and> gm_fine h (snd (create_group (\<lambda>_. True) name m))"
proof -
  assume m: "gm_fine h m"
  obtain l where l: "seglog_new (\<lambda>_. True) = Ok l" "log_ready l" by (rule fresh_log)
  then have g: "group_new (\<lambda>_. True) name = Ok \<lparr>g_name = name, g_log = l, g_cache = lru_new 100000 (30 * 10 ^ 9)\<rparr>"
    by (simp add: group_new_def)
  from m group_new_ok [OF g] l(2) show ?thesis by (auto simp: create_group_def g gm_fine_def gm_ok_put)
qed

lemma drop_group_fine: "gm_fine h m \<Longrightarrow> \<not> is_fault (fst (drop_group name m)) \<and> gm_fine h (snd (drop_group name m))"
  by (auto simp: drop_group_def gm_fine_def gm_ok_def split: if_splits)

definition list_fine :: "(list_error, 'a) result \<times> seg_list \<Rightarrow> bool" where
  "list_fine x \<longleftrightarrow> \<not> is_fault (fst x) \<and> list_inv (snd x)"

lemma push_fine: "list_inv l \<Longrightarrow> list_fine (list_push True k x l)"
proof -
  assume l: "list_inv l"
  obtain r l' where p: "list_push True k x l = (r, l')" by fastforce
  from list_push_correct(1,2) [OF l p] p show ?thesis by (auto simp: list_fine_def)
qed

lemma push_all_fine: "list_inv l \<Longrightarrow> list_fine (push_all (\<lambda>_. True) k xs l)"
proof (induction xs arbitrary: l)
  case (Cons x xs)
  obtain r l' where p: "list_push True k x l = (r, l')" by fastforce
  with push_fine [OF Cons.prems, of k x] have "\<not> is_fault r" "list_inv l'" by (simp_all add: list_fine_def)
  with p Cons.IH show ?case by (cases r) (auto simp: list_fine_def)
qed (simp add: list_fine_def)

lemma push_range_fine: "list_inv l \<Longrightarrow> list_fine (list_push_range (\<lambda>_. True) k xs l)"
proof -
  assume l: "list_inv l"
  obtain l1 where "grow_segs True l = (Ok (), l1)" "list_inv l1" using grow_segs_ok [OF l] by blast
  then show ?thesis using l push_all_fine by (auto simp: list_push_range_def)
qed

lemma pop_fine: "list_inv l \<Longrightarrow> list_fine (list_pop k l)"
  by (rule list_pop_cases [of l k]) (auto simp: list_fine_def)

lemma pop_count_fine: "list_inv l \<Longrightarrow> with_capacity_ok 24 n \<Longrightarrow> list_fine (list_pop_count k n l)"
  using pop_times_inv [of l "n + 1" k] by (cases "pop_times (n + 1) k l") (auto simp: list_pop_count_def list_fine_def simp del: pop_times.simps)

lemma pop_range_fine: "list_inv l \<Longrightarrow> a \<le> b \<Longrightarrow> list_fine (list_pop_range k a b l)"
  by (rule pop_range_cases [of l k a b]) (auto simp: list_fine_def)

lemma flush_fine: "list_inv l \<Longrightarrow> list_fine (list_flush k l)"
  using flush_inv [of l k] by (cases "list_flush k l") (auto simp: list_fine_def)

lemma len_fine: "list_inv l \<Longrightarrow> list_fine (list_len k l)"
  using list_len_correct [of l k] by (auto simp: list_fine_def)

section \<open>The database\<close>

definition stores_fine :: "(bytes \<Rightarrow> u64) \<Rightarrow> stores \<Rightarrow> bool" where
  "stores_fine h st \<longleftrightarrow> list_inv (st_list st) \<and> gm_fine h (st_gm st)"

definition db_fine :: "(bytes \<Rightarrow> u64) \<Rightarrow> (db_error, 'a) result \<times> db \<Rightarrow> bool" where
  "db_fine h x \<longleftrightarrow> \<not> is_fault (fst x) \<and> stores_fine h (d_st (snd x))"

lemma finish_fine [simp]: "db_fine h (finish c e r s) \<longleftrightarrow> \<not> is_fault r \<and> stores_fine h (d_st s)"
  by (cases r) (auto simp: finish_def db_fine_def)

lemma pair_fine [simp]: "db_fine h (r, s) \<longleftrightarrow> \<not> is_fault r \<and> stores_fine h (d_st s)"
  by (simp add: db_fine_def)

lemma stores_fineD: "stores_fine h st \<Longrightarrow> list_inv (st_list st)" "stores_fine h st \<Longrightarrow> gm_fine h (st_gm st)"
  by (simp_all add: stores_fine_def)

lemma gm_op_fine:
  assumes "stores_fine h (d_st s)" "\<not> is_fault (fst x) \<and> gm_fine h (snd x)"
  shows "db_fine h (let (r, m) = x in finish c e r (set_gm m s))" "db_fine h (let (r, m) = x in (map_err c' r, set_gm m s))"
  using assms by (auto simp: stores_fine_def Let_def split: prod.splits)

lemma list_op_fine:
  assumes "stores_fine h (d_st s)" "list_fine x"
  shows "db_fine h (let (r, l) = x in finish c e r (set_list l s))" "db_fine h (let (r, l) = x in (map_err c' r, set_list l s))"
  using assms by (auto simp: stores_fine_def list_fine_def Let_def split: prod.splits)

lemma kv_del_no_fault: "\<not> is_fault (fst (kv_del db key k))"
  by (auto simp: kv_del_def db_del_def split: option.split)

lemma kv_ops_fine:
  assumes "stores_fine h (d_st s)"
  shows "db_fine h (db_kv_set v db key x ttl s)" "db_fine h (db_kv_get v db key s)" "db_fine h (db_kv_del db key s)"
    "db_fine h (db_kv_flush db s)"
  using assms kv_del_no_fault [of db key "st_kv (d_st s)"]
  by (auto simp: db_kv_set_def db_kv_get_def db_kv_del_def db_kv_flush_def stores_fine_def Let_def split: prod.splits)

lemma follower_fine: "stores_fine h (d_st s) \<Longrightarrow> db_fine h (db_apply_aof es s)"
proof -
  have "stores_fine h (d_st (follower_apply v e s)) = stores_fine h (d_st s)" for v e s by (cases e) (simp_all add: stores_fine_def)
  then have "stores_fine h (d_st s) \<Longrightarrow> stores_fine h (d_st (fold (\<lambda>(v, e). follower_apply v e) es s))"
    by (induction es arbitrary: s) auto
  then show "stores_fine h (d_st s) \<Longrightarrow> db_fine h (db_apply_aof es s)" by (simp add: db_apply_aof_def db_fine_def)
qed

section \<open>Requests\<close>

text \<open>
  The network answers heartbeats and batches with something: an empty response makes the manager
  index out of range.
\<close>

definition answers :: "'w network \<Rightarrow> string \<Rightarrow> bool" where
  "answers net addr \<longleftrightarrow>
     (\<forall>inp w. case fst (net addr inp w) of Ok out \<Rightarrow> recv_frame out \<noteq> Ok [] \<and> \<not> is_fault (recv_frame out)
       | Err _ \<Rightarrow> True | Fault _ \<Rightarrow> False)"

fun request_fine :: "'w srv_env \<Rightarrow> 'w server \<Rightarrow> command \<Rightarrow> bool" where
  "request_fine v s (Add grp ts payload) = pred_option (group_room 1) (hm_get (gm_groups (st_gm (d_st (sv_db s)))) grp)"
| "request_fine v s (AddRange grp entries) =
     pred_option (group_room (length entries)) (hm_get (gm_groups (st_gm (d_st (sv_db s)))) grp)"
| "request_fine v s (ReadRange grp start end) =
     ((start \<le> end \<or> start = end + 1) \<and> with_capacity_ok 40 (unat (end - start + 1)))"
| "request_fine v s (LPopRange key start end) = (start \<le> end)"
| "request_fine v s (HaRegisterFollower addr) = answers (se_net v) addr"
| "request_fine v s (HaSync entries) = (decode_entries (se_from_json v) entries \<noteq> None)"
| "request_fine v s _ = True"

lemma ha_send_recv_answers: "answers net addr \<Longrightarrow> \<not> is_fault (expect_ok t m (fst (ha_send_recv (net addr) f w)))"
  unfolding answers_def
  by (drule spec [of _ "u32_le (word_of_nat (length f)) @ f"], drule spec [of _ w])
    (auto simp: ha_send_recv_def expect_ok_def Let_def split: prod.splits result.splits)

lemma register_fine: "answers net addr \<Longrightarrow> \<not> is_fault (fst (register_follower t tj fj file err net addr (h, w)))"
proof -
  assume a: "answers net addr"
  have "\<not> is_fault (fst (heartbeat_follower t net addr w))" "\<not> is_fault (fst (sync_follower t tj net addr es w'))" for es w'
    using ha_send_recv_answers [OF a] by (simp_all add: heartbeat_follower_def sync_follower_def Let_def case_prod_unfold)
  then show ?thesis
    by (auto simp: register_follower_def Let_def is_fault_def split: prod.splits result.splits option.splits) (metis fst_conv)+
qed

lemma on_db_fine: "db_fine h (m (sv_db s)) \<Longrightarrow>
    \<not> is_fault (fst (on_db f m s)) \<and> stores_fine h (d_st (sv_db (snd (on_db f m s))))"
  by (cases "fst (m (sv_db s))") (auto simp: on_db_def db_fine_def respond_def Let_def split: prod.splits)

lemma log_requests_fine:
  assumes st: "stores_fine h (d_st (sv_db s))" and v: "memory_ok (se_env v)" "ev_hash (se_env v) = h"
  shows "db_fine h (db_log_create_group (se_env v) name (sv_db s))" "db_fine h (db_log_drop_group name (sv_db s))"
    "db_fine h (db_log_read (se_env v) name i (sv_db s))" "db_fine h (db_log_remove (se_env v) name i (sv_db s))"
    "request_fine v s (Add name ts p) \<Longrightarrow> db_fine h (db_log_add (se_env v) name ts p (sv_db s))"
    "request_fine v s (AddRange name es) \<Longrightarrow> db_fine h (db_log_add_range (se_env v) name es (sv_db s))"
    "request_fine v s (ReadRange name a b) \<Longrightarrow> db_fine h (db_log_read_range (se_env v) name a b (sv_db s))"
proof -
  let ?m = "st_gm (d_st (sv_db s))"
  have m: "gm_fine h ?m" using st by (rule stores_fineD)
  have al: "ev_alloc (se_env v) = (\<lambda>_. True)" using v(1) by (simp add: memory_ok_def)
  note fine = gm_op_fine(1) [OF st] gm_op_fine(2) [OF st]
  show "db_fine h (db_log_create_group (se_env v) name (sv_db s))"
    unfolding db_log_create_group_def al by (rule fine(1) [OF create_group_fine [OF m]])
  show "db_fine h (db_log_drop_group name (sv_db s))"
    unfolding db_log_drop_group_def by (rule fine(1) [OF drop_group_fine [OF m]])
  show "db_fine h (db_log_read (se_env v) name i (sv_db s))"
    unfolding db_log_read_def v(2) gm_read_def
    by (rule fine(2) [OF with_group_fine [OF m]]) (rule group_read_fine)
  show "db_fine h (db_log_remove (se_env v) name i (sv_db s))"
    unfolding db_log_remove_def v(2) gm_remove_def
    by (rule fine(1) [OF with_group_fine [OF m]]) (rule group_remove_fine)
  show "db_fine h (db_log_add (se_env v) name ts p (sv_db s))" if r: "request_fine v s (Add name ts p)"
    unfolding db_log_add_def v(2) gm_add_def al
  proof (rule fine(1) [OF with_group_fine [OF m]])
    fix g assume g: "hm_get (gm_groups ?m) name = Some g" "group_fine h g"
    with r have "group_room (Suc 0) g" by simp
    with g(2) group_add_fine show "fine_step h g (group_add h True (ev_clock (se_env v) 0) ts p g)" by (metis prod.collapse)
  qed
  show "db_fine h (db_log_add_range (se_env v) name es (sv_db s))" if r: "request_fine v s (AddRange name es)"
    unfolding db_log_add_range_def v(2) gm_add_range_def al
  proof (rule fine(1), cases es)
    case (Cons e es')
    have "fine_step h g (group_add_range h (\<lambda>_. True) (ev_clock (se_env v)) e es' g)"
      if "hm_get (gm_groups ?m) name = Some g" "group_fine h g" for g
      using group_add_range_fine [of h g e es'] that r Cons by simp
    from with_group_fine [OF m this] Cons
    show "\<not> is_fault (fst (case es of [] \<Rightarrow> (Err (GLogError EntryNotFound), ?m)
          | e # es \<Rightarrow> with_group name (group_add_range h (\<lambda>_. True) (ev_clock (se_env v)) e es) ?m)) \<and>
      gm_fine h (snd (case es of [] \<Rightarrow> (Err (GLogError EntryNotFound), ?m)
          | e # es \<Rightarrow> with_group name (group_add_range h (\<lambda>_. True) (ev_clock (se_env v)) e es) ?m))"
      by simp
  qed (use m in simp)
  show "db_fine h (db_log_read_range (se_env v) name a b (sv_db s))" if "request_fine v s (ReadRange name a b)"
    unfolding db_log_read_range_def v(2) gm_read_range_def
    by (rule fine(2) [OF with_group_fine [OF m]], rule group_read_range_fine) (use that in simp_all)
qed

lemma list_requests_fine:
  assumes st: "stores_fine h (d_st (sv_db s))" and v: "memory_ok (se_env v)"
  shows "db_fine h (db_list_push (se_env v) key x (sv_db s))" "db_fine h (db_list_push_range (se_env v) key xs (sv_db s))"
    "db_fine h (db_list_pop key (sv_db s))" "db_fine h (db_list_pop_count key (unat (n :: u32)) (sv_db s))"
    "db_fine h (db_list_len key (sv_db s))" "db_fine h (db_list_flush key (sv_db s))"
    "a \<le> b \<Longrightarrow> db_fine h (db_list_pop_range key a b (sv_db s))"
proof -
  have l: "list_inv (st_list (d_st (sv_db s)))" using st by (rule stores_fineD)
  have g: "ev_grow (se_env v) = (\<lambda>_. True)" using v by (simp add: memory_ok_def)
  have n: "with_capacity_ok 24 (unat n)" using u32_count [of n] by (simp add: with_capacity_ok_def)
  note fine = list_op_fine(1) [OF st] list_op_fine(2) [OF st]
  show "db_fine h (db_list_push (se_env v) key x (sv_db s))"
    unfolding db_list_push_def g by (rule fine(1) [OF push_fine [OF l]])
  show "db_fine h (db_list_push_range (se_env v) key xs (sv_db s))"
    unfolding db_list_push_range_def g by (rule fine(1) [OF push_range_fine [OF l]])
  show "db_fine h (db_list_pop key (sv_db s))" unfolding db_list_pop_def by (rule fine(1) [OF pop_fine [OF l]])
  show "db_fine h (db_list_pop_count key (unat n) (sv_db s))"
    unfolding db_list_pop_count_def by (rule fine(1) [OF pop_count_fine [OF l n]])
  show "db_fine h (db_list_len key (sv_db s))" unfolding db_list_len_def by (rule fine(2) [OF len_fine [OF l]])
  show "db_fine h (db_list_flush key (sv_db s))" unfolding db_list_flush_def by (rule fine(1) [OF flush_fine [OF l]])
  show "db_fine h (db_list_pop_range key a b (sv_db s))" if "a \<le> b"
    unfolding db_list_pop_range_def by (rule fine(1) [OF pop_range_fine [OF l that]])
qed

lemma handle_command_fine:
  assumes st: "stores_fine h (d_st (sv_db s))" and v: "memory_ok (se_env v)" "ev_hash (se_env v) = h"
    and r: "request_fine v s cmd"
  shows "\<not> is_fault (fst (handle_command v cmd s)) \<and> stores_fine h (d_st (sv_db (snd (handle_command v cmd s))))"
proof -
  note fine = log_requests_fine [OF st v] list_requests_fine [OF st v(1)] kv_ops_fine [OF st] follower_fine [OF st]
    on_db_fine [where h = h, THEN conjunct1] on_db_fine [where h = h, THEN conjunct2]
  have gs: "\<not> is_fault (db_log_group_stats grp d)" for grp d
    by (simp add: db_log_group_stats_def gm_group_stats_def split: option.split)
  show ?thesis
  proof (cases cmd)
    case (HaRegisterFollower addr)
    then have "\<not> is_fault (fst (register_follower (se_io_text v) (se_to_json v) (se_from_json v) (se_file v)
        (se_load_err v) (se_net v) addr (sv_ha s, sv_world s)))" using register_fine r by simp
    with HaRegisterFollower st show ?thesis
      by (auto simp: handle_command_def handle_register_def respond_def Let_def split: prod.splits result.splits)
  qed (use st r gs in \<open>auto simp: handle_command_def Let_def handle_sync_def start_pipeline_def ack_heartbeat_def respond_def
      db_kv_keys_def db_log_list_groups_def word_le_nat_alt fine split: prod.splits\<close>)
qed

section \<open>Property\<close>

text \<open>
  C9. No request panics the server without a cause the sender or the machine gives: in a state in which
  every segment of the list has one owner, every cache agrees with its log and every log has its
  active segment, a frame is answered and the server is in such a state again, provided memory is
  available and the frame is not one of these: an inverted or oversized range of ids, an inverted
  range of list positions, a batch of entries that does not decode, a registration whose peer answers
  with an empty frame, or an append to a group that has used up its ids or its segments. A freshly
  opened database is such a state.
\<close>

theorem requests_do_not_panic:
  assumes "stores_fine h (d_st (sv_db s))" and "memory_ok (se_env v)" and "ev_hash (se_env v) = h"
    and "\<And>cmd. parse_command frame = Ok cmd \<Longrightarrow> request_fine v s cmd"
  shows "(\<exists>resp. fst (serve_frame v frame s) = Ok resp) \<and> stores_fine h (d_st (sv_db (snd (serve_frame v frame s)))) \<and>
    (\<forall>l. seglist_new True = Ok l \<longrightarrow> stores_fine h (fresh_stores l))"
proof -
  have resp: "(\<exists>resp. r = Ok resp)" if "\<not> is_fault r" "\<And>e. r \<noteq> Err e" for r :: "(io_error, bytes) result"
    using that by (cases r) auto
  have never: "fst (handle_command v cmd s) \<noteq> Err e" for cmd e
    by (cases cmd) (auto simp: handle_command_def handle_sync_def handle_register_def start_pipeline_def respond_def on_db_def Let_def
        split: prod.splits result.splits option.splits)
  have "(\<exists>resp. fst (serve_frame v frame s) = Ok resp) \<and> stores_fine h (d_st (sv_db (snd (serve_frame v frame s))))"
  proof (cases "parse_command frame")
    case (Ok cmd)
    from handle_command_fine [OF assms(1-3) assms(4) [OF Ok]] never resp Ok show ?thesis by (simp add: serve_frame_def)
  next
    case (Err e)
    with assms(1) show ?thesis by (cases e) (simp add: serve_frame_def)
  next
    case (Fault p)
    then show ?thesis by (simp add: parse_command_no_fault)
  qed
  moreover have "stores_fine h (fresh_stores l)" if "seglist_new True = Ok l" for l
    using seglist_new_inv [OF that] by (simp add: stores_fine_def fresh_stores_def gm_fine_def gm_ok_def gm_new_def)
  ultimately show ?thesis by blast
qed

theorem requests_do_not_panic_witness:
  "\<exists>l s resp. seglist_new True = Ok l \<and>
     s = server_new \<lparr>d_st = fresh_stores l, d_aof = [], d_event_tx = None\<rparr> (ha_new conf_default [] [] True) () \<and>
     fst (serve_frame sample_env [20, 1, 0, 100] s) = Ok resp \<and> \<not> request_fine sample_env s (LPopRange ''k'' 2 1)"
proof -
  obtain l where l: "seglist_new True = Ok l" by (rule fresh_list)
  let ?s = "server_new \<lparr>d_st = fresh_stores l, d_aof = [], d_event_tx = None\<rparr> (ha_new conf_default [] [] True) ()"
  note p = flush_parsed
  have st: "stores_fine (ev_hash (se_env sample_env)) (d_st (sv_db ?s))"
    using seglist_new_inv [OF l] by (simp add: server_new_def stores_fine_def fresh_stores_def gm_fine_def gm_ok_def gm_new_def)
  have "memory_ok (se_env sample_env)" by (simp add: sample_env_def memory_ok_def)
  from requests_do_not_panic [OF st this refl, of "[20, 1, 0, 100]"] p l show ?thesis by (auto simp: word_le_nat_alt)
qed

end
