(* ===== verification/Store.thy ===== *)
theory Store
  imports Safety
begin

text \<open>
  The store as a client sees it: groups are lists of entries with a next id, lists are queues, and the
  key-value part is a map that may forget. Every request of the protocol that reads or changes data has
  its meaning on this store; the handler of the server, over segments, caches, hash tables and the
  linked eviction list, implements it.
\<close>

section \<open>The abstract store\<close>

record store =
  so_groups :: "string \<Rightarrow> (entry list \<times> u64) option"
  so_lists :: "string \<Rightarrow> bytes list option"
  so_kv :: "string \<times> string \<Rightarrow> bytes option"

definition store_empty :: store where
  "store_empty = \<lparr>so_groups = Map.empty, so_lists = Map.empty, so_kv = Map.empty\<rparr>"

definition refused :: "db_error \<Rightarrow> bytes" where
  "refused e = resp_err (db_error_text e)"

definition entry_fits :: "u64 \<times> bytes \<Rightarrow> bool" where
  "entry_fits e \<longleftrightarrow> HEADER_SIZE + length (snd e) \<le> SEGMENT_SIZE"

text \<open>What an operation on a group answers when there is no such group.\<close>

definition on_group :: "(group_error \<Rightarrow> db_error) \<Rightarrow> string \<Rightarrow> (entry list \<Rightarrow> u64 \<Rightarrow> bytes \<times> entry list \<times> u64) \<Rightarrow> store
    \<Rightarrow> bytes \<times> store" where
  "on_group c n f a =
     (case so_groups a n of
        None \<Rightarrow> (refused (c (GroupNotFound n)), a)
      | Some (es, i) \<Rightarrow> (case f es i of (resp, g) \<Rightarrow> (resp, a\<lparr>so_groups := (so_groups a)(n \<mapsto> g)\<rparr>)))"

definition set_queue :: "string \<Rightarrow> bytes list \<Rightarrow> store \<Rightarrow> store" where
  "set_queue k q a = a\<lparr>so_lists := (so_lists a)(k \<mapsto> q)\<rparr>"

fun log_spec :: "command \<Rightarrow> store \<Rightarrow> (bytes \<times> store) option" where
  "log_spec (CreateGroup n) a = Some
     (if so_groups a n = None then (ok_empty, a\<lparr>so_groups := (so_groups a)(n \<mapsto> ([], 1))\<rparr>)
      else (refused (LogCreateGroupError (GroupAlreadyExists n)), a))"
| "log_spec (DropGroup n) a = Some
     (if so_groups a n = None then (refused (LogDropGroupError (GroupNotFound n)), a)
      else (ok_empty, a\<lparr>so_groups := (so_groups a)(n := None)\<rparr>))"
| "log_spec (Add n ts p) a = Some (on_group LogAppendError n (\<lambda>es i.
     if entry_fits (ts, p) then (ok_u64 i, es @ [(i, ts, p)], i + 1)
     else (refused (LogAppendError (GLogError log_error.EntryTooLarge)), es, i)) a)"
| "log_spec (AddRange n xs) a = Some
     (if xs = [] then (refused (LogAppendRangeError (GLogError EntryNotFound)), a)
      else on_group LogAppendRangeError n (\<lambda>es i.
        let fit = takeWhile entry_fits xs in
        (if fit = xs then ok_u64_pair i (i + word_of_nat (length xs - 1))
         else refused (LogAppendRangeError (GLogError log_error.EntryTooLarge)),
         es @ numbered i fit, i + word_of_nat (length fit))) a)"
| "log_spec (Read n j) a = Some (on_group LogReadError n (\<lambda>es i.
     (case map_of es j of Some (ts, p) \<Rightarrow> ok_entry j ts p | None \<Rightarrow> refused (LogReadError (GLogError EntryNotFound)), es, i)) a)"
| "log_spec (ReadRange n x y) a = Some (on_group LogReadRangeError n (\<lambda>es i.
     (ok_entries (filter (\<lambda>(j, e). x \<le> j \<and> j \<le> y) es), es, i)) a)"
| "log_spec (Remove n j) a = Some (on_group LogRemoveError n (\<lambda>es i. (ok_empty, filter (\<lambda>(k, e). j \<le> k) es, i)) a)"
| "log_spec _ a = None"

fun list_spec :: "command \<Rightarrow> store \<Rightarrow> (bytes \<times> store) option" where
  "list_spec (LPush k x) a = Some
     (if item_fits x then (ok_empty, set_queue k (queue_of (so_lists a) k @ [x]) a)
      else (refused (ListPushError list_error.EntryTooLarge), a))"
| "list_spec (LPushRange k xs) a = Some
     (if list_all item_fits xs then ok_empty else refused (ListPushRangeError list_error.EntryTooLarge),
      if takeWhile item_fits xs = [] then a else set_queue k (queue_of (so_lists a) k @ takeWhile item_fits xs) a)"
| "list_spec (LPop k) a = Some
     (case queue_of (so_lists a) k of
        [] \<Rightarrow> (refused (ListPopError KeyNotFound), a)
      | x # q \<Rightarrow> (ok_bytes x, set_queue k q a))"
| "list_spec (LPopRange k x y) a = Some
     (case so_lists a k of
        None \<Rightarrow> (refused (ListPopRangeError KeyNotFound), a)
      | Some q \<Rightarrow>
          if unat y > length q then (refused (ListPopRangeError OutOfRange), a)
          else (ok_bytes_list (drop (unat x) (take (unat y) q)), set_queue k (take (unat x) q @ drop (unat y) q) a))"
| "list_spec (LPopCount k n) a = Some
     (case so_lists a k of
        None \<Rightarrow> (refused (ListPopCountError KeyNotFound), a)
      | Some q \<Rightarrow>
          if unat n < length q then (ok_bytes_list (take (unat n + 1) q), set_queue k (drop (unat n + 1) q) a)
          else (refused (ListPopCountError KeyNotFound), set_queue k [] a))"
| "list_spec (LLen k) a = Some
     (ok_u64 (word_of_nat (length (queue_of (so_lists a) k))), set_queue k (queue_of (so_lists a) k) a)"
| "list_spec (LFlush k) a = Some
     (if so_lists a k = None then (refused (ListFlushError KeyNotFound), a) else (ok_empty, set_queue k [] a))"
| "list_spec _ a = None"

text \<open>
  The meaning of the requests. The log and list requests are functions; the key-value store may forget
  a key (it expired or was evicted), in which case it stays forgotten until it is set again; the order
  of listings, the number of segments, the number of a pipeline and the outcome of a registration are
  free. Entries sent by a leader have no meaning here: they are what another node did.
\<close>

inductive store_step :: "command \<Rightarrow> store \<Rightarrow> bytes \<Rightarrow> store \<Rightarrow> bool" where
  log_request: "log_spec cmd a = Some (resp, a') \<Longrightarrow> store_step cmd a resp a'"
| list_request: "list_spec cmd a = Some (resp, a') \<Longrightarrow> store_step cmd a resp a'"
| names: "distinct ns \<Longrightarrow> set ns = dom (so_groups a) \<Longrightarrow> store_step ListGroups a (ok_group_list ns) a"
| stats: "so_groups a n = Some (es, i) \<Longrightarrow>
    store_step (GroupStats n) a (ok_stats (word_of_nat (length es)) segments i) a"
| no_stats: "so_groups a n = None \<Longrightarrow> store_step (GroupStats n) a (refused (LogGroupStatsError (GroupNotFound n))) a"
| set_key: "store_step (SetKey db k v ttl) a ok_empty (a\<lparr>so_kv := (so_kv a)((db, k) \<mapsto> v)\<rparr>)"
| hit: "so_kv a (db, k) = Some v \<Longrightarrow> store_step (GetKey db k) a (ok_bytes v) a"
| miss: "store_step (GetKey db k) a ok_empty (a\<lparr>so_kv := (so_kv a)((db, k) := None)\<rparr>)"
| deleted: "so_kv a (db, k) = Some v \<Longrightarrow>
    store_step (DelKey db k) a ok_empty (a\<lparr>so_kv := (so_kv a)((db, k) := None)\<rparr>)"
| no_key: "store_step (DelKey db k) a (refused (KVDelError (k @ '' not found''))) (a\<lparr>so_kv := (so_kv a)((db, k) := None)\<rparr>)"
| keys: "distinct ks \<Longrightarrow> set ks \<subseteq> {k. so_kv a (db, k) \<noteq> None} \<Longrightarrow> store_step (Keys db) a (ok_string_list ks) a"
| flush_keys: "store_step (Flush db) a ok_empty (a\<lparr>so_kv := (\<lambda>x. if fst x = db then None else so_kv a x)\<rparr>)"
| pipeline: "store_step StartPipeline a (ok_u64 i) a"
| pipeline_end: "store_step (EndPipeline i) a ok_empty a"
| follower: "store_step (HaRegisterFollower addr) a resp a"
| heartbeat: "store_step HaHeartBeat a (ok_bytes (bytes_of_string ''ACK'')) a"

section \<open>Groups\<close>

definition view :: "group \<Rightarrow> entry list \<times> u64" where
  "view g = (log_entries (g_log g), sl_next_id (g_log g))"

definition gm_view :: "group_manager \<Rightarrow> string \<Rightarrow> (entry list \<times> u64) option" where
  "gm_view m n = map_option view (hm_get (gm_groups m) n)"

lemma gm_view_put [simp]: "gm_view (m\<lparr>gm_groups := hm_insert n g (gm_groups m)\<rparr>) = (gm_view m)(n \<mapsto> view g)"
  by (simp add: gm_view_def fun_eq_iff)

lemma group_add_exact:
  assumes "group_fine h g" "group_room (Suc n) g" "group_add h True now ts p g = (r, g')"
  shows "if entry_fits (ts, p)
    then r = Ok (sl_next_id (g_log g)) \<and> view g' = (fst (view g) @ [(sl_next_id (g_log g), ts, p)], sl_next_id (g_log g) + 1)
    else r = Err (GLogError log_error.EntryTooLarge) \<and> view g' = view g"
proof -
  have ok: "group_ok h g" "log_inv (g_log g)" "log_ready (g_log g)" using assms(1) group_okD by (auto simp: group_fine_def)
  have ids: "sl_next_id (g_log g) \<noteq> - 1" using assms(2) ids_leftD by (auto simp: group_room_def)
  have nf: "\<not> is_fault r" using group_add_fine [OF assms] by (simp add: fine_step_def)
  note A = group_add_correct(3,4) [OF ok(1) ids assms(3) nf]
  obtain ra l where app: "append_entry True ts p (g_log g) = (ra, l)" by fastforce
  have "ra = append_outcome True p (g_log g)" using append_entry_outcome [OF ok(2,3), of True ts p] app by simp
  then have ra: "if entry_fits (ts, p) then \<exists>i. ra = Ok i else ra = Err log_error.EntryTooLarge"
    using assms(2) by (auto simp: append_outcome_def entry_fits_def group_room_def Let_def)
  show ?thesis
  proof (cases "entry_fits (ts, p)")
    case True
    with ra obtain i where "ra = Ok i" by auto
    then obtain j where "r = Ok j" using nf assms(3) app by (auto simp: group_add_def split: option.splits)
    with A(1) [of j] True show ?thesis by (simp add: view_def)
  next
    case False
    with ra have "r = Err (GLogError log_error.EntryTooLarge)" using assms(3) app by (simp add: group_add_def)
    with A(2) False show ?thesis by (simp add: view_def)
  qed
qed

lemma group_add_rest_exact:
  assumes "group_fine h g" "group_room (length xs) g" "group_add_rest h (\<lambda>_. True) now j xs g = (r, g')"
  shows "view g' = (fst (view g) @ numbered (snd (view g)) (takeWhile entry_fits xs),
        snd (view g) + word_of_nat (length (takeWhile entry_fits xs))) \<and>
      r = (if takeWhile entry_fits xs = xs then Ok (if xs = [] then j else snd (view g) + word_of_nat (length xs - 1))
        else Err (GLogError log_error.EntryTooLarge))"
  using assms
proof (induction xs arbitrary: g j now)
  case (Cons x xs)
  obtain ts p where x: "x = (ts, p)" by fastforce
  obtain ra g1 where add: "group_add h True (now 0) ts p g = (ra, g1)" by fastforce
  have room: "group_room (Suc (length xs)) g" using Cons.prems(2) by simp
  note E = group_add_exact [OF Cons.prems(1) room add]
  show ?case
  proof (cases "entry_fits x")
    case True
    then have ra: "ra = Ok (sl_next_id (g_log g))" and v1: "view g1 = (fst (view g) @ [(sl_next_id (g_log g), ts, p)], sl_next_id (g_log g) + 1)"
      using E x by simp_all
    have g1: "group_fine h g1" "group_room (length xs) g1" using group_add_fine [OF Cons.prems(1) room add] ra by (auto simp: fine_step_def)
    have "group_add_rest h (\<lambda>_. True) (\<lambda>n. now (Suc n)) (sl_next_id (g_log g)) xs g1 = (r, g')"
      using Cons.prems(3) x add ra by simp
    from Cons.IH [OF g1 this] v1 True x show ?thesis
      by (cases xs) (simp_all add: view_def algebra_simps)
  next
    case False
    then show ?thesis using E x add Cons.prems(3) by (simp add: view_def)
  qed
qed (simp add: view_def)

lemma group_add_range_exact:
  assumes "group_fine h g" "group_room (length (x # xs)) g" "group_add_range h (\<lambda>_. True) now x xs g = (r, g')"
  shows "view g' = (fst (view g) @ numbered (snd (view g)) (takeWhile entry_fits (x # xs)),
        snd (view g) + word_of_nat (length (takeWhile entry_fits (x # xs)))) \<and>
      r = (if takeWhile entry_fits (x # xs) = x # xs then Ok (snd (view g), snd (view g) + word_of_nat (length xs))
        else Err (GLogError log_error.EntryTooLarge))"
proof -
  obtain rr g2 where rest: "group_add_rest h (\<lambda>_. True) now 0 (x # xs) g = (rr, g2)" by fastforce
  obtain ra g1 where add: "group_add h True (now 0) (fst x) (snd x) g = (ra, g1)" by fastforce
  have room: "group_room (Suc (length xs)) g" using assms(2) by simp
  note E = group_add_rest_exact [OF assms(1,2) rest] group_add_exact [OF assms(1) room add]
  have "(r, g') = (case rr of Ok j \<Rightarrow> (case ra of Ok i \<Rightarrow> (Ok (i, j), g2) | Err y \<Rightarrow> (Err y, g2) | Fault p \<Rightarrow> (Fault p, g2))
      | Err y \<Rightarrow> (Err y, g2) | Fault p \<Rightarrow> (Fault p, g2))"
    using assms(3) by (simp only: group_add_range_rest rest add prod.case)
  then show ?thesis using E by (cases "entry_fits x") (auto simp: view_def split: if_splits)
qed

section \<open>The simulation\<close>

definition models :: "(bytes \<Rightarrow> u64) \<Rightarrow> stores \<Rightarrow> store \<Rightarrow> bool" where
  "models h st a \<longleftrightarrow> stores_fine h st \<and> kv_inv (st_kv st) \<and> so_groups a = gm_view (st_gm st) \<and>
     so_lists a = list_content (st_list st) \<and> kv_content (st_kv st) \<subseteq>\<^sub>m so_kv a"

definition env_fine :: "(bytes \<Rightarrow> u64) \<Rightarrow> 'w srv_env \<Rightarrow> bool" where
  "env_fine h v \<longleftrightarrow> memory_ok (se_env v) \<and> ev_hash (se_env v) = h \<and> iter_ok (ev_iter (se_env v)) \<and> iter_ok (se_iter v)"

text \<open>The handler's answer to a request and the state after it, on both levels.\<close>

definition simulated :: "(bytes \<Rightarrow> u64) \<Rightarrow> command \<Rightarrow> store \<Rightarrow> (io_error, bytes) result \<times> 'w server \<Rightarrow> bool" where
  "simulated h cmd a x \<longleftrightarrow>
     (\<exists>resp a'. fst x = Ok resp \<and> store_step cmd a resp a' \<and> models h (d_st (sv_db (snd x))) a')"

definition reply :: "('a \<Rightarrow> bytes) \<Rightarrow> ('e \<Rightarrow> db_error) \<Rightarrow> ('e, 'a) result \<Rightarrow> bytes" where
  "reply f c r = (case r of Ok x \<Rightarrow> f x | Err e \<Rightarrow> refused (c e) | Fault p \<Rightarrow> [])"

lemma reply_simps [simp]: "reply f c (Ok x) = f x" "reply f c (Err e) = refused (c e)"
  by (simp_all add: reply_def)

lemma finish_result [simp]: "fst (finish c e r d) = map_err c r" "d_st (snd (finish c e r d)) = d_st d"
  by (cases r; simp add: finish_def)+

lemma on_db_run:
  assumes "fst (m (sv_db s)) = map_err c r" "\<not> is_fault r"
  shows "fst (on_db f m s) = Ok (reply f c r)" "d_st (sv_db (snd (on_db f m s))) = d_st (snd (m (sv_db s)))"
  using assms by (cases r; auto simp: on_db_def respond_def refused_def Let_def split: prod.splits)+

lemma sim_gm:
  assumes "models h (d_st (sv_db s)) a" "fst (m (sv_db s)) = map_err c r"
    and "d_st (snd (m (sv_db s))) = (d_st (sv_db s))\<lparr>st_gm := m'\<rparr>" "\<not> is_fault r" "gm_fine h m'"
    and "log_spec cmd a = Some (reply f c r, a\<lparr>so_groups := gm_view m'\<rparr>)"
  shows "simulated h cmd a (on_db f m s)"
  using on_db_run [of m s c r f] assms store_step.log_request [OF assms(6)]
  by (auto simp: simulated_def models_def stores_fine_def intro!: exI [of _ "a\<lparr>so_groups := gm_view m'\<rparr>"])

lemma sim_list:
  assumes "models h (d_st (sv_db s)) a" "fst (m (sv_db s)) = map_err c r"
    and "d_st (snd (m (sv_db s))) = (d_st (sv_db s))\<lparr>st_list := l\<rparr>" "list_fine (r, l)"
    and "list_spec cmd a = Some (reply f c r, a\<lparr>so_lists := list_content l\<rparr>)"
  shows "simulated h cmd a (on_db f m s)"
  using on_db_run [of m s c r f] assms store_step.list_request [OF assms(5)]
  by (auto simp: simulated_def models_def stores_fine_def list_fine_def intro!: exI [of _ "a\<lparr>so_lists := list_content l\<rparr>"])

lemma store_same [simp]: "a\<lparr>so_groups := so_groups a\<rparr> = a" "a\<lparr>so_lists := so_lists a\<rparr> = a" "a\<lparr>so_kv := so_kv a\<rparr> = a"
  by (cases a; simp)+

text \<open>A body that acts on the view of a group as \<open>f\<close> does, through the manager.\<close>

lemma with_group_spec:
  assumes "models h st a" "with_group n f (st_gm st) = (r, m')"
    and body: "\<And>g r g'. hm_get (gm_groups (st_gm st)) n = Some g \<Longrightarrow> group_fine h g \<Longrightarrow> f g = (r, g') \<Longrightarrow>
      fine_step h g (r, g') \<and> S (fst (view g)) (snd (view g)) = (reply F c r, view g')"
  shows "\<not> is_fault r" "gm_fine h m'" "on_group c n S a = (reply F c r, a\<lparr>so_groups := gm_view m'\<rparr>)"
proof -
  have m: "gm_fine h (st_gm st)" "so_groups a = gm_view (st_gm st)" using assms(1) by (simp_all add: models_def stores_fine_def)
  have "\<not> is_fault (fst (with_group n f (st_gm st))) \<and> gm_fine h (snd (with_group n f (st_gm st)))"
    using body by (intro with_group_fine [OF m(1)]) (metis prod.collapse)
  then show "\<not> is_fault r" "gm_fine h m'" using assms(2) by simp_all
  show "on_group c n S a = (reply F c r, a\<lparr>so_groups := gm_view m'\<rparr>)"
  proof (cases "hm_get (gm_groups (st_gm st)) n")
    case None
    then have "r = Err (GroupNotFound n)" "m' = st_gm st" using assms(2) by (simp_all add: with_group_def)
    moreover have "so_groups a n = None" using None m(2) by (simp add: gm_view_def)
    ultimately show ?thesis using m(2) store_same(1) [of a] by (simp add: on_group_def)
  next
    case (Some g)
    then have g: "group_fine h g" using m(1) gm_okD by (auto simp: gm_fine_def group_fine_def)
    obtain g' where g': "f g = (r, g')" "m' = (st_gm st)\<lparr>gm_groups := hm_insert n g' (gm_groups (st_gm st))\<rparr>"
      using assms(2) Some by (auto simp: with_group_def split: prod.splits)
    moreover have "so_groups a n = Some (view g)" using Some m(2) by (simp add: gm_view_def)
    ultimately show ?thesis
      using body [OF Some g g'(1)] m(2) by (cases "view g") (simp add: on_group_def del: fun_upd_apply)
  qed
qed

section \<open>Log requests\<close>

text \<open>
  The requests with an exact answer: none of the causes of a panic, and for reads no two ids of the group
  with the same cache key. The entries of a leader are not a client's request.
\<close>

fun request_exact :: "'w srv_env \<Rightarrow> 'w server \<Rightarrow> command \<Rightarrow> bool" where
  "request_exact v s (Read n i) =
     pred_option (\<lambda>g. no_collision (ev_hash (se_env v)) n (log_entries (g_log g)) i) (hm_get (gm_groups (st_gm (d_st (sv_db s)))) n)"
| "request_exact v s (ReadRange n x y) =
     (request_fine v s (ReadRange n x y) \<and>
      pred_option (\<lambda>g. \<forall>i. x \<le> i \<and> i \<le> y \<longrightarrow> no_collision (ev_hash (se_env v)) n (log_entries (g_log g)) i)
        (hm_get (gm_groups (st_gm (d_st (sv_db s)))) n))"
| "request_exact v s (HaSync entries) = False"
| "request_exact v s cmd = request_fine v s cmd"

lemma request_exact_fine: "request_exact v s cmd \<Longrightarrow> request_fine v s cmd"
  by (cases cmd) simp_all

lemma group_read_range_exact_view:
  assumes "group_fine h g" "x \<le> y \<or> x = y + 1" "with_capacity_ok 40 (unat (y - x + 1))"
    and "\<forall>i. x \<le> i \<and> i \<le> y \<longrightarrow> no_collision h (g_name g) (log_entries (g_log g)) i"
    and "group_read_range h now x y g = (r, g')"
  shows "r = Ok (filter (\<lambda>(j, e). x \<le> j \<and> j \<le> y) (log_entries (g_log g))) \<and> g_log g' = g_log g"
proof (cases "x \<le> y")
  case True
  have ok: "group_ok h g" using assms(1) by (simp add: group_fine_def)
  from group_read_range_correct [OF ok True assms(3,4), of now] assms(5) show ?thesis by auto
next
  case False
  then have "filter (\<lambda>(j, e). x \<le> j \<and> j \<le> y) es = []" for es :: "entry list" by (auto simp: filter_empty_conv)
  with group_read_range_inverted [of y x h now g] False assms(2,5) show ?thesis by (auto split: if_splits)
qed

text \<open>What the requests do to one group, on both levels.\<close>

definition acts :: "(bytes \<Rightarrow> u64) \<Rightarrow> group \<Rightarrow> ('a \<Rightarrow> bytes) \<Rightarrow> (group_error \<Rightarrow> db_error)
    \<Rightarrow> (entry list \<Rightarrow> u64 \<Rightarrow> bytes \<times> entry list \<times> u64) \<Rightarrow> (group \<Rightarrow> (group_error, 'a) result \<times> group) \<Rightarrow> bool" where
  "acts h g F c S f \<longleftrightarrow> fine_step h g (f g) \<and> S (fst (view g)) (snd (view g)) = (reply F c (fst (f g)), view (snd (f g)))"

lemma add_acts:
  assumes "group_fine h g" and room: "group_room (Suc 0) g"
  shows "acts h g ok_u64 LogAppendError (\<lambda>es i. if entry_fits (ts, p) then (ok_u64 i, es @ [(i, ts, p)], i + 1)
     else (refused (LogAppendError (GLogError log_error.EntryTooLarge)), es, i)) (group_add h True now ts p)"
proof -
  obtain r g' where f: "group_add h True now ts p g = (r, g')" by fastforce
  show ?thesis
    using group_add_exact [OF assms(1) room f] group_add_fine [OF assms(1) room f] f by (auto simp: acts_def view_def)
qed

lemma add_range_acts:
  assumes "group_fine h g" "group_room (length (x # xs)) g"
  shows "acts h g (\<lambda>(i, j). ok_u64_pair i j) LogAppendRangeError (\<lambda>es i. let fit = takeWhile entry_fits (x # xs) in
        (if fit = x # xs then ok_u64_pair i (i + word_of_nat (length (x # xs) - 1))
         else refused (LogAppendRangeError (GLogError log_error.EntryTooLarge)),
         es @ numbered i fit, i + word_of_nat (length fit))) (group_add_range h (\<lambda>_. True) now x xs)"
proof -
  obtain r g' where f: "group_add_range h (\<lambda>_. True) now x xs g = (r, g')" by fastforce
  show ?thesis
    using group_add_range_exact [OF assms f] group_add_range_fine [OF assms, of now] f by (simp add: acts_def Let_def)
qed

lemma read_acts:
  assumes "group_fine h g" "no_collision h (g_name g) (log_entries (g_log g)) j"
  shows "acts h g (\<lambda>(i, ts, data). ok_entry i ts data) LogReadError (\<lambda>es i. (case map_of es j of
      Some (ts, p) \<Rightarrow> ok_entry j ts p | None \<Rightarrow> refused (LogReadError (GLogError EntryNotFound)), es, i)) (group_read h now j)"
proof -
  have ok: "group_ok h g" using assms(1) by (simp add: group_fine_def)
  obtain r g' where f: "group_read h now j g = (r, g')" by fastforce
  have "r = map_err GLogError (log_read j (g_log g))" "g_log g' = g_log g"
    using group_read_correct(3,5) [OF ok f] assms(2) by simp_all
  then show ?thesis
    using group_read_fine [OF assms(1), of now j] f seglog.read_is_lookup [OF group_okD [OF ok], of j]
    by (auto simp: acts_def view_def split: option.splits)
qed

lemma read_range_acts:
  assumes "group_fine h g" "x \<le> y \<or> x = y + 1" "with_capacity_ok 40 (unat (y - x + 1))"
    and "\<forall>i. x \<le> i \<and> i \<le> y \<longrightarrow> no_collision h (g_name g) (log_entries (g_log g)) i"
  shows "acts h g ok_entries LogReadRangeError (\<lambda>es i. (ok_entries (filter (\<lambda>(j, e). x \<le> j \<and> j \<le> y) es), es, i))
    (group_read_range h now x y)"
proof -
  obtain r g' where f: "group_read_range h now x y g = (r, g')" by fastforce
  show ?thesis
    using group_read_range_exact_view [OF assms f] group_read_range_fine [OF assms(1-3), of now] f by (simp add: acts_def view_def)
qed

lemma remove_acts:
  assumes "group_fine h g"
  shows "acts h g (\<lambda>_. ok_empty) LogRemoveError (\<lambda>es i. (ok_empty, filter (\<lambda>(k, e). j \<le> k) es, i)) (group_remove h j)"
proof -
  have ok: "group_ok h g" using assms by (simp add: group_fine_def)
  from group_remove_correct [OF ok, of j] group_remove_fine [OF assms, of j] show ?thesis by (auto simp: acts_def view_def)
qed

lemma sim_group:
  assumes M: "models h (d_st (sv_db s)) a"
    and m: "m (sv_db s) = (let (r, m') = with_group n f (st_gm (d_st (sv_db s))) in finish c e r (set_gm m' (sv_db s))) \<or>
      m (sv_db s) = (let (r, m') = with_group n f (st_gm (d_st (sv_db s))) in (map_err c r, set_gm m' (sv_db s)))"
    and S: "log_spec cmd a = Some (on_group c n S a)"
    and body: "\<And>g. hm_get (gm_groups (st_gm (d_st (sv_db s)))) n = Some g \<Longrightarrow> group_fine h g \<Longrightarrow> g_name g = n \<Longrightarrow> acts h g F c S f"
  shows "simulated h cmd a (on_db F m s)"
proof -
  obtain r m' where w: "with_group n f (st_gm (d_st (sv_db s))) = (r, m')" by fastforce
  have name: "g_name g = n" if "hm_get (gm_groups (st_gm (d_st (sv_db s)))) n = Some g" for g
    using M that gm_okD by (auto simp: models_def stores_fine_def gm_fine_def)
  have act: "fine_step h g (x, g') \<and> S (fst (view g)) (snd (view g)) = (reply F c x, view g')"
    if "hm_get (gm_groups (st_gm (d_st (sv_db s)))) n = Some g" "group_fine h g" "f g = (x, g')" for g x g'
    using body [OF that(1,2) name [OF that(1)]] that(3) by (simp add: acts_def)
  have W: "\<not> is_fault r" "gm_fine h m'" "on_group c n S a = (reply F c r, a\<lparr>so_groups := gm_view m'\<rparr>)"
    by (rule with_group_spec [OF M w]; rule act; assumption)+
  have "fst (m (sv_db s)) = map_err c r" "d_st (snd (m (sv_db s))) = (d_st (sv_db s))\<lparr>st_gm := m'\<rparr>"
    using m w by auto
  moreover have "log_spec cmd a = Some (reply F c r, a\<lparr>so_groups := gm_view m'\<rparr>)" unfolding S W(3) ..
  ultimately show ?thesis using sim_gm [OF M _ _ W(1,2)] by blast
qed

lemma create_simulated:
  assumes M: "models h (d_st (sv_db s)) a" and V: "env_fine h v"
  shows "simulated h (CreateGroup n) a (on_db (\<lambda>_. ok_empty) (db_log_create_group (se_env v) n) s)"
proof (rule sim_gm [OF M])
  let ?m = "st_gm (d_st (sv_db s))"
  have m: "gm_fine h ?m" "so_groups a = gm_view ?m" "ev_alloc (se_env v) = (\<lambda>_. True)"
    using M V by (simp_all add: models_def stores_fine_def env_fine_def memory_ok_def)
  show "fst (db_log_create_group (se_env v) n (sv_db s)) = map_err LogCreateGroupError (fst (create_group (\<lambda>_. True) n ?m))"
    "d_st (snd (db_log_create_group (se_env v) n (sv_db s))) = (d_st (sv_db s))\<lparr>st_gm := snd (create_group (\<lambda>_. True) n ?m)\<rparr>"
    by (simp_all add: db_log_create_group_def m(3) split: prod.split)
  show "\<not> is_fault (fst (create_group (\<lambda>_. True) n ?m))" "gm_fine h (snd (create_group (\<lambda>_. True) n ?m))"
    using create_group_fine [OF m(1)] by simp_all
  obtain l where l: "seglog_new (\<lambda>_. True) = Ok l" by (rule fresh_log)
  then obtain g where g: "group_new (\<lambda>_. True) n = Ok g" by (simp add: group_new_def)
  then have vw: "view g = ([], 1)" using group_new_ok [OF g] by (simp add: view_def)
  have none: "so_groups a n = None \<longleftrightarrow> hm_get (gm_groups ?m) n = None" by (simp add: m(2) gm_view_def)
  show "log_spec (CreateGroup n) a = Some (reply (\<lambda>_. ok_empty) LogCreateGroupError (fst (create_group (\<lambda>_. True) n ?m)),
      a\<lparr>so_groups := gm_view (snd (create_group (\<lambda>_. True) n ?m))\<rparr>)"
    by (cases "hm_get (gm_groups ?m) n")
      (simp_all add: create_group_def g none vw m(2) [symmetric] store_same del: fun_upd_apply)
qed

lemma drop_simulated:
  assumes M: "models h (d_st (sv_db s)) a"
  shows "simulated h (DropGroup n) a (on_db (\<lambda>_. ok_empty) (db_log_drop_group n) s)"
proof (rule sim_gm [OF M])
  let ?m = "st_gm (d_st (sv_db s))"
  have m: "gm_fine h ?m" "so_groups a = gm_view ?m" using M by (simp_all add: models_def stores_fine_def)
  show "fst (db_log_drop_group n (sv_db s)) = map_err LogDropGroupError (fst (drop_group n ?m))"
    "d_st (snd (db_log_drop_group n (sv_db s))) = (d_st (sv_db s))\<lparr>st_gm := snd (drop_group n ?m)\<rparr>"
    by (simp_all add: db_log_drop_group_def split: prod.split)
  show "\<not> is_fault (fst (drop_group n ?m))" "gm_fine h (snd (drop_group n ?m))" using drop_group_fine [OF m(1)] by simp_all
  have none: "so_groups a n = None \<longleftrightarrow> hm_get (gm_groups ?m) n = None" by (simp add: m(2) gm_view_def)
  have del: "gm_view (?m\<lparr>gm_groups := hm_remove n (gm_groups ?m)\<rparr>) = (so_groups a)(n := None)"
    by (simp add: m(2) gm_view_def fun_eq_iff)
  show "log_spec (DropGroup n) a = Some (reply (\<lambda>_. ok_empty) LogDropGroupError (fst (drop_group n ?m)),
      a\<lparr>so_groups := gm_view (snd (drop_group n ?m))\<rparr>)"
    by (cases "hm_get (gm_groups ?m) n")
      (simp_all add: drop_group_def none del m(2) [symmetric] store_same del: fun_upd_apply)
qed

lemma log_simulated:
  assumes M: "models h (d_st (sv_db s)) a" and V: "env_fine h v"
  shows "request_exact v s (Add n ts p) \<Longrightarrow> simulated h (Add n ts p) a (on_db ok_u64 (db_log_add (se_env v) n ts p) s)"
    "request_exact v s (AddRange n (x # xs)) \<Longrightarrow>
      simulated h (AddRange n (x # xs)) a (on_db (\<lambda>(i, j). ok_u64_pair i j) (db_log_add_range (se_env v) n (x # xs)) s)"
    "simulated h (AddRange n []) a (on_db (\<lambda>(i, j). ok_u64_pair i j) (db_log_add_range (se_env v) n []) s)"
    "request_exact v s (Read n i) \<Longrightarrow>
      simulated h (Read n i) a (on_db (\<lambda>(i, ts, data). ok_entry i ts data) (db_log_read (se_env v) n i) s)"
    "request_exact v s (ReadRange n y z) \<Longrightarrow>
      simulated h (ReadRange n y z) a (on_db ok_entries (db_log_read_range (se_env v) n y z) s)"
    "simulated h (Remove n i) a (on_db (\<lambda>_. ok_empty) (db_log_remove (se_env v) n i) s)"
proof -
  have v: "ev_hash (se_env v) = h" "ev_alloc (se_env v) = (\<lambda>_. True)" using V by (simp_all add: env_fine_def memory_ok_def)
  have same: "a\<lparr>so_groups := gm_view (st_gm (d_st (sv_db s)))\<rparr> = a" "gm_fine h (st_gm (d_st (sv_db s)))"
    using M store_same(1) [of a] by (simp_all add: models_def stores_fine_def)
  note d = db_log_add_def gm_add_def db_log_add_range_def gm_add_range_def db_log_read_def gm_read_def db_log_read_range_def
    gm_read_range_def db_log_remove_def gm_remove_def v
  show "request_exact v s (Add n ts p) \<Longrightarrow> simulated h (Add n ts p) a (on_db ok_u64 (db_log_add (se_env v) n ts p) s)"
    by (rule sim_group [OF M, where f = "group_add h True (ev_clock (se_env v) 0) ts p" and c = LogAppendError and e = "LogAdd n ts p"])
      (auto simp: d intro!: add_acts)
  show "request_exact v s (AddRange n (x # xs)) \<Longrightarrow>
      simulated h (AddRange n (x # xs)) a (on_db (\<lambda>(i, j). ok_u64_pair i j) (db_log_add_range (se_env v) n (x # xs)) s)"
    by (rule sim_group [OF M, where f = "group_add_range h (\<lambda>_. True) (ev_clock (se_env v)) x xs" and c = LogAppendRangeError
          and e = "LogAddRange n (x # xs)" and S = "\<lambda>es i. let fit = takeWhile entry_fits (x # xs) in
        (if fit = x # xs then ok_u64_pair i (i + word_of_nat (length (x # xs) - 1))
         else refused (LogAppendRangeError (GLogError log_error.EntryTooLarge)),
         es @ numbered i fit, i + word_of_nat (length fit))"])
      (auto simp: d simp del: takeWhile.simps takeWhile_eq_all_conv intro!: add_range_acts)
  show "simulated h (AddRange n []) a (on_db (\<lambda>(i, j). ok_u64_pair i j) (db_log_add_range (se_env v) n []) s)"
    using same by (intro sim_gm [OF M, where r = "Err (GLogError EntryNotFound)" and m' = "st_gm (d_st (sv_db s))" and c = LogAppendRangeError])
      (simp_all add: d)
  show "request_exact v s (Read n i) \<Longrightarrow>
      simulated h (Read n i) a (on_db (\<lambda>(i, ts, data). ok_entry i ts data) (db_log_read (se_env v) n i) s)"
    by (rule sim_group [OF M, where f = "group_read h (ev_clock (se_env v) 0) i" and c = LogReadError])
      (auto simp: d intro!: read_acts)
  show "request_exact v s (ReadRange n y z) \<Longrightarrow>
      simulated h (ReadRange n y z) a (on_db ok_entries (db_log_read_range (se_env v) n y z) s)"
    by (rule sim_group [OF M, where f = "group_read_range h (ev_clock (se_env v)) y z" and c = LogReadRangeError])
      (auto simp: d intro!: read_range_acts)
  show "simulated h (Remove n i) a (on_db (\<lambda>_. ok_empty) (db_log_remove (se_env v) n i) s)"
    by (rule sim_group [OF M, where f = "group_remove h i" and c = LogRemoveError and e = "LogRemove n i"])
      (auto simp: d intro!: remove_acts)
qed

section \<open>List requests\<close>

lemma pop_times_drained:
  assumes "list_inv l" "list_content l k = Some q" "length q < n"
  shows "\<exists>l'. pop_times n k l = (Err KeyNotFound, l') \<and> list_inv l' \<and> list_content l' = (list_content l)(k \<mapsto> [])"
  using assms
proof (induction n arbitrary: l q)
  case (Suc n)
  show ?case
  proof (cases q)
    case Nil
    with Suc.prems seglist.pop_none [of l k] show ?thesis by (simp add: queue_of_def fun_upd_idem)
  next
    case (Cons x q')
    then obtain l1 where l1: "list_pop k l = (Ok x, l1)" "list_inv l1" "list_content l1 = (list_content l)(k \<mapsto> q')"
      using seglist.pop_some [OF Suc.prems(1)] Suc.prems(2) by blast
    have "list_content l1 k = Some q'" "length q' < n" using l1(3) Suc.prems(3) Cons by simp_all
    from Suc.IH [OF l1(2) this] l1 show ?thesis by (auto simp del: fun_upd_apply)
  qed
qed simp

lemma push_simulated:
  assumes M: "models h (d_st (sv_db s)) a" and V: "env_fine h v"
  shows "simulated h (LPush k x) a (on_db (\<lambda>_. ok_empty) (db_list_push (se_env v) k x) s)"
    "simulated h (LPushRange k xs) a (on_db (\<lambda>_. ok_empty) (db_list_push_range (se_env v) k xs) s)"
proof -
  let ?l = "st_list (d_st (sv_db s))"
  have l: "list_inv ?l" "so_lists a = list_content ?l" "ev_grow (se_env v) = (\<lambda>_. True)"
    using M V by (simp_all add: models_def stores_fine_def env_fine_def memory_ok_def)
  obtain r l' where p: "list_push True k x ?l = (r, l')" by fastforce
  note C = list_push_correct [OF l(1) p]
  have "list_spec (LPush k x) a = Some (reply (\<lambda>_. ok_empty) ListPushError r, a\<lparr>so_lists := list_content l'\<rparr>)"
  proof (cases "item_fits x")
    case True
    then have "r = Ok ()" using C(1) by (simp add: item_fits_def)
    with C(3) True l(2) show ?thesis by (simp add: set_queue_def del: fun_upd_apply)
  next
    case False
    then have "r = Err list_error.EntryTooLarge" using C(1) by (simp add: item_fits_def)
    with C(4) False l(2) store_same(2) [of a] show ?thesis by simp
  qed
  with p push_fine [OF l(1), of k x]
  show "simulated h (LPush k x) a (on_db (\<lambda>_. ok_empty) (db_list_push (se_env v) k x) s)"
    by (intro sim_list [OF M, where r = r and l = l' and c = ListPushError]) (simp_all add: db_list_push_def l(3))
  obtain l' where p: "list_push_range (\<lambda>_. True) k xs ?l = (if list_all item_fits xs then Ok () else Err list_error.EntryTooLarge, l')"
    "list_inv l'" "list_content l' = (if takeWhile item_fits xs = [] then list_content ?l
      else (list_content ?l)(k \<mapsto> queue_of (list_content ?l) k @ takeWhile item_fits xs))"
    using list_push_range_correct [OF l(1)] by blast
  have "list_spec (LPushRange k xs) a = Some (reply (\<lambda>_. ok_empty) ListPushRangeError
      (if list_all item_fits xs then Ok () else Err list_error.EntryTooLarge), a\<lparr>so_lists := list_content l'\<rparr>)"
    using p(3) l(2) store_same(2) [of a] by (auto simp: set_queue_def simp del: fun_upd_apply)
  with p(1,2) show "simulated h (LPushRange k xs) a (on_db (\<lambda>_. ok_empty) (db_list_push_range (se_env v) k xs) s)"
    by (intro sim_list [OF M, where l = l' and c = ListPushRangeError
          and r = "if list_all item_fits xs then Ok () else Err list_error.EntryTooLarge"])
      (simp_all add: db_list_push_range_def l(3) list_fine_def)
qed

lemma pop_simulated:
  assumes M: "models h (d_st (sv_db s)) a"
  shows "simulated h (LPop k) a (on_db ok_bytes (db_list_pop k) s)"
    "x \<le> y \<Longrightarrow> simulated h (LPopRange k x y) a (on_db ok_bytes_list (db_list_pop_range k (unat x) (unat y)) s)"
proof -
  let ?l = "st_list (d_st (sv_db s))"
  have l: "list_inv ?l" "so_lists a = list_content ?l" using M by (simp_all add: models_def stores_fine_def)
  have same: "a\<lparr>so_lists := list_content ?l\<rparr> = a" using l(2) store_same(2) [of a] by simp
  show "simulated h (LPop k) a (on_db ok_bytes (db_list_pop k) s)"
  proof (rule list_pop_cases [OF l(1), of k])
    assume "queue_of (list_content ?l) k = []" "list_pop k ?l = (Err KeyNotFound, ?l)"
    then show ?thesis
      using l same by (intro sim_list [OF M, where r = "Err KeyNotFound" and l = ?l and c = ListPopError])
        (simp_all add: db_list_pop_def list_fine_def)
  next
    fix z q l'
    assume "list_content ?l k = Some (z # q)" "list_pop k ?l = (Ok z, l')" "list_inv l'" "list_content l' = (list_content ?l)(k \<mapsto> q)"
    then show ?thesis
      using l by (intro sim_list [OF M, where r = "Ok z" and l = l' and c = ListPopError])
        (simp_all add: db_list_pop_def list_fine_def queue_of_def set_queue_def del: fun_upd_apply)
  qed
  show "simulated h (LPopRange k x y) a (on_db ok_bytes_list (db_list_pop_range k (unat x) (unat y)) s)" if "x \<le> y"
  proof -
    have le: "unat x \<le> unat y" using that by (simp add: word_le_nat_alt)
    show ?thesis
    proof (rule pop_range_cases [OF l(1), of k "unat x" "unat y"])
      fix q l'
      assume "list_content ?l k = Some q" "unat x \<le> unat y" "unat y \<le> length q" "list_inv l'"
        "list_pop_range k (unat x) (unat y) ?l = (Ok (drop (unat x) (take (unat y) q)), l')"
        "list_content l' = (list_content ?l)(k \<mapsto> take (unat x) q @ drop (unat y) q)"
      then show ?thesis
        using l by (intro sim_list [OF M, where r = "Ok (drop (unat x) (take (unat y) q))" and l = l' and c = ListPopRangeError])
          (simp_all add: db_list_pop_range_def list_fine_def set_queue_def del: fun_upd_apply)
    next
      assume "list_content ?l k = None" "list_pop_range k (unat x) (unat y) ?l = (Err KeyNotFound, ?l)"
      then show ?thesis
        using l same by (intro sim_list [OF M, where r = "Err KeyNotFound" and l = ?l and c = ListPopRangeError])
          (simp_all add: db_list_pop_range_def list_fine_def)
    next
      fix q
      assume "list_content ?l k = Some q" "length q < unat y" "list_pop_range k (unat x) (unat y) ?l = (Err OutOfRange, ?l)"
      then show ?thesis
        using l same by (intro sim_list [OF M, where r = "Err OutOfRange" and l = ?l and c = ListPopRangeError])
          (simp_all add: db_list_pop_range_def list_fine_def)
    qed (use le in simp_all)
  qed
qed

lemma count_simulated:
  assumes M: "models h (d_st (sv_db s)) a"
  shows "simulated h (LPopCount k n) a (on_db ok_bytes_list (db_list_pop_count k (unat n)) s)"
proof -
  let ?l = "st_list (d_st (sv_db s))"
  have l: "list_inv ?l" "so_lists a = list_content ?l" using M by (simp_all add: models_def stores_fine_def)
  have same: "a\<lparr>so_lists := list_content ?l\<rparr> = a" using l(2) store_same(2) [of a] by simp
  have cap: "with_capacity_ok 24 (unat n)" using u32_count [of n] by (simp add: with_capacity_ok_def)
  have pc: "list_pop_count k (unat n) ?l = pop_times (unat n + 1) k ?l" using cap by (simp add: list_pop_count_def del: pop_times.simps)
  consider (none) "list_content ?l k = None" | (enough) q where "list_content ?l k = Some q" "unat n < length q"
    | (short) q where "list_content ?l k = Some q" "length q \<le> unat n" by (metis not_less option.exhaust)
  then show ?thesis
  proof cases
    case none
    then have "pop_times (unat n + 1) k ?l = (Err KeyNotFound, ?l)" using seglist.pop_none [of ?l k] by (simp add: queue_of_def)
    then show ?thesis
      using none l same pc by (intro sim_list [OF M, where r = "Err KeyNotFound" and l = ?l and c = ListPopCountError])
        (simp_all add: db_list_pop_count_def list_fine_def del: pop_times.simps)
  next
    case enough
    have "unat n + 1 \<le> length q" using enough(2) by simp
    then obtain l' where "pop_times (unat n + 1) k ?l = (Ok (take (unat n + 1) q), l')" "list_inv l'"
      "list_content l' = (list_content ?l)(k \<mapsto> drop (unat n + 1) q)"
      using pop_times_enough [OF l(1) enough(1)] by blast
    then show ?thesis
      using enough l pc by (intro sim_list [OF M, where r = "Ok (take (unat n + 1) q)" and l = l' and c = ListPopCountError])
        (simp_all add: db_list_pop_count_def list_fine_def set_queue_def del: pop_times.simps fun_upd_apply)
  next
    case short
    have "length q < unat n + 1" using short(2) by simp
    then obtain l' where "pop_times (unat n + 1) k ?l = (Err KeyNotFound, l')" "list_inv l'" "list_content l' = (list_content ?l)(k \<mapsto> [])"
      using pop_times_drained [OF l(1) short(1)] by blast
    then show ?thesis
      using short l pc by (intro sim_list [OF M, where r = "Err KeyNotFound" and l = l' and c = ListPopCountError])
        (simp_all add: db_list_pop_count_def list_fine_def set_queue_def del: pop_times.simps fun_upd_apply)
  qed
qed

lemma len_flush_simulated:
  assumes M: "models h (d_st (sv_db s)) a"
  shows "simulated h (LLen k) a (on_db (\<lambda>n. ok_u64 (word_of_nat n)) (db_list_len k) s)"
    "simulated h (LFlush k) a (on_db (\<lambda>_. ok_empty) (db_list_flush k) s)"
proof -
  let ?l = "st_list (d_st (sv_db s))"
  have l: "list_inv ?l" "so_lists a = list_content ?l" using M by (simp_all add: models_def stores_fine_def)
  have same: "a\<lparr>so_lists := list_content ?l\<rparr> = a" using l(2) store_same(2) [of a] by simp
  obtain l' where len: "list_len k ?l = (Ok (length (queue_of (list_content ?l) k)), l')" "list_inv l'"
    "list_content l' = (list_content ?l)(k \<mapsto> queue_of (list_content ?l) k)" using list_len_correct [OF l(1)] by blast
  then show "simulated h (LLen k) a (on_db (\<lambda>n. ok_u64 (word_of_nat n)) (db_list_len k) s)"
    using l by (intro sim_list [OF M, where r = "Ok (length (queue_of (list_content ?l) k))" and l = l' and c = ListLenError])
      (simp_all add: db_list_len_def list_fine_def set_queue_def del: fun_upd_apply)
  show "simulated h (LFlush k) a (on_db (\<lambda>_. ok_empty) (db_list_flush k) s)"
  proof (cases "list_content ?l k")
    case None
    then show ?thesis
      using l same seglist.flush_none [OF None] by (intro sim_list [OF M, where r = "Err KeyNotFound" and l = ?l and c = ListFlushError])
        (simp_all add: db_list_flush_def list_fine_def)
  next
    case (Some q)
    then obtain l' where "list_flush k ?l = (Ok (), l')" "list_inv l'" "list_content l' = (list_content ?l)(k \<mapsto> [])"
      using seglist.flush_some [OF l(1) Some] by blast
    then show ?thesis
      using l Some by (intro sim_list [OF M, where r = "Ok ()" and l = l' and c = ListFlushError])
        (simp_all add: db_list_flush_def list_fine_def set_queue_def del: fun_upd_apply)
  qed
qed

section \<open>Key-value requests and listings\<close>

lemma sim_kv:
  assumes "models h (d_st (sv_db s)) a" "fst (m (sv_db s)) = map_err c r"
    and "d_st (snd (m (sv_db s))) = (d_st (sv_db s))\<lparr>st_kv := k\<rparr>" "\<not> is_fault r" "kv_inv k"
    and "store_step cmd a (reply f c r) a'" "kv_content k \<subseteq>\<^sub>m so_kv a'" "so_groups a' = so_groups a" "so_lists a' = so_lists a"
  shows "simulated h cmd a (on_db f m s)"
  using on_db_run [of m s c r f] assms by (auto simp: simulated_def models_def stores_fine_def intro!: exI [of _ a'])

lemma map_le_del: "m \<subseteq>\<^sub>m m' \<Longrightarrow> m(x := None) \<subseteq>\<^sub>m m'(x := None)"
  by (auto simp: map_le_def)

lemma kv_content_del: "kv_content (snd (kv_del db key s)) = (kv_content s)((db, key) := None)"
  by (simp add: fun_eq_iff kv_content_def kv_entry_del)

lemma get_simulated:
  assumes M: "models h (d_st (sv_db s)) a"
  shows "simulated h (GetKey db k) a (on_db (\<lambda>x. case x of Some entry \<Rightarrow> ok_bytes (de_val entry) | None \<Rightarrow> ok_empty)
      (db_kv_get (se_env v) db k) s)"
proof -
  let ?kv = "st_kv (d_st (sv_db s))" and ?e = "se_env v"
  have kv: "kv_inv ?kv" "kv_content ?kv \<subseteq>\<^sub>m so_kv a" using M by (simp_all add: models_def)
  obtain r kv' where g: "kv_get (ev_now ?e 0) (ev_now ?e 1) db k ?kv = (r, kv')" by fastforce
  have inv: "kv_inv kv'" using kv_get_inv [OF kv(1)] g by (metis snd_conv)
  have c: "kv_content kv' = (kv_content ?kv)((db, k) := map_option de_val r)"
    using kv_entry_get [of "ev_now ?e 0" "ev_now ?e 1" db k ?kv] g by (auto simp: fun_eq_iff kv_content_def)
  note sim = sim_kv [OF M, where r = "Ok r" and k = kv' and c = KVGetError]
  show ?thesis
  proof (cases r)
    case None
    have "kv_content kv' \<subseteq>\<^sub>m (so_kv a)((db, k) := None)" using c None map_le_del [OF kv(2)] by simp
    with None g inv store_step.miss [of db k a] show ?thesis
      by (intro sim [where a' = "a\<lparr>so_kv := (so_kv a)((db, k) := None)\<rparr>"]) (simp_all add: db_kv_get_def del: fun_upd_apply)
  next
    case (Some en)
    then have "kv_content ?kv (db, k) = Some (de_val en)"
      using kv_get_result [of "ev_now ?e 0" "ev_now ?e 1" db k ?kv] g by (auto simp: kv_content_def split: option.splits if_splits)
    then have "so_kv a (db, k) = Some (de_val en)" "kv_content kv' = kv_content ?kv"
      using kv(2) c Some by (auto simp: map_le_def dom_def fun_upd_idem)
    with Some g inv kv(2) store_step.hit [of a db k "de_val en"] show ?thesis
      by (intro sim [where a' = a]) (simp_all add: db_kv_get_def)
  qed
qed

lemma kv_simulated:
  assumes M: "models h (d_st (sv_db s)) a" and V: "env_fine h v"
  shows "simulated h (SetKey db k x ttl) a (on_db (\<lambda>_. ok_empty) (db_kv_set (se_env v) db k x t) s)"
    "simulated h (DelKey db k) a (on_db (\<lambda>_. ok_empty) (db_kv_del db k) s)"
    "simulated h (Flush db) a (on_db (\<lambda>_. ok_empty) (db_kv_flush db) s)"
proof -
  let ?kv = "st_kv (d_st (sv_db s))" and ?e = "se_env v"
  have kv: "kv_inv ?kv" "kv_content ?kv \<subseteq>\<^sub>m so_kv a" using M by (simp_all add: models_def)
  have it: "iter_ok (ev_iter ?e)" using V by (simp add: env_fine_def)
  let ?set = "kv_set (ev_iter ?e) (ev_now ?e 0) (ev_now ?e 1) db k x t ?kv"
  have "kv_content ?set \<subseteq>\<^sub>m (kv_content ?kv)((db, k) \<mapsto> x)"
    using kvc.insert_ok [of "ev_iter ?e" "(ev_now ?e 0, ev_now ?e 1, t)" "(db, k)" x ?kv] by simp
  then have "kv_content ?set \<subseteq>\<^sub>m (so_kv a)((db, k) \<mapsto> x)" using map_le_upd [OF kv(2)] by (rule map_le_trans)
  then show "simulated h (SetKey db k x ttl) a (on_db (\<lambda>_. ok_empty) (db_kv_set ?e db k x t) s)"
    using kv_set_inv [OF kv(1) it] store_step.set_key [of db k x ttl a]
    by (intro sim_kv [OF M, where r = "Ok ()" and k = ?set and c = KVSetError and a' = "a\<lparr>so_kv := (so_kv a)((db, k) \<mapsto> x)\<rparr>"])
      (simp_all add: db_kv_set_def del: fun_upd_apply)
  let ?a = "a\<lparr>so_kv := (so_kv a)((db, k) := None)\<rparr>"
  obtain r kv' where d: "kv_del db k ?kv = (r, kv')" by fastforce
  have "r = Ok () \<and> (\<exists>x. kv_content ?kv (db, k) = Some x) \<or> r = Err (k @ '' not found'')"
    using d by (auto simp: kv_del_def db_del_def kv_content_def kv_entry_def split: option.splits prod.splits)
  then have "store_step (DelKey db k) a (reply (\<lambda>_. ok_empty) KVDelError r) ?a" "\<not> is_fault r"
    using kv(2) store_step.deleted store_step.no_key by (auto simp: map_le_def dom_def)
  then show "simulated h (DelKey db k) a (on_db (\<lambda>_. ok_empty) (db_kv_del db k) s)"
    using kv_del_inv [OF kv(1), of db k] kv_content_del [of db k ?kv] map_le_del [OF kv(2)] d
    by (intro sim_kv [OF M, where r = r and k = kv' and c = KVDelError and a' = ?a])
      (simp_all add: db_kv_del_def del: fun_upd_apply)
  have "kv_content (kv_flush db ?kv) \<subseteq>\<^sub>m (\<lambda>x. if fst x = db then None else so_kv a x)"
    using kv(2) by (auto simp: map_le_def dom_def kv_content_def kv_entry_flush)
  then show "simulated h (Flush db) a (on_db (\<lambda>_. ok_empty) (db_kv_flush db) s)"
    using kv_flush_inv [OF kv(1)] store_step.flush_keys [of db a]
    by (intro sim_kv [OF M, where r = "Ok ()" and k = "kv_flush db ?kv" and c = KVFlushError
          and a' = "a\<lparr>so_kv := (\<lambda>x. if fst x = db then None else so_kv a x)\<rparr>"])
      (simp_all add: db_kv_flush_def)
qed

lemma kv_part_same [simp]: "st\<lparr>st_kv := st_kv st\<rparr> = st"
  by (cases st) simp

lemma keys_simulated:
  assumes M: "models h (d_st (sv_db s)) a" and V: "env_fine h v"
  shows "simulated h (Keys db) a (on_db ok_string_list (\<lambda>d. (db_kv_keys (se_env v) db d, d)) s)"
proof -
  let ?kv = "st_kv (d_st (sv_db s))"
  have kv: "kv_inv ?kv" "kv_content ?kv \<subseteq>\<^sub>m so_kv a" using M by (simp_all add: models_def)
  have it: "iter_ok (ev_iter (se_env v))" using V by (simp add: env_fine_def)
  let ?ks = "kv_keys (ev_iter (se_env v)) db ?kv"
  have "distinct ?ks \<and> set ?ks \<subseteq> {k. so_kv a (db, k) \<noteq> None}"
  proof (cases "hm_get (kv_dbs ?kv) db")
    case (Some d)
    then have d: "get_db_mut db ?kv = d" by (simp add: get_db_mut_def)
    then have "hm_ok (kd_entries d)" using kv_inv_db [OF kv(1), of db] by simp
    moreover have "so_kv a (db, k) \<noteq> None" if "k \<in> fst ` set (kd_entries d)" for k
    proof -
      have "hm_get (kd_entries d) k \<noteq> None" using that by (simp add: map_of_eq_None_iff)
      then obtain e where "hm_get (kd_entries d) k = Some e" by blast
      then have "kv_content ?kv (db, k) = Some (de_val e)" by (simp add: kv_content_def kv_entry_def d)
      then show ?thesis using kv(2) by (metis domI map_le_def option.distinct(1))
    qed
    ultimately show ?thesis
      using Some iter_okD [OF it, of "kd_entries d"] by (auto simp: kv_keys_def db_keys_def hm_ok_def)
  qed (simp add: kv_keys_def)
  then show ?thesis
    using kv by (intro sim_kv [OF M, where r = "Ok ?ks" and k = ?kv and c = KVKeysError and a' = a])
      (simp_all add: db_kv_keys_def store_step.keys)
qed

text \<open>A request that only looks at the groups.\<close>

lemma sim_look:
  assumes "models h (d_st (sv_db s)) a" "fst (m (sv_db s)) = map_err c r" "snd (m (sv_db s)) = sv_db s"
    and "\<not> is_fault r" "store_step cmd a (reply f c r) a"
  shows "simulated h cmd a (on_db f m s)"
  using assms by (intro sim_kv [where k = "st_kv (d_st (sv_db s))" and a' = a]) (simp_all add: models_def)

lemma names_simulated:
  assumes M: "models h (d_st (sv_db s)) a" and V: "env_fine h v"
  shows "simulated h ListGroups a (on_db ok_group_list (\<lambda>d. (db_log_list_groups (se_iter v) d, d)) s)"
proof -
  let ?gs = "gm_groups (st_gm (d_st (sv_db s)))"
  have g: "so_groups a = gm_view (st_gm (d_st (sv_db s)))" "gm_fine h (st_gm (d_st (sv_db s)))"
    using M by (simp_all add: models_def stores_fine_def)
  have it: "iter_ok (se_iter v)" using V by (simp add: env_fine_def)
  note iter = iter_okD [OF it, of ?gs]
  have "dom (so_groups a) = dom (hm_get ?gs)" by (auto simp: g(1) gm_view_def)
  then have "set (map fst (se_iter v ?gs)) = dom (so_groups a)" by (simp add: iter(2) dom_map_of_conv_image_fst)
  moreover have "distinct (map fst (se_iter v ?gs))"
    using g(2) iter(4) by (simp add: gm_fine_def gm_ok_def hm_ok_def)
  ultimately show ?thesis
    by (intro sim_look [OF M, where r = "Ok (list_groups (se_iter v) (st_gm (d_st (sv_db s))))" and c = LogGroupStatsError])
      (simp_all add: db_log_list_groups_def list_groups_def store_step.names)
qed

lemma stats_simulated:
  assumes M: "models h (d_st (sv_db s)) a"
  shows "simulated h (GroupStats n) a (on_db (\<lambda>st. ok_stats (gs_total_entries st) (gs_total_segments st) (gs_next_id st))
       (\<lambda>d. (db_log_group_stats n d, d)) s)"
proof (cases "hm_get (gm_groups (st_gm (d_st (sv_db s)))) n")
  case None
  then have "so_groups a n = None" using M by (simp add: models_def gm_view_def)
  with None show ?thesis
    by (intro sim_look [OF M, where r = "Err (GroupNotFound n)" and c = LogGroupStatsError])
      (simp_all add: db_log_group_stats_def gm_group_stats_def store_step.no_stats)
next
  case (Some g)
  have "gm_ok h (st_gm (d_st (sv_db s)))" using M by (simp add: models_def stores_fine_def gm_fine_def)
  then have "log_inv (g_log g)" using Some gm_okD(1) group_okD by blast
  then have "total_entries (g_log g) = word_of_nat (length (log_entries (g_log g)))"
    by (simp add: total_entries_def log_inv_def log_entries_def)
  moreover have "so_groups a n = Some (log_entries (g_log g), sl_next_id (g_log g))"
    using M Some by (simp add: models_def gm_view_def view_def)
  ultimately show ?thesis
    using Some store_step.stats [of a n "log_entries (g_log g)" "sl_next_id (g_log g)" "total_segments (g_log g)"]
    by (intro sim_look [OF M, where c = LogGroupStatsError
          and r = "Ok \<lparr>gs_total_entries = total_entries (g_log g), gs_total_segments = total_segments (g_log g), gs_next_id = sl_next_id (g_log g)\<rparr>"])
      (simp_all add: db_log_group_stats_def gm_group_stats_def)
qed

section \<open>Frames and connections\<close>

lemma other_simulated:
  assumes M: "models h (d_st (sv_db s)) a"
  shows "simulated h StartPipeline a (handle_command v StartPipeline s)"
    "simulated h (EndPipeline i) a (handle_command v (EndPipeline i) s)"
    "simulated h HaHeartBeat a (handle_command v HaHeartBeat s)"
    "answers (se_net v) addr \<Longrightarrow> simulated h (HaRegisterFollower addr) a (handle_command v (HaRegisterFollower addr) s)"
proof -
  show "simulated h (HaRegisterFollower addr) a (handle_command v (HaRegisterFollower addr) s)" if net: "answers (se_net v) addr"
  proof -
    obtain r hw where r: "register_follower (se_io_text v) (se_to_json v) (se_from_json v) (se_file v) (se_load_err v) (se_net v) addr
        (sv_ha s, sv_world s) = (r, hw)" by (rule prod.exhaust)
    then have "\<not> is_fault r" using register_fine [OF net] by (metis fst_conv)
    with r M show ?thesis
      by (cases r; cases hw) (auto simp: simulated_def handle_command_def handle_register_def respond_def
          intro!: exI [of _ a] store_step.follower)
  qed
qed (use M in \<open>auto simp: simulated_def handle_command_def start_pipeline_def ack_heartbeat_def respond_def
      intro!: exI [of _ a] store_step.intros split: prod.split\<close>)

lemma handle_command_simulated:
  assumes M: "models h (d_st (sv_db s)) a" and V: "env_fine h v" and X: "request_exact v s cmd"
  shows "simulated h cmd a (handle_command v cmd s)"
proof (cases cmd)
  case (AddRange n xs)
  then show ?thesis using log_simulated(2,3) [OF M V] X by (cases xs) (simp_all add: handle_command_def)
next
  case StartPipeline then show ?thesis using other_simulated(1) [OF M] by simp
next
  case EndPipeline then show ?thesis using other_simulated(2) [OF M] by simp
next
  case HaHeartBeat then show ?thesis using other_simulated(3) [OF M] by simp
next
  case HaRegisterFollower then show ?thesis using other_simulated(4) [OF M] X by simp
qed (use X in \<open>simp_all add: handle_command_def create_simulated [OF M V] drop_simulated [OF M] log_simulated [OF M V]
      push_simulated [OF M V] pop_simulated [OF M] count_simulated [OF M] len_flush_simulated [OF M]
      get_simulated [OF M] kv_simulated [OF M V] keys_simulated [OF M V] names_simulated [OF M V] stats_simulated [OF M]\<close>)

text \<open>
  A history of the store: the requests in the order in which they take effect, each with its
  connection and its response. A frame that is no request is answered and changes nothing.
\<close>

inductive frame_step :: "bytes \<Rightarrow> store \<Rightarrow> bytes \<Rightarrow> store \<Rightarrow> bool" where
  parsed: "parse_command f = Ok cmd \<Longrightarrow> store_step cmd a resp a' \<Longrightarrow> frame_step f a resp a'"
| refused: "parse_command f = Err (ParseError msg) \<Longrightarrow> frame_step f a (resp_err (''parse error: '' @ msg)) a"

inductive store_history :: "store \<Rightarrow> (nat \<times> bytes \<times> bytes) list \<Rightarrow> store \<Rightarrow> bool" where
  nothing: "store_history a [] a"
| request: "frame_step f a resp a' \<Longrightarrow> store_history a' hist a'' \<Longrightarrow> store_history a ((i, f, resp) # hist) a''"

fun exact_all :: "(bytes \<Rightarrow> u64) \<Rightarrow> (nat \<times> 'w srv_env \<times> bytes) list \<Rightarrow> 'w server \<Rightarrow> bool" where
  "exact_all h [] s = True"
| "exact_all h ((i, v, f) # rs) s =
     (env_fine h v \<and> (case parse_command f of Ok cmd \<Rightarrow> request_exact v s cmd | _ \<Rightarrow> True) \<and>
      exact_all h rs (snd (serve_frame v f s)))"

lemma serve_frame_simulated:
  assumes M: "models h (d_st (sv_db s)) a" and "exact_all h [(i, v, f)] s"
  shows "\<exists>resp a'. fst (serve_frame v f s) = Ok resp \<and> frame_step f a resp a' \<and> models h (d_st (sv_db (snd (serve_frame v f s)))) a'"
proof (cases "parse_command f")
  case (Ok cmd)
  then have "simulated h cmd a (handle_command v cmd s)" using handle_command_simulated [OF M] assms(2) by simp
  with Ok show ?thesis by (auto simp: simulated_def serve_frame_def intro: frame_step.parsed)
next
  case (Err e)
  obtain msg where "e = ParseError msg" by (cases e)
  with Err M frame_step.refused [of f msg a] show ?thesis by (auto simp: serve_frame_def simp del: append.simps)
qed (simp add: parse_command_no_fault)

lemma serve_all_simulated:
  assumes "models h (d_st (sv_db s)) a" and "exact_all h rs s"
  shows "\<exists>hist a'. store_history a hist a' \<and> map (\<lambda>(i, f, _). (i, f)) hist = map (\<lambda>(i, _, f). (i, f)) rs \<and>
    fst (serve_all rs s) = map (\<lambda>(i, _, resp). (i, Ok resp)) hist \<and> models h (d_st (sv_db (snd (serve_all rs s)))) a'"
  using assms
proof (induction rs arbitrary: s a)
  case Nil
  then show ?case by (auto intro!: exI [of _ "[]"] exI [of _ a] store_history.nothing)
next
  case (Cons r rs)
  obtain i v f where r: "r = (i, v, f)" by (cases r)
  obtain resp a1 where 1: "fst (serve_frame v f s) = Ok resp" "frame_step f a resp a1"
    "models h (d_st (sv_db (snd (serve_frame v f s)))) a1"
    using serve_frame_simulated [OF Cons.prems(1), of i v f] Cons.prems(2) r by auto
  from Cons.IH [OF 1(3)] Cons.prems(2) r
  obtain hist a' where "store_history a1 hist a'" "map (\<lambda>(i, f, _). (i, f)) hist = map (\<lambda>(i, _, f). (i, f)) rs"
    "fst (serve_all rs (snd (serve_frame v f s))) = map (\<lambda>(i, _, resp). (i, Ok resp)) hist"
    "models h (d_st (sv_db (snd (serve_all rs (snd (serve_frame v f s)))))) a'" by auto
  with 1 r store_history.request [OF 1(2), of hist a' i] show ?case
    by (intro exI [of _ "(i, f, resp) # hist"] exI [of _ a']) (auto simp: Let_def split: prod.splits)
qed

lemma fresh_models: "seglist_new True = Ok l \<Longrightarrow> models h (fresh_stores l) store_empty"
  using seglist_new_inv [of True l]
  by (auto simp: models_def stores_fine_def fresh_stores_def gm_fine_def gm_ok_def gm_new_def store_empty_def gm_view_def
      kv_inv_def kv_new_def get_db_mut_def kv_content_def kv_entry_def db_new_def hm_ok_def map_le_def fun_eq_iff)

definition answers_on :: "nat \<Rightarrow> (nat \<times> bytes \<times> bytes) list \<Rightarrow> bytes" where
  "answers_on i hist = concat (map (\<lambda>(j, _, resp). if j = i then resp else []) hist)"

lemma responses_on_history: "responses_on i (map (\<lambda>(i, _, resp). (i, Ok resp)) hist) = answers_on i hist"
  by (induction hist) (auto simp: responses_on_def answers_on_def)

text \<open>
  C7. The running server is one store. However the connections interleave, there is one history of the
  abstract store - groups as lists of numbered entries, lists as queues, a key-value map that may forget
  but never invents a value - that has the requests in the order they were handled, and every
  connection has been sent the responses of this history to its own requests. The concrete state
  (segments, allocators, caches, hash tables) stands for the store at the end of the history, and a
  fresh server for the empty one. Assumed of every request: none of the causes of a panic, for reads no
  collision of cache keys, and that it is not a message of a leader.
\<close>

theorem connections_linearizable:
  assumes "listener_run s0 evs l" and "models h (d_st (sv_db s0)) a" and "exact_all h (requests evs) s0"
  shows "(\<exists>hist a'. store_history a hist a' \<and> models h (d_st (sv_db (ln_server l))) a' \<and>
      map (\<lambda>(i, f, _). (i, f)) hist = map (\<lambda>(i, _, f). (i, f)) (requests evs) \<and>
      (\<forall>i < length (ln_conns l). let c = ln_conns l ! i in
         prefix (cn_out c) (answers_on i hist) \<and> (cn_open c \<longrightarrow> cn_out c = answers_on i hist))) \<and>
    (\<forall>q. seglist_new True = Ok q \<longrightarrow> models h (fresh_stores q) store_empty)"
proof -
  obtain hist a' where H: "store_history a hist a'" "map (\<lambda>(i, f, _). (i, f)) hist = map (\<lambda>(i, _, f). (i, f)) (requests evs)"
    "fst (serve_all (requests evs) s0) = map (\<lambda>(i, _, resp). (i, Ok resp)) hist"
    "models h (d_st (sv_db (snd (serve_all (requests evs) s0)))) a'"
    using serve_all_simulated [OF assms(2,3)] by blast
  have inv: "ln_server l = snd (serve_all (requests evs) s0)"
    "\<And>i. i < length (ln_conns l) \<Longrightarrow> conn_inv (requests evs) (fst (serve_all (requests evs) s0)) i (ln_conns l ! i)"
    using listener_run_inv [OF assms(1)] by (auto simp: listener_inv_def split: prod.splits)
  have "prefix (cn_out c) (answers_on i hist) \<and> (cn_open c \<longrightarrow> cn_out c = answers_on i hist)"
    if "i < length (ln_conns l)" "c = ln_conns l ! i" for i c
    using inv(2) [OF that(1)] that(2) by (simp add: conn_inv_def H(3) responses_on_history)
  then have "\<forall>i < length (ln_conns l). let c = ln_conns l ! i in
      prefix (cn_out c) (answers_on i hist) \<and> (cn_open c \<longrightarrow> cn_out c = answers_on i hist)" unfolding Let_def by blast
  moreover have "models h (d_st (sv_db (ln_server l))) a'" using H(4) inv(1) by simp
  ultimately show ?thesis using H(1,2) fresh_models by blast
qed

text \<open>A fresh server, and one connection that creates a group.\<close>

theorem connections_linearizable_witness:
  "\<exists>q s0 evs l hist a'. seglist_new True = Ok q \<and> d_st (sv_db s0) = fresh_stores q \<and> listener_run s0 evs l \<and>
     requests evs = [(0, sample_env, build_cmd_with_group 0x01 ''g'')] \<and> hist = [(0, build_cmd_with_group 0x01 ''g'', ok_empty)] \<and>
     a' = store_empty\<lparr>so_groups := [''g'' \<mapsto> ([], 1)]\<rparr> \<and> models (\<lambda>_. 0) (d_st (sv_db (ln_server l))) a'"
proof -
  obtain q where q: "seglist_new True = Ok q" by (rule fresh_list)
  define s0 where "s0 = server_new \<lparr>d_st = fresh_stores q, d_aof = [], d_event_tx = None\<rparr> (ha_new conf_default [] [] True) ()"
  let ?f = "build_cmd_with_group 0x01 ''g''" and ?v = "sample_env" and ?h = "\<lambda>_. 0"
  have st: "d_st (sv_db s0) = fresh_stores q" by (simp add: s0_def server_new_def)
  have w: "wire_str ''g''" by (simp add: wire_str_def bytes_of_string_def)
  note p = group_request_parsed(1) [OF w]
  have M: "models ?h (d_st (sv_db s0)) store_empty" using fresh_models [OF q] st by simp
  have V: "env_fine ?h ?v" by (simp add: env_fine_def sample_env_def memory_ok_def iter_ok_def)
  then have X: "exact_all ?h [(0, ?v, ?f)] s0" by (simp add: p)
  obtain resp s1 where sf: "serve_frame ?v ?f s0 = (Ok resp, s1)"
    using serve_frame_simulated [OF M X] by (metis prod.collapse)
  have d: "codec_decode (put_bytes ?f) = Frame ?f []"
    using codec_decode_frame [of ?f "[]"] small_frames(1) [OF w w] by simp
  let ?e = "[Accept, Receive 0 (put_bytes ?f), Answer 0 ?v ?f]"
  let ?c = "\<lparr>cn_got = put_bytes ?f, cn_buf = put_bytes ?f, cn_out = [], cn_open = True\<rparr>"
  have 1: "listener_run s0 [Accept] \<lparr>ln_server = s0, ln_conns = [conn_new]\<rparr>"
    using listener_run.stepped [OF listener_run.started listener_step.accept] by (simp add: listener_new_def)
  have "listener_step (Receive 0 (put_bytes ?f)) \<lparr>ln_server = s0, ln_conns = [conn_new]\<rparr> \<lparr>ln_server = s0, ln_conns = [?c]\<rparr>"
    using listener_step.receive [of 0 "\<lparr>ln_server = s0, ln_conns = [conn_new]\<rparr>" conn_new "put_bytes ?f"] by (simp add: conn_new_def)
  note 2 = listener_run.stepped [OF 1 this]
  have "listener_step (Answer 0 ?v ?f) \<lparr>ln_server = s0, ln_conns = [?c]\<rparr>
      \<lparr>ln_server = s1, ln_conns = [?c\<lparr>cn_buf := [], cn_out := codec_encode resp []\<rparr>]\<rparr>"
    using listener_step.answer [of 0 "\<lparr>ln_server = s0, ln_conns = [?c]\<rparr>" ?c ?f "[]" ?v resp s1] d sf by simp
  from listener_run.stepped [OF 2 this]
  have run: "listener_run s0 ?e \<lparr>ln_server = s1, ln_conns = [?c\<lparr>cn_buf := [], cn_out := codec_encode resp []\<rparr>]\<rparr>" by simp
  have rq: "requests ?e = [(0, ?v, ?f)]" by (simp add: requests_def)
  obtain hist a' where H: "store_history store_empty hist a'" "models ?h (d_st (sv_db s1)) a'" "map (\<lambda>(i, f, _). (i, f)) hist = [(0, ?f)]"
    using connections_linearizable [OF run M] X rq by auto
  then obtain r where "hist = [(0, ?f, r)]" "frame_step ?f store_empty r a'"
    by (cases hist) (auto elim!: store_history.cases)
  then have "r = ok_empty" "a' = store_empty\<lparr>so_groups := [''g'' \<mapsto> ([], 1)]\<rparr>"
    by (auto simp: p store_empty_def elim!: frame_step.cases store_step.cases)
  with H q st run rq \<open>hist = _\<close> show ?thesis by fastforce
qed

end
