(* ===== verification/Pipeline_Props.thy ===== *)
theory Pipeline_Props
  imports Pipeline "HOL-Library.Multiset"
begin

text \<open>
  What the pipeline layer guarantees: mutual exclusion of jobs that share a resource, the order in
  which queued jobs are taken, conservation of jobs, the effect of a job that fails half way, and the
  states in which a job waits although nothing holds its resources.
\<close>

section \<open>Resources and locks\<close>

lemma set_first_seen: "set (first_seen seen rs) = set rs - set seen"
  by (induction seen rs rule: first_seen.induct) (auto simp: List.member_iff)

lemma distinct_first_seen: "distinct (first_seen seen rs)"
  by (induction seen rs rule: first_seen.induct) (auto simp: set_first_seen)

lemma unique_resources_set: "set (unique_resources cs) = cmd_resource ` set cs"
  by (simp add: unique_resources_def set_first_seen)

lemma unique_resources_distinct: "distinct (unique_resources cs)"
  by (simp add: unique_resources_def distinct_first_seen)

text \<open>The extra test for mixed batches is implied by the plain one.\<close>

lemma can_acquire_iff: "can_acquire st rs \<longleftrightarrow> (\<forall>r \<in> set rs. \<not> held st r)"
  by (auto simp: can_acquire_def list_ex_iff mixed_blocked_def split: resource.splits)

fun holders :: "resource \<Rightarrow> lock_state \<Rightarrow> u32" where
  "holders RKv st = kv_holders st"
| "holders RList st = list_holders st"
| "holders RLog st = log_holders st"

lemma held_iff: "held st r \<longleftrightarrow> holders r st \<noteq> 0"
  by (cases r) (auto simp: word_neq_0_conv)

lemma holders_acquire_one: "holders r (acquire_one r' st) = (if r = r' then holders r st + 1 else holders r st)"
  by (cases r; cases r') simp_all

lemma holders_release_one: "holders r (release_one r' st) = (if r = r' then saturating_dec (holders r st) else holders r st)"
  by (cases r; cases r') simp_all

lemma holders_acquire:
  "distinct rs \<Longrightarrow> holders r (lock_acquire rs st) = (if r \<in> set rs then holders r st + 1 else holders r st)"
  by (induction rs arbitrary: st) (auto simp: lock_acquire_def holders_acquire_one)

lemma holders_release:
  "distinct rs \<Longrightarrow> holders r (lock_release rs st) = (if r \<in> set rs then saturating_dec (holders r st) else holders r st)"
  by (induction rs arbitrary: st) (auto simp: lock_release_def holders_release_one)

section \<open>Owners of a resource\<close>

fun holding :: "task_pc \<Rightarrow> bool" where
  "holding TRunning = True"
| "holding (TRelease _) = True"
| "holding TPanicked = True"
| "holding _ = False"

definition needs :: "task \<Rightarrow> resource \<Rightarrow> bool" where
  "needs t r \<longleftrightarrow> r \<in> set (qj_resources (tk_job t))"

definition owners :: "task list \<Rightarrow> resource \<Rightarrow> nat set" where
  "owners ts r = {i. i < length ts \<and> holding (tk_pc (ts ! i)) \<and> needs (ts ! i) r}"

lemma owners_set_pc:
  "i < length (sy_tasks s) \<Longrightarrow> owners (sy_tasks (set_pc i pc s)) r =
    (if holding pc \<and> needs (sy_tasks s ! i) r then insert i (owners (sy_tasks s) r)
     else owners (sy_tasks s) r - {i})"
  by (auto simp: owners_def set_pc_def nth_list_update needs_def split: if_splits)

lemma owners_wake_all: "owners (map wake ts) r = owners ts r"
  by (auto simp: owners_def wake_def needs_def split: if_splits)

lemma owners_spawn: "\<not> holding (tk_pc t) \<Longrightarrow> owners (ts @ [t]) r = owners ts r"
  by (auto simp: owners_def nth_append less_Suc_eq)

lemma set_pc_fields [simp]:
  "sy_locks (set_pc i pc s) = sy_locks s" "sy_queue (set_pc i pc s) = sy_queue s"
  "sy_chan (set_pc i pc s) = sy_chan s" "length (sy_tasks (set_pc i pc s)) = length (sy_tasks s)"
  "map tk_job (sy_tasks (set_pc i pc s)) = map tk_job (sy_tasks s)"
proof -
  show "map tk_job (sy_tasks (set_pc i pc s)) = map tk_job (sy_tasks s)"
    by (simp add: set_pc_def map_update) (metis list_update_id map_update)
qed (simp_all add: set_pc_def)

lemma wake_all_fields [simp]:
  "sy_locks (wake_all s) = sy_locks s" "sy_queue (wake_all s) = sy_queue s"
  "sy_chan (wake_all s) = sy_chan s" "map tk_job (sy_tasks (wake_all s)) = map tk_job (sy_tasks s)"
  by (simp_all add: wake_all_def wake_def)

lemma take_job_fields [simp]:
  "sy_locks (take_job j js s) = sy_locks s" "sy_queue (take_job j js s) = enqueue j (sy_queue s)"
  "sy_chan (take_job j js s) = js" "sy_tasks (take_job j js s) = sy_tasks s"
  by (simp_all add: take_job_def)

lemma notify_one_fields:
  assumes "notify_one s t"
  shows "sy_locks t = sy_locks s" "sy_queue t = sy_queue s" "sy_chan t = sy_chan s"
    "map tk_job (sy_tasks t) = map tk_job (sy_tasks s)" "owners (sy_tasks t) r = owners (sy_tasks s) r"
proof -
  have *: "owners (sy_tasks s) r - {i} = owners (sy_tasks s) r" if "tk_pc (sy_tasks s ! i) = TWaiting" for i
    using that by (auto simp: owners_def)
  show "owners (sy_tasks t) r = owners (sy_tasks s) r"
    using assms by cases (simp_all add: owners_set_pc *)
  show "sy_locks t = sy_locks s" "sy_queue t = sy_queue s" "sy_chan t = sy_chan s"
    "map tk_job (sy_tasks t) = map tk_job (sy_tasks s)"
    using assms by (auto elim: notify_one.cases)
qed

section \<open>Mutual exclusion\<close>

text \<open>Every resource is free with no owner, or counted once with exactly one owner.\<close>

definition locks_ok :: "lock_state \<Rightarrow> task list \<Rightarrow> bool" where
  "locks_ok st ts \<longleftrightarrow>
     (\<forall>r. holders r st = 0 \<and> owners ts r = {} \<or> holders r st = 1 \<and> (\<exists>i. owners ts r = {i}))"

definition jobs_ok :: "sys \<Rightarrow> bool" where
  "jobs_ok s \<longleftrightarrow> (\<forall>x \<in> set (sy_queue s) \<union> tk_job ` set (sy_tasks s). x = queued (qj_job x))"

lemma set_enqueue: "set (enqueue j q) = insert (queued j) (set q)"
proof -
  have "set (insert_at n x xs) = insert x (set xs)" for n and x :: queued_job and xs
    by (metis Un_insert_right append_take_drop_id insert_at_def list.simps(15) set_append)
  then show ?thesis by (simp add: enqueue_def Let_def)
qed

lemma try_pop_split:
  "try_pop_runnable st q = Some (x, q') \<Longrightarrow>
   \<exists>a b. q = a @ x # b \<and> q' = a @ b \<and> can_acquire st (qj_resources x) \<and>
     (\<forall>y \<in> set a. \<not> can_acquire st (qj_resources y))"
proof (induction q arbitrary: q')
  case Nil
  then show ?case by simp
next
  case (Cons y q)
  show ?case
  proof (cases "can_acquire st (qj_resources y)")
    case True
    with Cons.prems show ?thesis by (auto intro: exI [of _ "[]"])
  next
    case False
    with Cons.prems obtain r where r: "try_pop_runnable st q = Some (x, r)" "q' = y # r" by auto
    obtain a b where "q = a @ x # b" "r = a @ b" "can_acquire st (qj_resources x)"
      "\<forall>y \<in> set a. \<not> can_acquire st (qj_resources y)"
      using Cons.IH [OF r(1)] by blast
    with False r(2) show ?thesis by (intro exI [of _ "y # a"] exI [of _ b]) auto
  qed
qed

lemma jobs_ok_by:
  assumes "jobs_ok s" and "set (sy_queue t) \<subseteq> set (sy_queue s)" and "map tk_job (sy_tasks t) = map tk_job (sy_tasks s)"
  shows "jobs_ok t"
  using assms list.set_map [of tk_job "sy_tasks t"] list.set_map [of tk_job "sy_tasks s"]
  by (auto simp: jobs_ok_def)

lemma jobs_ok_enqueue:
  assumes "jobs_ok s" and "sy_queue t = enqueue j (sy_queue s)" and "map tk_job (sy_tasks t) = map tk_job (sy_tasks s)"
  shows "jobs_ok t"
  using assms list.set_map [of tk_job "sy_tasks t"] list.set_map [of tk_job "sy_tasks s"]
  by (auto simp: jobs_ok_def set_enqueue queued_def)

lemma jobs_ok_step: "step s t \<Longrightarrow> jobs_ok s \<Longrightarrow> jobs_ok t"
proof (induction rule: step.induct)
  case (receive s j js s')
  then show ?case using notify_one_fields [OF receive(3)] by (auto intro: jobs_ok_enqueue)
next
  case (drain s j js s')
  then show ?case using notify_one_fields [OF drain(3)] by (auto intro: jobs_ok_enqueue)
next
  case (pop s x q)
  then show ?case using try_pop_split [OF pop(2)] by (auto simp: jobs_ok_def)
qed (auto intro: jobs_ok_by)

lemma jobs_ok_distinct:
  "jobs_ok s \<Longrightarrow> i < length (sy_tasks s) \<Longrightarrow> distinct (qj_resources (tk_job (sy_tasks s ! i)))"
proof -
  assume "jobs_ok s" "i < length (sy_tasks s)"
  then have "tk_job (sy_tasks s ! i) = queued (qj_job (tk_job (sy_tasks s ! i)))"
    by (simp add: jobs_ok_def)
  then show ?thesis by (metis queued_def queued_job.select_convs(2) unique_resources_distinct)
qed

lemma locks_ok_acquire:
  assumes "locks_ok st ts" and "distinct rs" and "can_acquire st rs"
    and "\<And>r. owners ts' r = (if r \<in> set rs then insert i (owners ts r) else owners ts r)"
  shows "locks_ok (lock_acquire rs st) ts'"
  using assms by (auto simp: locks_ok_def holders_acquire can_acquire_iff held_iff)

lemma locks_ok_release:
  assumes "locks_ok st ts" and "distinct rs"
    and "\<And>r. owners ts' r = owners ts r - {i}" and "\<And>r. i \<in> owners ts r \<longleftrightarrow> r \<in> set rs"
  shows "locks_ok (lock_release rs st) ts'"
  unfolding locks_ok_def
proof
  fix r
  consider "holders r st = 0" "owners ts r = {}" | k where "holders r st = 1" "owners ts r = {k}"
    using assms(1) by (auto simp: locks_ok_def)
  then show "holders r (lock_release rs st) = 0 \<and> owners ts' r = {} \<or>
      holders r (lock_release rs st) = 1 \<and> (\<exists>i. owners ts' r = {i})"
  proof cases
    case 1
    then show ?thesis using assms(2) assms(3,4) [of r] by (simp add: holders_release)
  next
    case (2 k)
    then show ?thesis
      using assms(2) assms(3,4) [of r] by (cases "i = k") (simp_all add: holders_release saturating_dec_def)
  qed
qed

lemma not_owner: "\<not> holding (tk_pc (ts ! i)) \<Longrightarrow> owners ts r - {i} = owners ts r"
  by (auto simp: owners_def)

lemma owner_insert: "i < length ts \<Longrightarrow> holding (tk_pc (ts ! i)) \<Longrightarrow> needs (ts ! i) r \<Longrightarrow> insert i (owners ts r) = owners ts r"
  by (auto simp: owners_def)

lemma owner_needs: "\<not> needs (ts ! i) r \<Longrightarrow> owners ts r - {i} = owners ts r"
  by (auto simp: owners_def)

lemma owners_same_pc:
  assumes "i < length (sy_tasks s)" and "holding pc = holding (tk_pc (sy_tasks s ! i))"
  shows "owners (sy_tasks (set_pc i pc s)) r = owners (sy_tasks s) r"
proof (cases "holding pc \<and> needs (sy_tasks s ! i) r")
  case True
  with assms show ?thesis by (simp add: owners_set_pc owner_insert)
next
  case False
  then have "owners (sy_tasks s) r - {i} = owners (sy_tasks s) r"
    using assms(2) not_owner owner_needs by blast
  then show ?thesis using owners_set_pc [OF assms(1), of pc r] False by simp
qed

lemma locks_ok_same_pc:
  "i < length (sy_tasks s) \<Longrightarrow> holding pc = holding (tk_pc (sy_tasks s ! i)) \<Longrightarrow>
   locks_ok (sy_locks s) (sy_tasks s) \<Longrightarrow> locks_ok (sy_locks s) (sy_tasks (set_pc i pc s))"
  by (simp add: locks_ok_def owners_same_pc)

lemma locks_ok_step:
  assumes "step s t" and "jobs_ok s" and "locks_ok (sy_locks s) (sy_tasks s)"
  shows "locks_ok (sy_locks t) (sy_tasks t)"
  using assms
proof (induction rule: step.induct)
  case (receive s j js s')
  then show ?case using notify_one_fields [OF receive(3)] by (simp add: locks_ok_def)
next
  case (drain s j js s')
  then show ?case using notify_one_fields [OF drain(3)] by (simp add: locks_ok_def)
next
  case (pop s x q)
  then show ?case by (simp add: locks_ok_def owners_spawn)
next
  case (acquired i s rs)
  let ?s = "s\<lparr>sy_locks := lock_acquire rs (sy_locks s)\<rparr>"
  have "owners (sy_tasks (set_pc i TRunning ?s)) r =
      (if r \<in> set rs then insert i (owners (sy_tasks s) r) else owners (sy_tasks s) r)" for r
    using acquired owners_set_pc [of i ?s TRunning r] by (simp add: not_owner needs_def)
  moreover have "distinct rs" using acquired by (simp add: jobs_ok_distinct)
  ultimately show ?case
    using locks_ok_acquire [OF acquired(6) _ acquired(4)] by simp
next
  case (release i s r)
  let ?rs = "qj_resources (tk_job (sy_tasks s ! i))"
  let ?s = "s\<lparr>sy_locks := lock_release ?rs (sy_locks s)\<rparr>"
  have "owners (sy_tasks (set_pc i (TNotify r) ?s)) r' = owners (sy_tasks s) r' - {i}" for r'
    using release owners_set_pc [of i ?s "TNotify r" r'] by simp
  moreover have "i \<in> owners (sy_tasks s) r' \<longleftrightarrow> r' \<in> set ?rs" for r'
    using release by (simp add: owners_def needs_def)
  moreover have "distinct ?rs" using release by (simp add: jobs_ok_distinct)
  ultimately show ?case
    using locks_ok_release [OF release(4)] by simp
next
  case (notify i s r)
  then show ?case
    using locks_ok_same_pc [of i s "TDone r"] by (simp add: locks_ok_def wake_all_def owners_wake_all)
next
  case (permit i s)
  then show ?case using locks_ok_same_pc [of i "s\<lparr>sy_permit := False\<rparr>" TAcquire] by simp
next
  case (run i s vs r d)
  then show ?case using locks_ok_same_pc [of i "s\<lparr>sy_db := d\<rparr>" "TRelease r"] by simp
next
  case (panic i s vs r d)
  then show ?case using locks_ok_same_pc [of i "s\<lparr>sy_db := d\<rparr>" TPanicked] by simp
qed (simp_all add: locks_ok_same_pc)

lemma reachable_ok: "reachable d s \<Longrightarrow> jobs_ok s \<and> locks_ok (sy_locks s) (sy_tasks s)"
proof (induction rule: reachable.induct)
  case init
  have "holders r lock_default = 0" for r by (cases r) (simp_all add: lock_default_def)
  then show ?case by (simp add: jobs_ok_def locks_ok_def sys_init_def owners_def)
next
  case (step s t)
  then show ?case using jobs_ok_step locks_ok_step by blast
qed

text \<open>
  C18. Mutual exclusion: in every state the pipeline layer can reach, under any interleaving of the
  dispatcher, the job tasks and the submitters, the holder count of every resource is exactly one when
  some task that holds its locks (while it runs, until it releases, or after a panic) needs the resource
  and zero otherwise, and any two different tasks that hold their locks need no common resource.
\<close>

theorem jobs_mutually_exclusive:
  assumes "reachable d s"
  shows "(\<forall>r. holders r (sy_locks s) = (if \<exists>k < length (sy_tasks s). holding (tk_pc (sy_tasks s ! k)) \<and>
      r \<in> cmd_resource ` set (jb_commands (qj_job (tk_job (sy_tasks s ! k)))) then 1 else 0)) \<and>
    (\<forall>i j. i < length (sy_tasks s) \<and> j < length (sy_tasks s) \<and> i \<noteq> j \<and>
       holding (tk_pc (sy_tasks s ! i)) \<and> holding (tk_pc (sy_tasks s ! j)) \<longrightarrow>
       cmd_resource ` set (jb_commands (qj_job (tk_job (sy_tasks s ! i)))) \<inter>
       cmd_resource ` set (jb_commands (qj_job (tk_job (sy_tasks s ! j)))) = {})"
proof -
  have ok: "jobs_ok s" "locks_ok (sy_locks s) (sy_tasks s)" using reachable_ok [OF assms(1)] by simp_all
  have res: "set (qj_resources (tk_job (sy_tasks s ! k))) = cmd_resource ` set (jb_commands (qj_job (tk_job (sy_tasks s ! k))))"
    if "k < length (sy_tasks s)" for k
  proof -
    have "tk_job (sy_tasks s ! k) = queued (qj_job (tk_job (sy_tasks s ! k)))"
      using ok(1) that by (simp add: jobs_ok_def)
    then show ?thesis by (metis queued_def queued_job.select_convs(2) unique_resources_set)
  qed
  have own: "owners (sy_tasks s) r = {k. k < length (sy_tasks s) \<and> holding (tk_pc (sy_tasks s ! k)) \<and>
      r \<in> cmd_resource ` set (jb_commands (qj_job (tk_job (sy_tasks s ! k))))}" for r
    using res by (auto simp: owners_def needs_def)
  have one: "i = j" if "i \<in> owners (sy_tasks s) r" "j \<in> owners (sy_tasks s) r" for i j r
    using ok(2) that by (auto simp: locks_ok_def dest!: spec [of _ r])
  have count: "holders r (sy_locks s) = (if owners (sy_tasks s) r = {} then 0 else 1)" for r
    using ok(2) by (auto simp: locks_ok_def dest!: spec [of _ r])
  show ?thesis
  proof (intro conjI allI impI)
    show "holders r (sy_locks s) = (if \<exists>k < length (sy_tasks s). holding (tk_pc (sy_tasks s ! k)) \<and>
      r \<in> cmd_resource ` set (jb_commands (qj_job (tk_job (sy_tasks s ! k)))) then 1 else 0)" for r
      unfolding count own by auto
    show "cmd_resource ` set (jb_commands (qj_job (tk_job (sy_tasks s ! i)))) \<inter>
      cmd_resource ` set (jb_commands (qj_job (tk_job (sy_tasks s ! j)))) = {}"
      if "i < length (sy_tasks s) \<and> j < length (sy_tasks s) \<and> i \<noteq> j \<and>
        holding (tk_pc (sy_tasks s ! i)) \<and> holding (tk_pc (sy_tasks s ! j))" for i j
      using one [of i _ j] that by (auto simp: own)
  qed
qed

section \<open>Runs\<close>

text \<open>States spelled out, and the steps between them that the runs below take.\<close>

definition mk_sys :: "pipeline_job list \<Rightarrow> dispatcher \<Rightarrow> queued_job list \<Rightarrow> lock_state \<Rightarrow> bool \<Rightarrow> task list \<Rightarrow> db \<Rightarrow> sys" where
  "mk_sys ch di q l p ts b = \<lparr>sy_chan = ch, sy_disp = di, sy_queue = q, sy_locks = l, sy_permit = p,
     sy_tasks = ts, sy_db = b\<rparr>"

lemma mk_sys_fields [simp]:
  "sy_chan (mk_sys ch di q l p ts b) = ch" "sy_disp (mk_sys ch di q l p ts b) = di"
  "sy_queue (mk_sys ch di q l p ts b) = q" "sy_locks (mk_sys ch di q l p ts b) = l"
  "sy_permit (mk_sys ch di q l p ts b) = p" "sy_tasks (mk_sys ch di q l p ts b) = ts"
  "sy_db (mk_sys ch di q l p ts b) = b"
  by (simp_all add: mk_sys_def)

lemma mk_sys_updates [simp]:
  "mk_sys ch di q l p ts b\<lparr>sy_chan := ch'\<rparr> = mk_sys ch' di q l p ts b"
  "mk_sys ch di q l p ts b\<lparr>sy_disp := di'\<rparr> = mk_sys ch di' q l p ts b"
  "mk_sys ch di q l p ts b\<lparr>sy_queue := q'\<rparr> = mk_sys ch di q' l p ts b"
  "mk_sys ch di q l p ts b\<lparr>sy_locks := l'\<rparr> = mk_sys ch di q l' p ts b"
  "mk_sys ch di q l p ts b\<lparr>sy_permit := p'\<rparr> = mk_sys ch di q l p' ts b"
  "mk_sys ch di q l p ts b\<lparr>sy_tasks := ts'\<rparr> = mk_sys ch di q l p ts' b"
  "mk_sys ch di q l p ts b\<lparr>sy_db := b'\<rparr> = mk_sys ch di q l p ts b'"
  "set_pc i pc (mk_sys ch di q l p ts b) = mk_sys ch di q l p (ts[i := (ts ! i)\<lparr>tk_pc := pc\<rparr>]) b"
  "take_job j js (mk_sys ch di q l p ts b) = mk_sys js DDrain (enqueue j q) l p ts b"
  "wake_all (mk_sys ch di q l p ts b) = mk_sys ch di q l p (map wake ts) b"
  by (simp_all add: mk_sys_def set_pc_def take_job_def wake_all_def)

lemma by_step: "reachable d s \<Longrightarrow> step s t \<Longrightarrow> t = t' \<Longrightarrow> reachable d t'"
  using reachable.step by blast

lemma by_init: "reachable d (mk_sys [] DRecv [] lock_default False [] d)"
  using reachable.init [of d] by (simp add: sys_init_def mk_sys_def)

lemma by_submit:
  "reachable d (mk_sys ch di q l p ts b) \<Longrightarrow> length ch < 256 \<Longrightarrow> reachable d (mk_sys (ch @ [j]) di q l p ts b)"
  by (erule by_step, rule step.submit [where j = j]) (simp_all add: CHANNEL_SIZE_def)

lemma by_take:
  "reachable d (mk_sys (j # js) di q l p ts b) \<Longrightarrow> di = DRecv \<or> di = DDrain \<Longrightarrow>
   list_all (\<lambda>t. tk_pc t \<noteq> TWaiting) ts \<Longrightarrow> reachable d (mk_sys js DDrain (enqueue j q) l True ts b)"
proof (erule by_step)
  assume "list_all (\<lambda>t. tk_pc t \<noteq> TWaiting) ts" and di: "di = DRecv \<or> di = DDrain"
  then have n: "notify_one (take_job j js (mk_sys (j # js) di q l p ts b)) (mk_sys js DDrain (enqueue j q) l True ts b)"
    using notify_one.leave_permit [of "mk_sys js DDrain (enqueue j q) l p ts b"] by (simp add: no_waiter_def)
  show "step (mk_sys (j # js) di q l p ts b) (mk_sys js DDrain (enqueue j q) l True ts b)"
    using di step.receive [OF _ _ n] step.drain [OF _ _ n] by auto
qed simp

lemma by_drained: "reachable d (mk_sys [] DDrain q l p ts b) \<Longrightarrow> reachable d (mk_sys [] DPop q l p ts b)"
  by (erule by_step, rule step.drained) simp_all

lemma by_pop:
  "reachable d (mk_sys ch DPop q l p ts b) \<Longrightarrow> try_pop_runnable l q = Some (x, q') \<Longrightarrow>
   reachable d (mk_sys ch DDrain q' l p (ts @ [\<lparr>tk_job = x, tk_pc = TAcquire\<rparr>]) b)"
  by (erule by_step, rule step.pop) simp_all

lemma by_pop_none:
  "reachable d (mk_sys ch DPop q l p ts b) \<Longrightarrow> try_pop_runnable l q = None \<Longrightarrow>
   reachable d (mk_sys ch DRecv q l p ts b)"
  by (erule by_step, rule step.pop_none) simp_all

lemma by_acquired:
  "reachable d (mk_sys ch di q l p ts b) \<Longrightarrow> i < length ts \<Longrightarrow> tk_pc (ts ! i) = TAcquire \<Longrightarrow>
   can_acquire l (qj_resources (tk_job (ts ! i))) \<Longrightarrow>
   reachable d (mk_sys ch di q (lock_acquire (qj_resources (tk_job (ts ! i))) l) p
     (ts[i := (ts ! i)\<lparr>tk_pc := TRunning\<rparr>]) b)"
  by (erule by_step, rule step.acquired [OF _ _ refl, where i = i]) simp_all

lemma by_refused:
  "reachable d (mk_sys ch di q l p ts b) \<Longrightarrow> i < length ts \<Longrightarrow> tk_pc (ts ! i) = TAcquire \<Longrightarrow>
   \<not> can_acquire l (qj_resources (tk_job (ts ! i))) \<Longrightarrow>
   reachable d (mk_sys ch di q l p (ts[i := (ts ! i)\<lparr>tk_pc := TChecked\<rparr>]) b)"
  by (erule by_step, rule step.refused [where i = i]) simp_all

lemma by_permit:
  "reachable d (mk_sys ch di q l True ts b) \<Longrightarrow> i < length ts \<Longrightarrow> tk_pc (ts ! i) = TChecked \<Longrightarrow>
   reachable d (mk_sys ch di q l False (ts[i := (ts ! i)\<lparr>tk_pc := TAcquire\<rparr>]) b)"
  by (erule by_step, rule step.permit [where i = i]) simp_all

lemma by_sleep:
  "reachable d (mk_sys ch di q l False ts b) \<Longrightarrow> i < length ts \<Longrightarrow> tk_pc (ts ! i) = TChecked \<Longrightarrow>
   reachable d (mk_sys ch di q l False (ts[i := (ts ! i)\<lparr>tk_pc := TWaiting\<rparr>]) b)"
  by (erule by_step, rule step.sleep [where i = i]) simp_all

text \<open>A running job to its end, with no other step in between.\<close>

lemma by_finish:
  assumes "reachable d (mk_sys ch di q l p ts b)" and "i < length ts" and "tk_pc (ts ! i) = TRunning"
    and "execute_job vs (jb_commands (qj_job (tk_job (ts ! i)))) b = (r, b')" and "\<not> is_fault r"
  shows "reachable d (mk_sys ch di q (lock_release (qj_resources (tk_job (ts ! i))) l) p
    (map wake (ts[i := (ts ! i)\<lparr>tk_pc := TDone r\<rparr>])) b')"
proof -
  have 1: "reachable d (mk_sys ch di q l p (ts[i := (ts ! i)\<lparr>tk_pc := TRelease r\<rparr>]) b')"
    by (rule by_step [OF assms(1)], rule step.run [where i = i and vs = vs]) (use assms in simp_all)
  have 2: "reachable d (mk_sys ch di q (lock_release (qj_resources (tk_job (ts ! i))) l) p
      (ts[i := (ts ! i)\<lparr>tk_pc := TNotify r\<rparr>]) b')"
    by (rule by_step [OF 1], rule step.release [where i = i and r = r]) (use assms in simp_all)
  show ?thesis
    by (rule by_step [OF 2], rule step.notify [where i = i and r = r]) (use assms in simp_all)
qed

definition kv_job :: "nat \<Rightarrow> pipeline_job" where
  "kv_job n = \<lparr>jb_id = n, jb_commands = [PKvFlush ''a'']\<rparr>"

definition list_job :: "nat \<Rightarrow> pipeline_job" where
  "list_job n = \<lparr>jb_id = n, jb_commands = [PListFlush ''a'']\<rparr>"

abbreviation kv_task :: "nat \<Rightarrow> task_pc \<Rightarrow> task" where
  "kv_task n pc \<equiv> \<lparr>tk_job = queued (kv_job n), tk_pc = pc\<rparr>"

abbreviation list_task :: "nat \<Rightarrow> task_pc \<Rightarrow> task" where
  "list_task n pc \<equiv> \<lparr>tk_job = queued (list_job n), tk_pc = pc\<rparr>"

abbreviation kv_locked :: lock_state where
  "kv_locked \<equiv> lock_default\<lparr>kv_holders := 1\<rparr>"

lemma sample_jobs [simp]:
  "qj_resources (queued (kv_job n)) = [RKv]" "qj_resources (queued (list_job n)) = [RList]"
  "qj_op_count (queued (kv_job n)) = 1" "qj_op_count (queued (list_job n)) = 1"
  "qj_job (queued j) = j" "jb_commands (kv_job n) = [PKvFlush ''a'']" "jb_commands (list_job n) = [PListFlush ''a'']"
  by (simp_all add: queued_def kv_job_def list_job_def unique_resources_def List.member_iff)

lemma holders_default [simp]: "holders r lock_default = 0"
  by (cases r) (simp_all add: lock_default_def)

lemma sample_locks [simp]:
  "can_acquire lock_default rs" "\<not> can_acquire kv_locked [RKv]" "can_acquire kv_locked [RList]"
  "lock_acquire [RKv] lock_default = kv_locked" "lock_release [RKv] kv_locked = lock_default"
  by (auto simp: can_acquire_iff held_iff lock_acquire_def lock_release_def saturating_dec_def)
    (simp_all add: lock_default_def)

lemma enqueue_Nil [simp]: "enqueue j [] = [queued j]"
  by (simp add: enqueue_def insert_at_def Let_def)

lemma kv_job_runs: "execute_job vs [PKvFlush ''a''] b = (Ok (), snd (db_kv_flush ''a'' b))"
  by (simp add: run_command_def db_kv_flush_def)

text \<open>The first job has been taken by the dispatcher and runs.\<close>

lemma run_first: "reachable d (mk_sys [] DDrain [] kv_locked True [kv_task 0 TRunning] d)"
proof -
  have "reachable d (mk_sys [kv_job 0] DRecv [] lock_default False [] d)"
    using by_submit [OF by_init, where j = "kv_job 0"] by simp
  then have "reachable d (mk_sys [] DDrain [queued (kv_job 0)] lock_default True [] d)"
    using by_take by fastforce
  then have "reachable d (mk_sys [] DDrain [] lock_default True [kv_task 0 TAcquire] d)"
    using by_pop [OF by_drained] by fastforce
  from by_acquired [OF this, of 0] show ?thesis by simp
qed

theorem jobs_mutually_exclusive_witness:
  "\<exists>d s. reachable d s \<and> length (sy_tasks s) = 2 \<and> holding (tk_pc (sy_tasks s ! 0)) \<and>
     holding (tk_pc (sy_tasks s ! 1)) \<and>
     cmd_resource ` set (jb_commands (qj_job (tk_job (sy_tasks s ! 0)))) \<inter>
     cmd_resource ` set (jb_commands (qj_job (tk_job (sy_tasks s ! 1)))) = {} \<and>
     holders RKv (sy_locks s) = 1 \<and> holders RLog (sy_locks s) = 0"
proof -
  fix d :: db
  have "reachable d (mk_sys [list_job 1] DDrain [] kv_locked True [kv_task 0 TRunning] d)"
    using by_submit [OF run_first, where j = "list_job 1"] by simp
  then have "reachable d (mk_sys [] DDrain [queued (list_job 1)] kv_locked True [kv_task 0 TRunning] d)"
    using by_take by fastforce
  then have "reachable d (mk_sys [] DDrain [] kv_locked True [kv_task 0 TRunning, list_task 1 TAcquire] d)"
    using by_pop [OF by_drained] by fastforce
  from by_acquired [OF this, of 1]
  have r: "reachable d (mk_sys [] DDrain [] (lock_acquire [RList] kv_locked) True
      [kv_task 0 TRunning, list_task 1 TRunning] d)" by simp
  show ?thesis
    using r jobs_mutually_exclusive [OF r, THEN conjunct2, rule_format, of 0 1]
    by (intro exI [of _ d] exI [of _ "mk_sys [] DDrain [] (lock_acquire [RList] kv_locked) True
      [kv_task 0 TRunning, list_task 1 TRunning] d"]) (simp add: lock_acquire_def lock_default_def)
qed

section \<open>Jobs that wait for nothing\<close>

lemma submit_idle: "sy_chan s = [] \<Longrightarrow> step s (s\<lparr>sy_chan := [j]\<rparr>)"
  using step.submit [of s j] by (simp add: CHANNEL_SIZE_def)

text \<open>
  C30. A job can be left in the queue with nothing running: from every database the layer reaches a
  state in which a job is queued, its resources are free, every task has answered and the dispatcher
  waits for the channel. In that state only a new submission (or a change of the database by another
  connection) can happen, so the job waits until somebody submits another one.
\<close>

theorem queued_job_stalls:
  "\<exists>s. reachable d s \<and> sy_queue s = [queued (kv_job 1)] \<and> sy_chan s = [] \<and> can_acquire (sy_locks s) [RKv] \<and>
     (\<forall>t. step s t \<longrightarrow> (\<exists>j. t = s\<lparr>sy_chan := [j]\<rparr>) \<or> (\<exists>b. t = s\<lparr>sy_db := b\<rparr>))"
proof -
  let ?s = "mk_sys [] DRecv [queued (kv_job 1)] lock_default True [kv_task 0 (TDone (Ok ()))] (snd (db_kv_flush ''a'' d))"
  have "reachable d (mk_sys [kv_job 1] DDrain [] kv_locked True [kv_task 0 TRunning] d)"
    using by_submit [OF run_first, where j = "kv_job 1"] by simp
  then have "reachable d (mk_sys [] DDrain [queued (kv_job 1)] kv_locked True [kv_task 0 TRunning] d)"
    using by_take by fastforce
  then have "reachable d (mk_sys [] DRecv [queued (kv_job 1)] kv_locked True [kv_task 0 TRunning] d)"
    using by_pop_none [OF by_drained] by fastforce
  from by_finish [OF this, of 0 _ "Ok ()" "snd (db_kv_flush ''a'' d)"]
  have r: "reachable d ?s" by (simp add: run_command_def db_kv_flush_def wake_def)
  have "(\<exists>j. t = ?s\<lparr>sy_chan := [j]\<rparr>) \<or> (\<exists>b. t = ?s\<lparr>sy_db := b\<rparr>)" if "step ?s t" for t
    using that by cases auto
  with r show ?thesis by (intro exI [of _ ?s]) simp
qed

theorem queued_job_stalls_witness:
  "\<exists>d s. reachable d s \<and> can_acquire (sy_locks s) [RKv] \<and> step s (s\<lparr>sy_chan := [kv_job 2]\<rparr>) \<and>
     ((\<exists>j. s\<lparr>sy_chan := [kv_job 2]\<rparr> = s\<lparr>sy_chan := [j]\<rparr>) \<or> (\<exists>b. s\<lparr>sy_chan := [kv_job 2]\<rparr> = s\<lparr>sy_db := b\<rparr>))"
proof -
  fix d :: db
  obtain s where s: "reachable d s" "sy_chan s = []" "can_acquire (sy_locks s) [RKv]"
    "\<forall>t. step s t \<longrightarrow> (\<exists>j. t = s\<lparr>sy_chan := [j]\<rparr>) \<or> (\<exists>b. t = s\<lparr>sy_db := b\<rparr>)"
    using queued_job_stalls [of d] by blast
  have "step s (s\<lparr>sy_chan := [kv_job 2]\<rparr>)" by (rule submit_idle [OF s(2)])
  with s show ?thesis by blast
qed

text \<open>
  C31. A wake-up can be lost: from every database the layer reaches a state in which a job task sleeps
  in \<open>acquire\<close> although its resources are free and every other task has answered. It tested the locks,
  the holder released and notified before it began to wait, and only the next submission wakes it.
\<close>

theorem wakeup_lost:
  "\<exists>s. reachable d s \<and> sy_tasks s ! 1 = kv_task 1 TWaiting \<and> length (sy_tasks s) = 2 \<and>
     sy_chan s = [] \<and> can_acquire (sy_locks s) [RKv] \<and>
     (\<forall>t. step s t \<longrightarrow> (\<exists>j. t = s\<lparr>sy_chan := [j]\<rparr>) \<or> (\<exists>b. t = s\<lparr>sy_db := b\<rparr>))"
proof -
  let ?b = "snd (db_kv_flush ''a'' d)"
  let ?s = "mk_sys [] DRecv [] lock_default False [kv_task 0 (TDone (Ok ())), kv_task 1 TWaiting] ?b"
  have "reachable d (mk_sys [kv_job 0, kv_job 1] DRecv [] lock_default False [] d)"
    using by_submit [OF by_submit [OF by_init, where j = "kv_job 0"], where j = "kv_job 1"] by simp
  then have "reachable d (mk_sys [kv_job 1] DDrain [queued (kv_job 0)] lock_default True [] d)"
    using by_take by fastforce
  then have "reachable d (mk_sys [] DDrain (enqueue (kv_job 1) [queued (kv_job 0)]) lock_default True [] d)"
    using by_take by fastforce
  then have "reachable d (mk_sys [] DDrain [queued (kv_job 0), queued (kv_job 1)] lock_default True [] d)"
    by (simp add: enqueue_def partition_point_def insert_at_def)
  then have "reachable d (mk_sys [] DDrain [queued (kv_job 1)] lock_default True [kv_task 0 TAcquire] d)"
    using by_pop [OF by_drained] by fastforce
  from by_pop [OF by_drained [OF this], of "queued (kv_job 1)" "[]"]
  have "reachable d (mk_sys [] DDrain [] lock_default True [kv_task 0 TAcquire, kv_task 1 TAcquire] d)" by simp
  from by_pop_none [OF by_drained [OF this]]
  have "reachable d (mk_sys [] DRecv [] lock_default True [kv_task 0 TAcquire, kv_task 1 TAcquire] d)" by simp
  from by_acquired [OF this, of 0]
  have "reachable d (mk_sys [] DRecv [] kv_locked True [kv_task 0 TRunning, kv_task 1 TAcquire] d)" by simp
  from by_refused [OF this, of 1]
  have "reachable d (mk_sys [] DRecv [] kv_locked True [kv_task 0 TRunning, kv_task 1 TChecked] d)" by simp
  from by_permit [OF this, of 1]
  have "reachable d (mk_sys [] DRecv [] kv_locked False [kv_task 0 TRunning, kv_task 1 TAcquire] d)" by simp
  from by_refused [OF this, of 1]
  have "reachable d (mk_sys [] DRecv [] kv_locked False [kv_task 0 TRunning, kv_task 1 TChecked] d)" by simp
  from by_finish [OF this, of 0 _ "Ok ()" ?b]
  have "reachable d (mk_sys [] DRecv [] lock_default False [kv_task 0 (TDone (Ok ())), kv_task 1 TChecked] ?b)"
    by (simp add: run_command_def db_kv_flush_def wake_def)
  from by_sleep [OF this, of 1] have r: "reachable d ?s" by simp
  have "(\<exists>j. t = ?s\<lparr>sy_chan := [j]\<rparr>) \<or> (\<exists>b. t = ?s\<lparr>sy_db := b\<rparr>)" if "step ?s t" for t
    using that by cases (auto simp: less_Suc_eq)
  with r show ?thesis by (intro exI [of _ ?s]) simp
qed

theorem wakeup_lost_witness:
  "\<exists>d s. reachable d s \<and> can_acquire (sy_locks s) [RKv] \<and> step s (s\<lparr>sy_chan := [kv_job 2]\<rparr>) \<and>
     ((\<exists>j. s\<lparr>sy_chan := [kv_job 2]\<rparr> = s\<lparr>sy_chan := [j]\<rparr>) \<or> (\<exists>b. s\<lparr>sy_chan := [kv_job 2]\<rparr> = s\<lparr>sy_db := b\<rparr>))"
proof -
  fix d :: db
  obtain s where s: "reachable d s" "sy_chan s = []" "can_acquire (sy_locks s) [RKv]"
    "\<forall>t. step s t \<longrightarrow> (\<exists>j. t = s\<lparr>sy_chan := [j]\<rparr>) \<or> (\<exists>b. t = s\<lparr>sy_db := b\<rparr>)"
    using wakeup_lost [of d] by blast
  have "step s (s\<lparr>sy_chan := [kv_job 2]\<rparr>)" by (rule submit_idle [OF s(2)])
  with s show ?thesis by blast
qed

section \<open>The order of the queue\<close>

definition by_size :: "queued_job list \<Rightarrow> bool" where
  "by_size q \<longleftrightarrow> sorted (map qj_op_count q)"

lemma enqueue_split:
  "enqueue j q = takeWhile (\<lambda>y. qj_op_count y \<le> length (jb_commands j)) q @
     queued j # dropWhile (\<lambda>y. qj_op_count y \<le> length (jb_commands j)) q"
  by (simp add: enqueue_def insert_at_def partition_point_def queued_def Let_def
      dropWhile_eq_drop flip: takeWhile_eq_take)

lemma by_size_dropWhile:
  "by_size q \<Longrightarrow> y \<in> set (dropWhile (\<lambda>y. qj_op_count y \<le> n) q) \<Longrightarrow> n < qj_op_count y"
  by (induction q) (auto simp: by_size_def split: if_splits)

lemma by_size_append:
  "by_size (a @ b) \<longleftrightarrow> by_size a \<and> by_size b \<and> (\<forall>x \<in> set a. \<forall>y \<in> set b. qj_op_count x \<le> qj_op_count y)"
  by (auto simp: by_size_def sorted_append)

lemma by_size_enqueue:
  assumes "by_size q"
  shows "by_size (enqueue j q)"
proof -
  let ?P = "\<lambda>y. qj_op_count y \<le> length (jb_commands j)"
  have "by_size (takeWhile ?P q)" "by_size (dropWhile ?P q)"
    using assms by_size_append [of "takeWhile ?P q" "dropWhile ?P q"] by simp_all
  moreover have "qj_op_count (queued j) = length (jb_commands j)" by (simp add: queued_def)
  moreover note by_size_dropWhile [OF assms, of _ "length (jb_commands j)"]
  ultimately show ?thesis
    unfolding enqueue_split by_size_append
    by (fastforce simp: by_size_def dest: set_takeWhileD)
qed

lemma by_size_step: "step s t \<Longrightarrow> by_size (sy_queue s) \<Longrightarrow> by_size (sy_queue t)"
proof (induction rule: step.induct)
  case (receive s j js s')
  then show ?case using notify_one_fields(2) [OF receive(3)] by (simp add: by_size_enqueue)
next
  case (drain s j js s')
  then show ?case using notify_one_fields(2) [OF drain(3)] by (simp add: by_size_enqueue)
next
  case (pop s x q)
  obtain a b where "sy_queue s = a @ x # b" "q = a @ b" using try_pop_split [OF pop(2)] by blast
  with pop(3) show ?case by (simp add: by_size_def sorted_append)
qed simp_all

lemma reachable_by_size: "reachable d s \<Longrightarrow> by_size (sy_queue s)"
  by (induction rule: reachable.induct) (auto simp: sys_init_def by_size_def by_size_step [unfolded by_size_def])

text \<open>
  Smaller batches go first: in every reachable state the job the dispatcher takes is the first one
  of the queue whose resources are free, no job behind it in the queue has fewer commands, and every
  job of the same size or smaller that it overtakes has a resource in use. A job that is queued goes
  behind all jobs of its own size, so jobs of one size keep their order of arrival.
\<close>

theorem smallest_runnable_first:
  assumes "reachable d s" and "try_pop_runnable (sy_locks s) (sy_queue s) = Some (x, q)"
  shows "\<exists>a b. sy_queue s = a @ x # b \<and> q = a @ b \<and>
      (\<forall>r \<in> set (qj_resources x). \<not> held (sy_locks s) r) \<and>
      (\<forall>y \<in> set a. \<exists>r \<in> set (qj_resources y). held (sy_locks s) r) \<and>
      (\<forall>y \<in> set b. qj_op_count x \<le> qj_op_count y) \<and>
      (\<exists>a' b'. enqueue j (sy_queue s) = a' @ queued j # b' \<and> sy_queue s = a' @ b' \<and>
        (\<forall>y \<in> set a'. qj_op_count y \<le> length (jb_commands j)) \<and>
        (\<forall>y \<in> set b'. length (jb_commands j) < qj_op_count y))"
proof -
  note sz = reachable_by_size [OF assms(1)]
  obtain a b where ab: "sy_queue s = a @ x # b" "q = a @ b" "can_acquire (sy_locks s) (qj_resources x)"
    "\<forall>y \<in> set a. \<not> can_acquire (sy_locks s) (qj_resources y)"
    using try_pop_split [OF assms(2)] by blast
  have "\<forall>y \<in> set b. qj_op_count x \<le> qj_op_count y"
    using sz ab(1) by (simp add: by_size_def sorted_append)
  moreover have "\<exists>a' b'. enqueue j (sy_queue s) = a' @ queued j # b' \<and> sy_queue s = a' @ b' \<and>
        (\<forall>y \<in> set a'. qj_op_count y \<le> length (jb_commands j)) \<and>
        (\<forall>y \<in> set b'. length (jb_commands j) < qj_op_count y)"
    using enqueue_split [of j "sy_queue s"] by_size_dropWhile [OF sz]
    by (metis set_takeWhileD takeWhile_dropWhile_id)
  ultimately show ?thesis using ab by (auto simp: can_acquire_iff)
qed

theorem smallest_runnable_first_witness:
  "\<exists>d s a b. reachable d s \<and> try_pop_runnable (sy_locks s) (sy_queue s) = Some (queued (kv_job 0), []) \<and>
     sy_queue s = a @ queued (kv_job 0) # b \<and> [] = a @ b"
proof -
  fix d :: db
  have "reachable d (mk_sys [kv_job 0] DRecv [] lock_default False [] d)"
    using by_submit [OF by_init, where j = "kv_job 0"] by simp
  then have r: "reachable d (mk_sys [] DDrain [queued (kv_job 0)] lock_default True [] d)"
    using by_take by fastforce
  have "\<exists>a b. sy_queue (mk_sys [] DDrain [queued (kv_job 0)] lock_default True [] d) = a @ queued (kv_job 0) # b \<and>
      [] = a @ b"
    using smallest_runnable_first [OF r, of "queued (kv_job 0)" "[]"] by fastforce
  with r show ?thesis by fastforce
qed

section \<open>Conservation of jobs\<close>

definition all_jobs :: "sys \<Rightarrow> pipeline_job multiset" where
  "all_jobs s = mset (sy_chan s) + mset (map qj_job (sy_queue s)) + mset (map qj_job (map tk_job (sy_tasks s)))"

lemma all_jobs_enqueue: "mset (map qj_job (enqueue j q)) = add_mset j (mset (map qj_job q))"
proof -
  let ?P = "\<lambda>y. qj_op_count y \<le> length (jb_commands j)"
  have "mset (map qj_job (takeWhile ?P q)) + mset (map qj_job (dropWhile ?P q)) = mset (map qj_job q)"
    by (metis map_append mset_append takeWhile_dropWhile_id)
  then show ?thesis by (simp add: enqueue_split)
qed

lemma all_jobs_by:
  "sy_chan t = sy_chan s \<Longrightarrow> sy_queue t = sy_queue s \<Longrightarrow> map tk_job (sy_tasks t) = map tk_job (sy_tasks s) \<Longrightarrow>
   all_jobs t = all_jobs s"
  by (simp only: all_jobs_def)

lemma all_jobs_take:
  assumes "sy_chan s = j # js" and "notify_one (take_job j js s) s'"
  shows "all_jobs s' = all_jobs s"
proof -
  have "all_jobs s' = all_jobs (take_job j js s)"
    using notify_one_fields [OF assms(2)] by (intro all_jobs_by) simp_all
  then show ?thesis using assms(1) all_jobs_enqueue [of j "sy_queue s"] by (simp add: all_jobs_def)
qed

lemma tasks_kept:
  "map tk_job ts' = map tk_job ts \<Longrightarrow> take (length ts) (map tk_job ts') = map tk_job ts"
  by (metis length_map order_refl take_all)

text \<open>
  No job is lost or run twice by the scheduling: every step keeps the collection of jobs in the
  channel, in the queue and in tasks, or adds the job just submitted, and a task once spawned keeps
  its job.
\<close>

theorem jobs_conserved:
  assumes "step s t"
  shows "(all_jobs t = all_jobs s \<or> (\<exists>j. sy_chan t = sy_chan s @ [j] \<and> all_jobs t = add_mset j (all_jobs s))) \<and>
    take (length (sy_tasks s)) (map tk_job (sy_tasks t)) = map tk_job (sy_tasks s)"
  using assms
proof (induction rule: step.induct)
  case (submit s j)
  then show ?case by (simp add: all_jobs_def)
next
  case (receive s j js s')
  then show ?case
    using all_jobs_take [OF receive(2,3)] tasks_kept [OF notify_one_fields(4) [OF receive(3)]]
    by (simp only: take_job_fields simp_thms)
next
  case (drain s j js s')
  then show ?case
    using all_jobs_take [OF drain(2,3)] tasks_kept [OF notify_one_fields(4) [OF drain(3)]]
    by (simp only: take_job_fields simp_thms)
next
  case (pop s x q)
  obtain a b where "sy_queue s = a @ x # b" "q = a @ b" using try_pop_split [OF pop(2)] by blast
  then show ?case by (simp add: all_jobs_def)
next
  case (notify i s r)
  have m: "map tk_job (sy_tasks (wake_all (set_pc i (TDone r) s))) = map tk_job (sy_tasks s)"
    by (simp only: wake_all_fields set_pc_fields)
  then have "all_jobs (wake_all (set_pc i (TDone r) s)) = all_jobs s" by (intro all_jobs_by) simp_all
  with m show ?case by simp
qed (simp_all add: all_jobs_def)

theorem jobs_conserved_witness:
  "\<exists>d. step (sys_init d) (sys_init d\<lparr>sy_chan := [kv_job 0]\<rparr>) \<and>
     (all_jobs (sys_init d\<lparr>sy_chan := [kv_job 0]\<rparr>) = all_jobs (sys_init d) \<or>
      (\<exists>j. [kv_job 0] = sy_chan (sys_init d) @ [j] \<and>
        all_jobs (sys_init d\<lparr>sy_chan := [kv_job 0]\<rparr>) = add_mset j (all_jobs (sys_init d))))"
proof -
  fix d :: db
  have "step (sys_init d) (sys_init d\<lparr>sy_chan := [kv_job 0]\<rparr>)"
    using step.submit [of "sys_init d" "kv_job 0"] by (simp add: sys_init_def CHANNEL_SIZE_def)
  with jobs_conserved [OF this] show ?thesis by (intro exI [of _ d]) simp
qed

section \<open>A job that fails\<close>

text \<open>The commands of a prefix, all of which succeed.\<close>

fun run_all :: "(nat \<Rightarrow> env) \<Rightarrow> pipeline_command list \<Rightarrow> db \<Rightarrow> db option" where
  "run_all vs [] s = Some s"
| "run_all vs (c # cs) s =
     (case run_command (vs 0) c s of (Ok _, s') \<Rightarrow> run_all (\<lambda>n. vs (Suc n)) cs s' | _ \<Rightarrow> None)"

lemma execute_job_append:
  "run_all vs cs s = Some s' \<Longrightarrow> execute_job vs (cs @ ds) s = execute_job (\<lambda>n. vs (length cs + n)) ds s'"
  by (induction cs arbitrary: vs s) (auto split: prod.splits result.splits)

text \<open>
  A job is not atomic: its commands run in order, and when one fails the job answers with that
  error, the commands behind it do not run, and everything the commands before it did stays in the
  database.
\<close>

theorem failed_job_keeps_prefix:
  assumes "run_all vs cs s = Some s1" and "run_command (vs (length cs)) c s1 = (Err e, s2)"
  shows "execute_job vs (cs @ c # ds) s = (Err (ExecError e), s2)"
  using execute_job_append [OF assms(1), of "c # ds"] assms(2) by simp

theorem failed_job_keeps_prefix_witness:
  "\<exists>d s1 s2. \<forall>v. run_all (\<lambda>_. v) [PKvFlush ''a''] d = Some s1 \<and> d_event_tx s1 = Some [KvFlush ''a''] \<and>
     run_command v (PListPop ''q'') s1 = (Err (ListPopError KeyNotFound), s2) \<and>
     execute_job (\<lambda>_. v) [PKvFlush ''a'', PListPop ''q'', PKvFlush ''b''] d =
       (Err (ExecError (ListPopError KeyNotFound)), s2)"
proof -
  let ?l = "\<lparr>sg_written = [], sg_free = [], sg_mem = \<lambda>_. None, sg_brk = 0\<rparr>"
  let ?d = "\<lparr>d_st = fresh_stores ?l, d_aof = [], d_event_tx = Some []\<rparr>"
  let ?s1 = "snd (db_kv_flush ''a'' ?d)"
  let ?s2 = "snd (db_list_pop ''q'' ?s1)"
  have 1: "run_all (\<lambda>_. v) [PKvFlush ''a''] ?d = Some ?s1" "d_event_tx ?s1 = Some [KvFlush ''a'']" for v
    by (simp_all add: run_command_def db_kv_flush_def send_event_def set_kv_def)
  have 2: "run_command v (PListPop ''q'') ?s1 = (Err (ListPopError KeyNotFound), ?s2)" for v
    by (simp add: run_command_def db_kv_flush_def send_event_def set_kv_def set_list_def db_list_pop_def
        fresh_stores_def list_pop_def finish_def)
  show ?thesis
    using 1 2 failed_job_keeps_prefix [OF 1(1) 2, where ds = "[PKvFlush ''b'']"]
    by (intro exI [of _ ?d] exI [of _ ?s1] exI [of _ ?s2] allI) simp
qed

end
