(* ===== verification/Batches.thy ===== *)
theory Batches
  imports Store Pipeline_Props
begin

text \<open>
  Batches and requests together. The job tasks of the pipeline layer and the handlers of the
  connections share one database, which a job holds for all of its commands. This theory shows that a
  batch is one transition of the abstract store, made of the transitions of its commands, and that
  every interleaving of jobs and requests is a sequence of such transitions.
\<close>

section \<open>A batch on the abstract store\<close>

text \<open>The request with the meaning of a command.\<close>

fun as_request :: "pipeline_command \<Rightarrow> command" where
  "as_request (PKvSet d k x ttl) = SetKey d k x ttl"
| "as_request (PKvDel d k) = DelKey d k"
| "as_request (PKvFlush d) = Flush d"
| "as_request (PListPush k x) = LPush k x"
| "as_request (PListPop k) = LPop k"
| "as_request (PListFlush k) = LFlush k"
| "as_request (PLogAdd n ts p) = Add n ts p"

text \<open>The fifth byte of a response is its status.\<close>

inductive batch_step :: "pipeline_command list \<Rightarrow> store \<Rightarrow> (pipeline_error, unit) result \<Rightarrow> store \<Rightarrow> bool" where
  finished: "batch_step [] a (Ok ()) a"
| command: "store_step (as_request c) a resp a1 \<Longrightarrow> resp ! 4 = STATUS_OK \<Longrightarrow> batch_step cs a1 r a2 \<Longrightarrow>
    batch_step (c # cs) a r a2"
| failed: "store_step (as_request c) a (refused e) a1 \<Longrightarrow> batch_step (c # cs) a (Err (ExecError e)) a1"

inductive_simps batch_step_simps:
  "batch_step [] a r a'" "batch_step (c # cs) a r a'"

inductive_simps list_step_simps:
  "store_step (LPush k x) a resp a'" "store_step (LPop k) a resp a'"

lemma status_ok: "ok_empty ! 4 = STATUS_OK" "ok_u64 n ! 4 = STATUS_OK" "ok_bytes b ! 4 = STATUS_OK"
  by (simp_all add: ok_empty_def ok_u64_def ok_bytes_def finalize_def nth_append)

lemma status_err: "refused e ! 4 = STATUS_ERR"
  by (simp add: refused_def resp_err_def finalize_def nth_append)

lemma not_refused: "ok_empty \<noteq> refused e"
  using status_ok(1) status_err [of e] by (auto simp: tag_defs)

section \<open>Commands and jobs\<close>

definition db_env_fine :: "(bytes \<Rightarrow> u64) \<Rightarrow> env \<Rightarrow> bool" where
  "db_env_fine h v \<longleftrightarrow> memory_ok v \<and> ev_hash v = h \<and> iter_ok (ev_iter v)"

definition command_exact :: "pipeline_command \<Rightarrow> db \<Rightarrow> bool" where
  "command_exact c d =
     (case c of PLogAdd n ts p \<Rightarrow> pred_option (group_room 1) (hm_get (gm_groups (st_gm (d_st d))) n) | _ \<Rightarrow> True)"

fun batch_exact :: "(bytes \<Rightarrow> u64) \<Rightarrow> (nat \<Rightarrow> env) \<Rightarrow> pipeline_command list \<Rightarrow> db \<Rightarrow> bool" where
  "batch_exact h vs [] d = True"
| "batch_exact h vs (c # cs) d =
     (db_env_fine h (vs 0) \<and> command_exact c d \<and>
      (case run_command (vs 0) c d of (Ok _, d') \<Rightarrow> batch_exact h (\<lambda>n. vs (Suc n)) cs d' | _ \<Rightarrow> True))"

lemma batch_exact_no_log:
  "(\<And>n. db_env_fine h (vs n)) \<Longrightarrow> list_all (\<lambda>c. cmd_resource c \<noteq> RLog) cs \<Longrightarrow> batch_exact h vs cs d"
  by (induction cs arbitrary: vs d) (auto simp: command_exact_def split: pipeline_command.split prod.split result.split)

text \<open>What a database operation did, as a transition of the store.\<close>

definition outcome :: "(bytes \<Rightarrow> u64) \<Rightarrow> command \<Rightarrow> store \<Rightarrow> (db_error, 'a) result \<times> db \<Rightarrow> bool" where
  "outcome h cmd a x \<longleftrightarrow> (\<exists>resp a'. store_step cmd a resp a' \<and> models h (d_st (snd x)) a' \<and>
     (case fst x of Ok _ \<Rightarrow> resp ! 4 = STATUS_OK | Err e \<Rightarrow> resp = refused e | Fault _ \<Rightarrow> False))"

lemma outcome_on_db:
  assumes "simulated h cmd a (on_db f m s)" "\<And>x. f x ! 4 = STATUS_OK"
  shows "outcome h cmd a (m (sv_db s))"
  using assms by (cases "fst (m (sv_db s))")
    (auto simp: simulated_def outcome_def on_db_def respond_def refused_def split: prod.splits)

lemma outcome_map_ok: "outcome h cmd a (apfst (map_ok f) x) = outcome h cmd a x"
  by (cases x; cases "fst x") (simp_all add: outcome_def)

lemma run_command_outcome:
  assumes M: "models h (d_st d) a" and V: "db_env_fine h v" and X: "command_exact c d"
  shows "outcome h (as_request c) a (run_command v c d)"
proof -
  let ?s = "(sample_server kv_new)\<lparr>sv_db := d\<rparr>" and ?v = "sample_env\<lparr>se_env := v\<rparr>"
  have M': "models h (d_st (sv_db ?s)) a" using M by simp
  have V': "env_fine h ?v" using V by (simp add: env_fine_def db_env_fine_def sample_env_def iter_ok_def)
  note sims = kv_simulated [OF M' V'] push_simulated(1) [OF M' V'] pop_simulated(1) [OF M']
    len_flush_simulated(2) [OF M'] log_simulated(1) [OF M' V']
  note outs = sims [THEN outcome_on_db, simplified status_ok, simplified]
  show ?thesis
    using X outs by (cases c) (simp_all add: run_command_def command_exact_def outcome_map_ok)
qed

lemma execute_job_simulated:
  assumes "models h (d_st d) a" "batch_exact h vs cs d" "execute_job vs cs d = (r, d')"
  shows "\<exists>a'. batch_step cs a r a' \<and> models h (d_st d') a' \<and> \<not> is_fault r"
  using assms
proof (induction cs arbitrary: vs d a)
  case Nil
  then show ?case by (auto intro: batch_step.finished)
next
  case (Cons c cs)
  obtain rc d1 where c: "run_command (vs 0) c d = (rc, d1)" by fastforce
  from run_command_outcome [OF Cons.prems(1)] Cons.prems(2) c
  obtain resp a1 where 1: "store_step (as_request c) a resp a1" "models h (d_st d1) a1"
    "case rc of Ok _ \<Rightarrow> resp ! 4 = STATUS_OK | Err e \<Rightarrow> resp = refused e | Fault _ \<Rightarrow> False"
    by (fastforce simp: outcome_def)
  show ?case
  proof (cases rc)
    case (Ok u)
    then have "execute_job (\<lambda>n. vs (Suc n)) cs d1 = (r, d')" "batch_exact h (\<lambda>n. vs (Suc n)) cs d1"
      using Cons.prems(2,3) c by simp_all
    from Cons.IH [OF 1(2) this(2,1)] Ok 1 show ?thesis by (auto intro: batch_step.command)
  next
    case (Err e)
    then show ?thesis using 1 c Cons.prems(3) by (auto intro: batch_step.failed)
  qed (use 1 in simp)
qed

section \<open>Jobs and requests interleaved\<close>

text \<open>
  The state: the pipeline layer with the shared database, and the server of the connections, which
  finds the database there. A handler and a job each hold the database's lock from beginning to end,
  so that they are single steps; everything else the pipeline layer does leaves the database alone.
\<close>

datatype 'w joint_event =
    JRequest "'w srv_env" bytes bytes
  | JBatch nat "nat \<Rightarrow> env" "pipeline_command list" "(pipeline_error, unit) result"
  | JTask

definition with_db :: "sys \<Rightarrow> 'w server \<Rightarrow> 'w server" where
  "with_db s srv = srv\<lparr>sv_db := sy_db s\<rparr>"

definition job_of :: "sys \<Rightarrow> nat \<Rightarrow> pipeline_command list" where
  "job_of s i = jb_commands (qj_job (tk_job (sy_tasks s ! i)))"

text \<open>The result a task has for its submitter.\<close>

fun pc_result :: "task_pc \<Rightarrow> (pipeline_error, unit) result option" where
  "pc_result (TRelease r) = Some r"
| "pc_result (TNotify r) = Some r"
| "pc_result (TDone r) = Some r"
| "pc_result _ = None"

definition quiet :: "sys \<Rightarrow> sys \<Rightarrow> bool" where
  "quiet s t \<longleftrightarrow> sy_db t = sy_db s \<and>
     (\<forall>i < length (sy_tasks s). tk_pc (sy_tasks s ! i) = TRunning \<longrightarrow> tk_pc (sy_tasks t ! i) = TRunning)"

inductive joint_step :: "'w joint_event \<Rightarrow> sys \<times> 'w server \<Rightarrow> sys \<times> 'w server \<Rightarrow> bool" where
  request: "serve_frame v f (with_db s srv) = (Ok resp, srv') \<Longrightarrow>
    joint_step (JRequest v f resp) (s, srv) (s\<lparr>sy_db := sv_db srv'\<rparr>, srv')"
| batch: "i < length (sy_tasks s) \<Longrightarrow> tk_pc (sy_tasks s ! i) = TRunning \<Longrightarrow>
    job_of s i = cs \<Longrightarrow> execute_job vs cs (sy_db s) = (r, d) \<Longrightarrow>
    joint_step (JBatch i vs cs r) (s, srv) (set_pc i (TRelease r) (s\<lparr>sy_db := d\<rparr>), srv)"
| task: "step s t \<Longrightarrow> quiet s t \<Longrightarrow> joint_step JTask (s, srv) (t, srv)"

text \<open>The steps with an exact effect, for hash function \<open>h\<close>.\<close>

fun event_exact :: "(bytes \<Rightarrow> u64) \<Rightarrow> 'w joint_event \<Rightarrow> sys \<times> 'w server \<Rightarrow> bool" where
  "event_exact h (JRequest v f resp) (s, srv) = exact_all h [(0, v, f)] (with_db s srv)"
| "event_exact h (JBatch i vs cs r) (s, srv) = batch_exact h vs cs (sy_db s)"
| "event_exact h JTask x = True"

inductive joint_run :: "(bytes \<Rightarrow> u64) \<Rightarrow> db \<Rightarrow> 'w server \<Rightarrow> 'w joint_event list \<Rightarrow> sys \<times> 'w server \<Rightarrow> bool" for h d srv where
  started: "joint_run h d srv [] (sys_init d, srv)"
| stepped: "joint_run h d srv evs x \<Longrightarrow> event_exact h ev x \<Longrightarrow> joint_step ev x y \<Longrightarrow> joint_run h d srv (evs @ [ev]) y"

text \<open>The history of the store: requests with their responses, batches with their commands and results.\<close>

datatype store_event = SRequest bytes bytes | SBatch nat "pipeline_command list" "(pipeline_error, unit) result"

inductive shared_history :: "store \<Rightarrow> store_event list \<Rightarrow> store \<Rightarrow> bool" for a where
  empty: "shared_history a [] a"
| request: "shared_history a hist a1 \<Longrightarrow> frame_step f a1 resp a2 \<Longrightarrow> shared_history a (hist @ [SRequest f resp]) a2"
| batch: "shared_history a hist a1 \<Longrightarrow> batch_step cs a1 r a2 \<Longrightarrow> shared_history a (hist @ [SBatch i cs r]) a2"

fun logged :: "'w joint_event \<Rightarrow> store_event list" where
  "logged (JRequest v f resp) = [SRequest f resp]"
| "logged (JBatch i vs cs r) = [SBatch i cs r]"
| "logged JTask = []"

definition results_ok :: "store_event list \<Rightarrow> sys \<Rightarrow> bool" where
  "results_ok hist s \<longleftrightarrow> (\<forall>i < length (sy_tasks s). \<forall>r. pc_result (tk_pc (sy_tasks s ! i)) = Some r \<longrightarrow>
     SBatch i (job_of s i) r \<in> set hist)"

section \<open>Results of tasks\<close>

text \<open>A step of the pipeline layer adds tasks at the end, keeps their jobs, and gives a result only to a task that runs.\<close>

lemma notify_one_results:
  assumes "notify_one s t" "i < length (sy_tasks t)"
  shows "i < length (sy_tasks s) \<and> tk_job (sy_tasks t ! i) = tk_job (sy_tasks s ! i) \<and>
    (pc_result (tk_pc (sy_tasks t ! i)) = Some r \<longrightarrow> tk_pc (sy_tasks t ! i) = tk_pc (sy_tasks s ! i))"
  using assms by cases (auto simp: set_pc_def nth_list_update)

lemma step_results:
  assumes "step s t" "i < length (sy_tasks t)" "pc_result (tk_pc (sy_tasks t ! i)) = Some r"
  shows "i < length (sy_tasks s) \<and> job_of t i = job_of s i \<and>
    (pc_result (tk_pc (sy_tasks s ! i)) = Some r \<or> tk_pc (sy_tasks s ! i) = TRunning \<and> tk_pc (sy_tasks t ! i) \<noteq> TRunning)"
  using assms
proof (induction rule: step.induct)
  case (receive s j js s')
  then show ?case using notify_one_results [OF receive(3), of i r] by (auto simp: job_of_def)
next
  case (drain s j js s')
  then show ?case using notify_one_results [OF drain(3), of i r] by (auto simp: job_of_def)
qed (auto simp: set_pc_def wake_all_def wake_def nth_list_update nth_append job_of_def less_Suc_eq split: if_splits)

lemma results_ok_task:
  assumes "step s t" "quiet s t" "results_ok hist s"
  shows "results_ok hist t"
  unfolding results_ok_def
proof (intro allI impI)
  fix i r assume i: "i < length (sy_tasks t)" "pc_result (tk_pc (sy_tasks t ! i)) = Some r"
  note R = step_results [OF assms(1) i]
  with assms(2) have "pc_result (tk_pc (sy_tasks s ! i)) = Some r" by (auto simp: quiet_def)
  with R assms(3) show "SBatch i (job_of t i) r \<in> set hist" by (auto simp: results_ok_def)
qed

lemma set_pc_task: "j < length (sy_tasks s) \<Longrightarrow>
    sy_tasks (set_pc i pc s) ! j = (if j = i then (sy_tasks s ! i)\<lparr>tk_pc := pc\<rparr> else sy_tasks s ! j)"
  by (simp add: set_pc_def nth_list_update)

lemma results_ok_batch:
  assumes "results_ok hist s"
  shows "results_ok (hist @ [SBatch i (job_of s i) r]) (set_pc i (TRelease r) (s\<lparr>sy_db := d\<rparr>))"
  unfolding results_ok_def
proof (intro allI impI)
  let ?t = "set_pc i (TRelease r) (s\<lparr>sy_db := d\<rparr>)"
  fix j r' assume j: "j < length (sy_tasks ?t)" "pc_result (tk_pc (sy_tasks ?t ! j)) = Some r'"
  then show "SBatch j (job_of ?t j) r' \<in> set (hist @ [SBatch i (job_of s i) r])"
    using assms by (cases "j = i") (auto simp: results_ok_def job_of_def set_pc_task)
qed

section \<open>One history\<close>

lemma joint_step_simulated:
  assumes "joint_step ev x y" "event_exact h ev x" "shared_history a0 hist a" "models h (d_st (sy_db (fst x))) a"
    and "results_ok hist (fst x)"
  shows "\<exists>a'. shared_history a0 (hist @ logged ev) a' \<and> models h (d_st (sy_db (fst y))) a' \<and> results_ok (hist @ logged ev) (fst y)"
  using assms
proof (induction rule: joint_step.induct)
  case (request v f s srv resp srv')
  have "models h (d_st (sv_db (with_db s srv))) a" using request(4) by (simp add: with_db_def)
  from serve_frame_simulated [OF this] request(1,2)
  obtain a' where "frame_step f a resp a'" "models h (d_st (sv_db srv')) a'" by fastforce
  with shared_history.request [OF request(3)] request(5) show ?case
    by (intro exI [of _ a']) (auto simp: results_ok_def job_of_def)
next
  case (batch i s cs vs r d srv)
  have M: "models h (d_st (sy_db s)) a" using batch(7) by simp
  from execute_job_simulated [OF M _ batch(4)] batch(5)
  obtain a' where "batch_step cs a r a'" "models h (d_st d) a'" by auto
  with shared_history.batch [OF batch(6), of cs r a' i] results_ok_batch [of hist s i r d] batch(3,8) show ?case
    by (intro exI [of _ a']) (simp add: set_pc_def)
next
  case (task s t srv)
  then show ?case using results_ok_task [OF task(1,2)] by (intro exI [of _ a]) (simp add: quiet_def)
qed

lemma joint_run_simulated:
  assumes "joint_run h d srv evs x" "models h (d_st d) a"
  shows "\<exists>a'. shared_history a (concat (map logged evs)) a' \<and> models h (d_st (sy_db (fst x))) a' \<and>
    results_ok (concat (map logged evs)) (fst x)"
  using assms(1)
proof (induction rule: joint_run.induct)
  case started
  show ?case using assms(2) shared_history.empty by (intro exI [of _ a]) (simp add: sys_init_def results_ok_def)
next
  case (stepped evs x ev y)
  then obtain a1 where H: "shared_history a (concat (map logged evs)) a1" "models h (d_st (sy_db (fst x))) a1"
    "results_ok (concat (map logged evs)) (fst x)" by blast
  from joint_step_simulated [OF stepped(3,2) H] show ?case by simp
qed

text \<open>
  C10. Batches and requests are serialised together: however job tasks and connections interleave, the
  requests and batches of the run, in the order in which they were executed, are a history of the
  abstract store, with the responses and results given. A batch is a single transition in it, made of
  those of its commands in order, up to the first one that fails; what the commands before that one did
  stays. The database stands for the store at the end, and the result a job has for its submitter is
  that of its batch. Assumed of every step: none of the causes of a panic, for reads no collision of
  cache keys, and no message of a leader.
\<close>

theorem batches_serialised:
  assumes "joint_run h d srv evs (s, srv')" and "models h (d_st d) a"
  shows "(\<exists>a'. shared_history a (concat (map logged evs)) a' \<and> models h (d_st (sy_db s)) a') \<and>
    (\<forall>i < length (sy_tasks s). \<forall>r. pc_result (tk_pc (sy_tasks s ! i)) = Some r \<longrightarrow>
       SBatch i (job_of s i) r \<in> set (concat (map logged evs)))"
  using joint_run_simulated [OF assms] by (auto simp: results_ok_def)

section \<open>A batch that fails\<close>

definition failing_job :: pipeline_job where
  "failing_job = \<lparr>jb_id = 0, jb_commands = [PListPush ''q'' [7], PListPop ''x'', PListPush ''q'' [8]]\<rparr>"

lemma joint_task:
  "joint_run h d srv evs (s, srv') \<Longrightarrow> step s t \<Longrightarrow> quiet s t \<Longrightarrow> joint_run h d srv (evs @ [JTask]) (t, srv')"
  by (erule joint_run.stepped) (simp_all add: joint_step.task)

text \<open>The job in its task, about to run.\<close>

lemma failing_job_runs:
  "\<exists>evs. joint_run h d srv evs (mk_sys [] DDrain [] (lock_acquire [RList] lock_default) True
     [\<lparr>tk_job = queued failing_job, tk_pc = TRunning\<rparr>] d, srv) \<and> concat (map logged evs) = []"
proof -
  let ?q = "queued failing_job"
  have rs: "qj_resources ?q = [RList]" by (simp add: queued_def failing_job_def unique_resources_def List.member_iff)
  have 0: "joint_run h d srv [] (mk_sys [] DRecv [] lock_default False [] d, srv)"
    using joint_run.started [of h d srv] by (simp add: sys_init_def mk_sys_def)
  have 1: "step (mk_sys [] DRecv [] lock_default False [] d) (mk_sys [failing_job] DRecv [] lock_default False [] d)"
    using step.submit [of "mk_sys [] DRecv [] lock_default False [] d" failing_job] by (simp add: CHANNEL_SIZE_def)
  have "notify_one (take_job failing_job [] (mk_sys [failing_job] DRecv [] lock_default False [] d))
      (mk_sys [] DDrain [?q] lock_default True [] d)"
    using notify_one.leave_permit [of "mk_sys [] DDrain [?q] lock_default False [] d"] by (simp add: no_waiter_def)
  from step.receive [OF _ _ this]
  have 2: "step (mk_sys [failing_job] DRecv [] lock_default False [] d) (mk_sys [] DDrain [?q] lock_default True [] d)" by simp
  have 3: "step (mk_sys [] DDrain [?q] lock_default True [] d) (mk_sys [] DPop [?q] lock_default True [] d)"
    using step.drained [of "mk_sys [] DDrain [?q] lock_default True [] d"] by simp
  have 4: "step (mk_sys [] DPop [?q] lock_default True [] d) (mk_sys [] DDrain [] lock_default True [\<lparr>tk_job = ?q, tk_pc = TAcquire\<rparr>] d)"
    using step.pop [of "mk_sys [] DPop [?q] lock_default True [] d" ?q "[]"] by simp
  have 5: "step (mk_sys [] DDrain [] lock_default True [\<lparr>tk_job = ?q, tk_pc = TAcquire\<rparr>] d)
      (mk_sys [] DDrain [] (lock_acquire [RList] lock_default) True [\<lparr>tk_job = ?q, tk_pc = TRunning\<rparr>] d)"
    using step.acquired [of 0 "mk_sys [] DDrain [] lock_default True [\<lparr>tk_job = ?q, tk_pc = TAcquire\<rparr>] d", OF _ _ refl] rs by simp
  from joint_task [OF joint_task [OF joint_task [OF joint_task [OF joint_task [OF 0 1] 2] 3] 4] 5]
  show ?thesis by (intro exI [of _ "[JTask, JTask, JTask, JTask, JTask]"]) (simp add: quiet_def)
qed

theorem batches_serialised_witness:
  "\<exists>d srv evs s e a'. joint_run (\<lambda>_. 0) d (srv :: unit server) evs (s, srv) \<and>
     concat (map logged evs) = [SBatch 0 (jb_commands failing_job) (Err (ExecError e))] \<and>
     refused e = refused (ListPopError KeyNotFound) \<and>
     models (\<lambda>_. 0) (d_st (sy_db s)) a' \<and> so_lists a' = [''q'' \<mapsto> [[7]]]"
proof -
  obtain q where q: "seglist_new True = Ok q" by (rule fresh_list)
  let ?h = "\<lambda>_. 0" and ?cs = "jb_commands failing_job" and ?vs = "\<lambda>_. se_env sample_env"
  define d where "d = \<lparr>d_st = fresh_stores q, d_aof = [], d_event_tx = None\<rparr>"
  have M: "models ?h (d_st d) store_empty" using fresh_models [OF q] by (simp add: d_def)
  obtain evs where run: "joint_run ?h d (sample_server kv_new) evs (mk_sys [] DDrain [] (lock_acquire [RList] lock_default) True
     [\<lparr>tk_job = queued failing_job, tk_pc = TRunning\<rparr>] d, sample_server kv_new)" "concat (map logged evs) = []"
    using failing_job_runs by blast
  let ?s = "mk_sys [] DDrain [] (lock_acquire [RList] lock_default) True [\<lparr>tk_job = queued failing_job, tk_pc = TRunning\<rparr>] d"
  obtain r d' where r: "execute_job ?vs ?cs d = (r, d')" by fastforce
  let ?ev = "JBatch 0 ?vs ?cs r" and ?t = "set_pc 0 (TRelease r) (?s\<lparr>sy_db := d'\<rparr>)"
  have "joint_step ?ev (?s, sample_server kv_new) (?t, sample_server kv_new)"
    using r by (intro joint_step.batch) (simp_all add: job_of_def)
  moreover have "batch_exact ?h ?vs ?cs d"
    by (rule batch_exact_no_log) (simp_all add: db_env_fine_def sample_env_def memory_ok_def iter_ok_def failing_job_def)
  ultimately have run': "joint_run ?h d (sample_server kv_new) (evs @ [?ev]) (?t, sample_server kv_new)"
    using joint_run.stepped [OF run(1), of ?ev] by simp
  obtain a' where H: "shared_history store_empty [SBatch 0 ?cs r] a'" "models ?h (d_st (sy_db ?t)) a'"
    using batches_serialised [OF run' M] run(2) by auto
  from H(1) have "batch_step ?cs store_empty r a'" by cases (auto elim: shared_history.cases)
  moreover have "item_fits [7]" by (simp add: item_fits_def LIST_HEADER_SIZE_def LIST_SEGMENT_SIZE_def)
  ultimately obtain e where "r = Err (ExecError e)" "refused e = refused (ListPopError KeyNotFound)" "so_lists a' = [''q'' \<mapsto> [[7]]]"
    by (auto simp: not_refused status_ok status_err failing_job_def batch_step_simps list_step_simps store_empty_def set_queue_def queue_of_def tag_defs)
  with H(2) run' run(2) show ?thesis by fastforce
qed

end
