(* ===== verification/Api.thy ===== *)
theory Api
  imports Pool
begin

text \<open>
  The HTTP side of the client (\<open>client/src/api/handlers.rs\<close>, \<open>client/src/api/router.rs\<close>,
  \<open>client/src/main.rs\<close>): one handler per endpoint, each of which takes a connection from the pool, makes
  one call of the client library on it, turns the result into a status and a JSON body, and gives the
  connection back.

  JSON values, compression, the base64 of the \<open>base64\<close> crate and the text of a point in time come from
  third-party crates: they are the fields of \<open>libs\<close>, over a type \<open>'j\<close> of JSON values and a type \<open>'m\<close> of JSON
  objects; \<open>None\<close> is the error of the library, which the handlers mostly \<open>unwrap\<close>. A handler starts
  with its arguments extracted from the request, which is the framework's work.
\<close>

section \<open>Outcomes\<close>

text \<open>A \<open>json!\<close> body as the handlers write it.\<close>

datatype ('j, 'm) body =
    BText string
  | BNum nat
  | BTexts "string list"
  | BJson 'j
  | BMap 'm
  | BList "('j, 'm) body list"
  | BObj "(string \<times> ('j, 'm) body) list"

datatype status = OK | BAD_REQUEST | NOT_FOUND | INTERNAL_SERVER_ERROR

datatype ('j, 'm) outcome = Replied status "('j, 'm) body" | Panicked fault | Waiting

record ('j, 'm) libs =
  lb_get :: "'j \<Rightarrow> string \<Rightarrow> 'j option"
  lb_as_u64 :: "'j \<Rightarrow> u64 option"
  lb_as_str :: "'j \<Rightarrow> string option"
  lb_as_strings :: "'j \<Rightarrow> string list option"
  lb_to_vec :: "'j \<Rightarrow> bytes option"
  lb_from_slice :: "bytes \<Rightarrow> 'j option"
  lb_null :: 'j
  lb_map_to_string :: "'m \<Rightarrow> string option"
  lb_map_from_slice :: "bytes \<Rightarrow> 'm option"
  lb_b64_encode :: "bytes \<Rightarrow> string"
  lb_b64_decode :: "string \<Rightarrow> bytes option"
  lb_zstd_encode :: "bytes \<Rightarrow> bytes option"
  lb_zstd_decode :: "bytes \<Rightarrow> bytes option"
  lb_time_text :: "i64 \<Rightarrow> string option"

text \<open>
  What one run of a handler takes from its surroundings; what the drop of the handle reads depends on the
  connection it has.
\<close>

record ('j, 'm) api_env =
  av_libs :: "('j, 'm) libs"
  av_reads :: "nat \<Rightarrow> try_read"
  av_socket :: "(string, unit) result"
  av_drop_read :: "stream_client \<Rightarrow> try_read"
  av_io_text :: "io_error \<Rightarrow> string"
  av_now :: "nat \<Rightarrow> i64"

record 's api =
  ap_pool :: pool
  ap_srv :: 's

section \<open>Payloads\<close>

definition encode_payload_b64 :: "('j, 'm) libs \<Rightarrow> 'm \<Rightarrow> bytes option" where
  "encode_payload_b64 lib payload = do {
     json_str \<leftarrow> lb_map_to_string lib payload;
     lb_zstd_encode lib (bytes_of_string (lb_b64_encode lib (bytes_of_string json_str)))
   }"

definition decode_payload_b64 :: "('j, 'm) libs \<Rightarrow> bytes \<Rightarrow> 'm option" where
  "decode_payload_b64 lib encoded = do {
     decompressed \<leftarrow> lb_zstd_decode lib encoded;
     b64_str \<leftarrow> from_utf8 decompressed;
     json_str \<leftarrow> lb_b64_decode lib b64_str;
     lb_map_from_slice lib json_str
   }"

text \<open>The entries of a batch, each with a clock reading of its own.\<close>

fun encode_entries :: "('j, 'm) libs \<Rightarrow> (nat \<Rightarrow> i64) \<Rightarrow> 'm list \<Rightarrow> (u64 \<times> bytes) list option" where
  "encode_entries lib now [] = Some []"
| "encode_entries lib now (e # es) = do {
     payload \<leftarrow> encode_payload_b64 lib e;
     rest \<leftarrow> encode_entries lib (\<lambda>i. now (Suc i)) es;
     Some ((now 0, payload) # rest)
   }"

fun decoded_entries :: "('j, 'm) libs \<Rightarrow> (u64 \<times> u64 \<times> bytes) list \<Rightarrow> ('j, 'm) body list option" where
  "decoded_entries lib [] = Some []"
| "decoded_entries lib ((i, timestamp, payload) # es) = do {
     m \<leftarrow> decode_payload_b64 lib payload;
     rest \<leftarrow> decoded_entries lib es;
     Some (BObj [(''id'', BNum (unat i)), (''timestamp'', BNum (unat timestamp)), (''payload'', BMap m)] # rest)
   }"

text \<open>\<open>Display\<close> of an unsigned integer.\<close>

fun decimal :: "nat \<Rightarrow> string" where
  "decimal n = (if n < 10 then [] else decimal (n div 10)) @ [char_of (48 + n mod 10)]"

declare decimal.simps [simp del]

section \<open>The frame of a handler\<close>

definition error_body :: "string \<Rightarrow> ('j, 'm) body" where
  "error_body e = BObj [(''error'', BText e)]"

definition status_ok :: "string \<Rightarrow> ('j, 'm) outcome" where
  "status_ok t = Replied OK (BObj [(''status'', BText t)])"

definition bad_request :: "string \<Rightarrow> ('j, 'm) outcome" where
  "bad_request e = Replied BAD_REQUEST (error_body e)"

text \<open>
  \<open>pool.acquire()\<close> at the start, and the drop of the handle at the end of the handler, which also
  happens when the rest of the handler returns early or panics. Dropping a handle without a connection
  does nothing.
\<close>

definition with_conn :: "('j, 'm) api_env \<Rightarrow> ('s \<times> stream_client \<Rightarrow> ('j, 'm) outcome \<times> 's \<times> stream_client)
    \<Rightarrow> 's api \<Rightarrow> ('j, 'm) outcome \<times> 's api" where
  "with_conn v f s =
     (case pool_acquire (av_reads v) (av_socket v) (ap_pool s) of
        (None, p) \<Rightarrow> (Waiting, s\<lparr>ap_pool := p\<rparr>)
      | (Some (Err e), p) \<Rightarrow> (Replied INTERNAL_SERVER_ERROR (error_body e), s\<lparr>ap_pool := p\<rparr>)
      | (Some (Fault x), p) \<Rightarrow> (Panicked x, s\<lparr>ap_pool := p\<rparr>)
      | (Some (Ok pc), p) \<Rightarrow>
          (case pc_conn pc of
             Ok c \<Rightarrow>
               (let (r, s', c') = f (ap_srv s, c)
                in (r, \<lparr>ap_pool = drop_client (av_drop_read v c') (pc\<lparr>pc_client := Some c'\<rparr>) p, ap_srv = s'\<rparr>))
           | _ \<Rightarrow> (Panicked UnwrapPanic, s\<lparr>ap_pool := p\<rparr>)))"

text \<open>The \<open>match\<close> on the result of the call.\<close>

definition answer :: "('j, 'm) api_env \<Rightarrow> ('a \<Rightarrow> ('j, 'm) outcome) \<Rightarrow> 'a reply \<Rightarrow> ('j, 'm) outcome" where
  "answer v f r =
     (case r of
        Ok (Ok x) \<Rightarrow> f x
      | Ok (Err e) \<Rightarrow> bad_request e
      | Ok (Fault p) \<Rightarrow> Panicked p
      | Err e \<Rightarrow> Replied INTERNAL_SERVER_ERROR (error_body (av_io_text v e))
      | Fault p \<Rightarrow> Panicked p)"

definition call_conn :: "('j, 'm) api_env \<Rightarrow> ('s \<times> stream_client \<Rightarrow> 'a reply \<times> 's \<times> stream_client)
    \<Rightarrow> ('a \<Rightarrow> ('j, 'm) outcome) \<Rightarrow> 's \<times> stream_client \<Rightarrow> ('j, 'm) outcome \<times> 's \<times> stream_client" where
  "call_conn v op f sc = (let (r, sc') = op sc in (answer v f r, sc'))"

text \<open>A value the handler unwraps before it calls.\<close>

definition unwrapped :: "'a option \<Rightarrow> ('a \<Rightarrow> 's \<times> stream_client \<Rightarrow> ('j, 'm) outcome \<times> 's \<times> stream_client)
    \<Rightarrow> 's \<times> stream_client \<Rightarrow> ('j, 'm) outcome \<times> 's \<times> stream_client" where
  "unwrapped x f sc = (case x of Some y \<Rightarrow> f y sc | None \<Rightarrow> (Panicked UnwrapPanic, sc))"

text \<open>A field the request has to have.\<close>

definition required :: "string \<Rightarrow> 'a option \<Rightarrow> ('a \<Rightarrow> 's \<times> stream_client \<Rightarrow> ('j, 'm) outcome \<times> 's \<times> stream_client)
    \<Rightarrow> 's \<times> stream_client \<Rightarrow> ('j, 'm) outcome \<times> 's \<times> stream_client" where
  "required e x f sc = (case x of Some y \<Rightarrow> f y sc | None \<Rightarrow> (bad_request e, sc))"

section \<open>Log groups\<close>

definition api_create_group :: "('j, 'm) api_env \<Rightarrow> 's peer \<Rightarrow> string \<Rightarrow> 's api \<Rightarrow> ('j, 'm) outcome \<times> 's api" where
  "api_create_group v peer name =
     with_conn v (call_conn v (sc_create_group (conn_peer peer) name) (\<lambda>_. status_ok ''group created''))"

definition api_list_groups :: "('j, 'm) api_env \<Rightarrow> 's peer \<Rightarrow> 's api \<Rightarrow> ('j, 'm) outcome \<times> 's api" where
  "api_list_groups v peer =
     with_conn v (call_conn v (sc_list_groups (conn_peer peer))
       (\<lambda>groups. Replied OK (BObj [(''groups'', BTexts groups)])))"

definition api_drop_group :: "('j, 'm) api_env \<Rightarrow> 's peer \<Rightarrow> string \<Rightarrow> 's api \<Rightarrow> ('j, 'm) outcome \<times> 's api" where
  "api_drop_group v peer name =
     with_conn v (call_conn v (sc_drop_group (conn_peer peer) name) (\<lambda>_. status_ok ''group dropped''))"

definition api_group_stats :: "('j, 'm) api_env \<Rightarrow> 's peer \<Rightarrow> string \<Rightarrow> 's api \<Rightarrow> ('j, 'm) outcome \<times> 's api" where
  "api_group_stats v peer name =
     with_conn v (call_conn v (sc_group_stats (conn_peer peer) name)
       (\<lambda>(entries, segments, next_id). Replied OK (BObj [(''entries'', BNum (unat entries)),
          (''segments'', BNum (unat segments)), (''next_id'', BNum (unat next_id))])))"

definition api_add_entry :: "('j, 'm) api_env \<Rightarrow> 's peer \<Rightarrow> string \<Rightarrow> 'm \<Rightarrow> 's api \<Rightarrow> ('j, 'm) outcome \<times> 's api" where
  "api_add_entry v peer name req =
     with_conn v (unwrapped (encode_payload_b64 (av_libs v) req) (\<lambda>payload.
       call_conn v (sc_add (conn_peer peer) name (av_now v 0) payload)
         (\<lambda>i. Replied OK (BObj [(''status'', BText ''entry added''), (''id'', BNum (unat i))]))))"

definition api_add_range_entries :: "('j, 'm) api_env \<Rightarrow> 's peer \<Rightarrow> string \<Rightarrow> 'm list \<Rightarrow> 's api
    \<Rightarrow> ('j, 'm) outcome \<times> 's api" where
  "api_add_range_entries v peer name req =
     with_conn v (unwrapped (encode_entries (av_libs v) (av_now v) req) (\<lambda>entries.
       call_conn v (sc_add_range (conn_peer peer) name entries)
         (\<lambda>(first, last). Replied OK (BObj [(''status'', BText ''entries added''),
            (''first'', BNum (unat first)), (''last'', BNum (unat last))]))))"

definition api_read_entry :: "('j, 'm) api_env \<Rightarrow> 's peer \<Rightarrow> string \<Rightarrow> u64 \<Rightarrow> 's api \<Rightarrow> ('j, 'm) outcome \<times> 's api" where
  "api_read_entry v peer name i =
     with_conn v (call_conn v (sc_read (conn_peer peer) name i) (\<lambda>(i, timestamp, payload).
       case decode_payload_b64 (av_libs v) payload of
         None \<Rightarrow> Panicked UnwrapPanic
       | Some payload_decoded \<Rightarrow>
           let time = (case lb_time_text (av_libs v) timestamp of Some t \<Rightarrow> t | None \<Rightarrow> ''invalid timestamp'') in
           Replied OK (BObj [(''id'', BNum (unat i)), (''timestamp'', BText time), (''payload'', BMap payload_decoded)])))"

definition api_read_range_entries :: "('j, 'm) api_env \<Rightarrow> 's peer \<Rightarrow> string \<Rightarrow> u64 \<Rightarrow> u64 \<Rightarrow> 's api
    \<Rightarrow> ('j, 'm) outcome \<times> 's api" where
  "api_read_range_entries v peer name start_id end_id =
     with_conn v (call_conn v (sc_read_range (conn_peer peer) name start_id end_id) (\<lambda>entries.
       case decoded_entries (av_libs v) entries of
         None \<Rightarrow> Panicked UnwrapPanic
       | Some entries_decoded \<Rightarrow> Replied OK (BObj [(''entries'', BList entries_decoded)])))"

definition api_drop_entries :: "('j, 'm) api_env \<Rightarrow> 's peer \<Rightarrow> string \<Rightarrow> u64 \<Rightarrow> 's api \<Rightarrow> ('j, 'm) outcome \<times> 's api" where
  "api_drop_entries v peer grp upto_id =
     with_conn v (call_conn v (sc_remove (conn_peer peer) grp upto_id)
       (\<lambda>_. status_ok (''entries dropped up to id '' @ decimal (unat upto_id))))"

section \<open>Key-value databases\<close>

definition api_kv_set :: "('j, 'm) api_env \<Rightarrow> 's peer \<Rightarrow> string \<Rightarrow> string \<Rightarrow> 'j \<Rightarrow> 's api
    \<Rightarrow> ('j, 'm) outcome \<times> 's api" where
  "api_kv_set v peer db key req =
     (let lib = av_libs v;
          ttl_secs = (case lb_get lib req ''ttl'' \<bind> lb_as_u64 lib of Some n \<Rightarrow> n | None \<Rightarrow> 0)
      in with_conn v (required ''missing val'' (lb_get lib req ''val'') (\<lambda>x.
           unwrapped (lb_to_vec lib x) (\<lambda>val.
             call_conn v (sc_kv_set (conn_peer peer) db key val ttl_secs) (\<lambda>_. status_ok ''ok'')))))"

definition api_kv_get :: "('j, 'm) api_env \<Rightarrow> 's peer \<Rightarrow> string \<Rightarrow> string \<Rightarrow> 's api \<Rightarrow> ('j, 'm) outcome \<times> 's api" where
  "api_kv_get v peer db key =
     with_conn v (call_conn v (sc_kv_get (conn_peer peer) db key) (\<lambda>r.
       case r of
         Some bs \<Rightarrow>
           let val = (case lb_from_slice (av_libs v) bs of Some x \<Rightarrow> x | None \<Rightarrow> lb_null (av_libs v)) in
           Replied OK (BObj [(''val'', BJson val)])
       | None \<Rightarrow> Replied NOT_FOUND (error_body ''key not found'')))"

definition api_kv_del :: "('j, 'm) api_env \<Rightarrow> 's peer \<Rightarrow> string \<Rightarrow> string \<Rightarrow> 's api \<Rightarrow> ('j, 'm) outcome \<times> 's api" where
  "api_kv_del v peer db key =
     with_conn v (call_conn v (sc_kv_del (conn_peer peer) db key) (\<lambda>_. status_ok ''deleted''))"

definition api_kv_keys :: "('j, 'm) api_env \<Rightarrow> 's peer \<Rightarrow> string \<Rightarrow> 's api \<Rightarrow> ('j, 'm) outcome \<times> 's api" where
  "api_kv_keys v peer db =
     with_conn v (call_conn v (sc_kv_keys (conn_peer peer) db)
       (\<lambda>keys. Replied OK (BObj [(''keys'', BTexts keys)])))"

definition api_kv_flush :: "('j, 'm) api_env \<Rightarrow> 's peer \<Rightarrow> string \<Rightarrow> 's api \<Rightarrow> ('j, 'm) outcome \<times> 's api" where
  "api_kv_flush v peer db =
     with_conn v (call_conn v (sc_kv_flush (conn_peer peer) db) (\<lambda>_. status_ok ''flushed''))"

section \<open>Lists\<close>

text \<open>\<open>v as u32\<close> keeps the low 32 bits.\<close>

definition u32_field :: "('j, 'm) libs \<Rightarrow> 'j \<Rightarrow> string \<Rightarrow> u32 option" where
  "u32_field lib req name = map_option ucast (lb_get lib req name \<bind> lb_as_u64 lib)"

definition api_list_push :: "('j, 'm) api_env \<Rightarrow> 's peer \<Rightarrow> string \<Rightarrow> 'j \<Rightarrow> 's api \<Rightarrow> ('j, 'm) outcome \<times> 's api" where
  "api_list_push v peer key req =
     with_conn v (required ''missing val'' (lb_get (av_libs v) req ''val'' \<bind> lb_as_str (av_libs v)) (\<lambda>val.
       call_conn v (sc_l_push (conn_peer peer) key (bytes_of_string val)) (\<lambda>_. status_ok ''ok'')))"

definition api_list_push_range :: "('j, 'm) api_env \<Rightarrow> 's peer \<Rightarrow> string \<Rightarrow> 'j \<Rightarrow> 's api \<Rightarrow> ('j, 'm) outcome \<times> 's api" where
  "api_list_push_range v peer key req =
     with_conn v (required ''missing vals'' (lb_get (av_libs v) req ''vals'' \<bind> lb_as_strings (av_libs v)) (\<lambda>vals.
       call_conn v (sc_l_push_range (conn_peer peer) key (map bytes_of_string vals)) (\<lambda>_. status_ok ''ok'')))"

definition api_list_pop :: "('j, 'm) api_env \<Rightarrow> 's peer \<Rightarrow> string \<Rightarrow> 's api \<Rightarrow> ('j, 'm) outcome \<times> 's api" where
  "api_list_pop v peer key =
     with_conn v (call_conn v (sc_l_pop (conn_peer peer) key) (\<lambda>r.
       case r of
         Some val \<Rightarrow> Replied OK (BObj [(''val'', BText (from_utf8_lossy val))])
       | None \<Rightarrow> Replied NOT_FOUND (error_body ''list empty or not found'')))"

definition vals_body :: "bytes list \<Rightarrow> ('j, 'm) outcome" where
  "vals_body vals = Replied OK (BObj [(''vals'', BTexts (map from_utf8_lossy vals))])"

definition api_list_pop_range :: "('j, 'm) api_env \<Rightarrow> 's peer \<Rightarrow> string \<Rightarrow> 'j \<Rightarrow> 's api \<Rightarrow> ('j, 'm) outcome \<times> 's api" where
  "api_list_pop_range v peer key req =
     with_conn v (required ''missing start'' (u32_field (av_libs v) req ''start'') (\<lambda>start.
       required ''missing end'' (u32_field (av_libs v) req ''end'') (\<lambda>stop.
         call_conn v (sc_l_pop_range (conn_peer peer) key start stop) vals_body)))"

definition api_list_pop_count :: "('j, 'm) api_env \<Rightarrow> 's peer \<Rightarrow> string \<Rightarrow> 'j \<Rightarrow> 's api \<Rightarrow> ('j, 'm) outcome \<times> 's api" where
  "api_list_pop_count v peer key req =
     with_conn v (required ''missing count'' (u32_field (av_libs v) req ''count'') (\<lambda>n.
       call_conn v (sc_l_pop_count (conn_peer peer) key n) vals_body))"

definition api_list_len :: "('j, 'm) api_env \<Rightarrow> 's peer \<Rightarrow> string \<Rightarrow> 's api \<Rightarrow> ('j, 'm) outcome \<times> 's api" where
  "api_list_len v peer key =
     with_conn v (call_conn v (sc_l_len (conn_peer peer) key)
       (\<lambda>n. Replied OK (BObj [(''len'', BNum (unat n))])))"

definition api_list_flush :: "('j, 'm) api_env \<Rightarrow> 's peer \<Rightarrow> string \<Rightarrow> 's api \<Rightarrow> ('j, 'm) outcome \<times> 's api" where
  "api_list_flush v peer key =
     with_conn v (call_conn v (sc_l_flush (conn_peer peer) key) (\<lambda>_. status_ok ''flushed''))"

definition api_health :: "('j, 'm) outcome" where
  "api_health = status_ok ''ok''"

section \<open>Routes and start\<close>

datatype http_method = GET | POST | DELETE

datatype handler =
    Health | ListGroupsH | CreateGroupH | DropGroupH | GroupStatsH | AddEntryH | AddRangeEntriesH
  | ReadEntryH | ReadRangeEntriesH | DropEntriesH | KvSetH | KvGetH | KvDelH | KvKeysH | KvFlushH
  | ListPushH | ListPushRangeH | ListPopH | ListPopRangeH | ListPopCountH | ListLenH | ListFlushH

type_synonym route = "string \<times> (http_method \<times> handler) list"

definition routes :: "route list" where
  "routes =
     [(''/groups'', [(GET, ListGroupsH)]),
      (''/groups/{name}'', [(POST, CreateGroupH)]),
      (''/groups/{name}'', [(DELETE, DropGroupH)]),
      (''/groups/{name}/stats'', [(GET, GroupStatsH)]),
      (''/groups/{name}/entries'', [(POST, AddEntryH)]),
      (''/groups/{name}/entries/batch'', [(POST, AddRangeEntriesH)]),
      (''/groups/{name}/entries/single/{id}'', [(GET, ReadEntryH)]),
      (''/groups/{name}/entries/range/{start_id}/{end_id}'', [(GET, ReadRangeEntriesH)]),
      (''/groups/{name}/entries/trim/{upto_id}'', [(DELETE, DropEntriesH)]),
      (''/kv/:db/:key'', [(POST, KvSetH), (GET, KvGetH), (DELETE, KvDelH)]),
      (''/kv/:db/keys'', [(GET, KvKeysH)]),
      (''/kv/:db/flush'', [(POST, KvFlushH)]),
      (''/list/:key/push'', [(POST, ListPushH)]),
      (''/list/:key/push-range'', [(POST, ListPushRangeH)]),
      (''/list/:key/pop'', [(POST, ListPopH)]),
      (''/list/:key/pop-range'', [(POST, ListPopRangeH)]),
      (''/list/:key/pop-count'', [(POST, ListPopCountH)]),
      (''/list/:key/len'', [(POST, ListLenH)]),
      (''/list/:key/flush'', [(POST, ListFlushH)])]"

text \<open>\<open>Router::route\<close> of the framework takes a path or panics; \<open>path_ok\<close> says which.\<close>

fun add_routes :: "(string \<Rightarrow> bool) \<Rightarrow> route list \<Rightarrow> route list \<Rightarrow> (string, route list) result" where
  "add_routes path_ok router [] = Ok router"
| "add_routes path_ok router ((path, ms) # rs) =
     (if path_ok path then add_routes path_ok (router @ [(path, ms)]) rs else Fault RoutePanic)"

definition build_router :: "(string \<Rightarrow> bool) \<Rightarrow> (string, route list) result" where
  "build_router path_ok =
     (case add_routes path_ok [] [(''/health'', [(GET, Health)])] of
        Ok health_route \<Rightarrow> map_ok (\<lambda>router. health_route @ router) (add_routes path_ok [] routes)
      | e \<Rightarrow> e)"

text \<open>\<open>str::parse\<close> to an unsigned integer of 64 bits.\<close>

definition digit :: "char \<Rightarrow> nat option" where
  "digit c = (let n = of_char c :: nat in if 48 \<le> n \<and> n \<le> 57 then Some (n - 48) else None)"

fun digits :: "nat \<Rightarrow> string \<Rightarrow> nat option" where
  "digits acc [] = Some acc"
| "digits acc (c # cs) = do {
     d \<leftarrow> digit c;
     if acc * 10 + d < 2 ^ 64 then digits (acc * 10 + d) cs else None
   }"

definition parse_usize :: "string \<Rightarrow> nat option" where
  "parse_usize t =
     (let t' = (case t of c # cs \<Rightarrow> if c = CHR ''+'' then cs else t | [] \<Rightarrow> t)
      in if t' = [] then None else digits 0 t')"

definition or_default :: "string option \<Rightarrow> string \<Rightarrow> string" where
  "or_default x d = (case x of Some t \<Rightarrow> t | None \<Rightarrow> d)"

definition pool_size :: "string option \<Rightarrow> nat" where
  "pool_size var = (case parse_usize (or_default var ''10'') of Some n \<Rightarrow> n | None \<Rightarrow> 10)"

text \<open>
  \<open>main\<close> with the three variables of the environment: the address it binds, the pool and the routes it
  serves, or the error or panic it ends with before that.
\<close>

definition api_main :: "(string \<Rightarrow> bool) \<Rightarrow> (nat \<Rightarrow> (string, unit) result) \<Rightarrow> (string \<Rightarrow> (string, unit) result)
    \<Rightarrow> string option \<Rightarrow> string option \<Rightarrow> string option \<Rightarrow> (string, string \<times> pool \<times> route list) result" where
  "api_main path_ok sockets listen server_var size_var http_var =
     (let server_addr = or_default server_var ''localhost:9090'';
          http_addr = or_default http_var ''localhost:8000''
      in case pool_new sockets server_addr (pool_size size_var) of
           Err e \<Rightarrow> Err e
         | Fault p \<Rightarrow> Fault p
         | Ok pool \<Rightarrow>
             (case build_router path_ok of
                Err e \<Rightarrow> Err e
              | Fault p \<Rightarrow> Fault p
              | Ok app \<Rightarrow> map_ok (\<lambda>_. (http_addr, pool, app)) (listen http_addr)))"

end
