(* ===== verification/Pool_Props.thy ===== *)
theory Pool_Props
  imports Pool
begin

text \<open>
  What the pool guarantees: connections are neither lost nor multiplied except where the code says so,
  a waiting caller can be served as long as not every connection has been lost, and what happens when
  all of them have been; and how a call that is dropped half way upsets the calls after it.
\<close>

section \<open>Accounting\<close>

text \<open>The connections of a pool, wherever they are, and those still to be made.\<close>

definition tokens :: "pool_sys \<Rightarrow> nat" where
  "tokens s = length (pl_queue (ps_pool s)) + length (pl_sending (ps_pool s)) + pl_spawned (ps_pool s) +
     length (ps_lent s)"

definition pool_inv :: "nat \<Rightarrow> pool_sys \<Rightarrow> bool" where
  "pool_inv n s \<longleftrightarrow>
     pl_size (ps_pool s) = n \<and> pl_active (ps_pool s) = word_of_nat n \<and>
     length (pl_queue (ps_pool s)) \<le> n \<and> list_all (\<lambda>pc. pc_client pc \<noteq> None) (ps_lent s) \<and>
     n \<le> tokens s + ps_failed s \<and> tokens s \<le> n + ps_extra s"

lemmas pool_defs =
  acquire_attempt_def spawn_replacement_def replacement_connected_def replacement_sent_def try_send_def
  drop_client_def pc_discard_def pc_poison_def lend_def give_back_def sc_connect_def

lemma connect_all_ok: "connect_all socks n cs = Ok ds \<Longrightarrow> length ds = length cs + n"
proof (induction socks n cs rule: connect_all.induct)
  case (2 socks n cs)
  then show ?case by (cases "sc_connect (socks 0)") auto
qed simp

lemma map_ok_Ok: "map_ok f r = Ok y \<longleftrightarrow> (\<exists>x. r = Ok x \<and> y = f x)"
  by (cases r) auto

lemma pool_new_inv: "pool_new socks addr n = Ok p \<Longrightarrow> pool_inv n (pool_sys_init p)"
  by (auto simp: pool_new_def map_ok_Ok pool_inv_def pool_sys_init_def tokens_def dest!: connect_all_ok split: if_splits)

lemma list_all_give_back:
  "list_all P xs \<Longrightarrow> list_all P (take i xs @ drop (Suc i) xs)"
  by (auto simp: list_all_iff dest: in_set_takeD in_set_dropD)

lemma list_all_update: "list_all P xs \<Longrightarrow> P y \<Longrightarrow> list_all P (xs[i := y])"
  using set_update_subset_insert [of xs i y] by (auto simp: list_all_iff)

lemma list_all_at: "list_all P xs \<Longrightarrow> i < length xs \<Longrightarrow> P (xs ! i)"
  by (simp add: list_all_length)

lemma pool_inv_step: "pool_step s t \<Longrightarrow> pool_inv n s \<Longrightarrow> pool_inv n t"
proof (induction rule: pool_step.induct)
  case (got s k r c p)
  then show ?case
    by (auto simp: pool_inv_def tokens_def pool_defs Let_def split: list.splits if_splits)
next
  case (dead s k r p)
  then show ?case
    by (auto simp: pool_inv_def tokens_def pool_defs Let_def split: list.splits if_splits)
next
  case (talk i s c c')
  then show ?case by (auto simp: pool_inv_def tokens_def intro!: list_all_update)
next
  case (poison i s)
  then show ?case
    using list_all_at [of _ "ps_lent s" i]
    by (auto simp: pool_inv_def tokens_def pc_poison_def intro!: list_all_update)
next
  case (dropped i s r)
  then obtain c where "pc_client (ps_lent s ! i) = Some c"
    using list_all_at [of _ "ps_lent s" i] by (auto simp: pool_inv_def)
  moreover have "length (take i (ps_lent s) @ drop (Suc i) (ps_lent s)) = length (ps_lent s) - 1"
    using dropped(1) by simp
  moreover have "length (ps_lent s) > 0" using dropped(1) by auto
  ultimately show ?case
    using dropped list_all_give_back [of "\<lambda>pc. pc_client pc \<noteq> None" "ps_lent s" i]
    by (auto simp: pool_inv_def tokens_def drop_client_def spawn_replacement_def try_send_def give_back_def)
next
  case (discard i s r)
  moreover have "length (take i (ps_lent s) @ drop (Suc i) (ps_lent s)) = length (ps_lent s) - 1"
    using discard(1) by simp
  moreover have "length (ps_lent s) > 0" using discard(1) by auto
  ultimately show ?case
    using list_all_give_back [of "\<lambda>pc. pc_client pc \<noteq> None" "ps_lent s" i]
    by (auto simp: pool_inv_def tokens_def drop_client_def spawn_replacement_def pc_discard_def give_back_def)
next
  case (sent s p)
  then show ?case
    by (auto simp: pool_inv_def tokens_def replacement_sent_def split: list.splits if_splits)
qed (auto simp: pool_inv_def tokens_def replacement_connected_def lend_def Let_def)

lemma pool_inv_reachable: "pool_step\<^sup>*\<^sup>* s t \<Longrightarrow> pool_inv n s \<Longrightarrow> pool_inv n t"
  by (induction rule: rtranclp_induct) (auto intro: pool_inv_step)

text \<open>
  C23. Accounting of the pool: under every interleaving of callers, holders and replacement tasks the
  channel holds at most the configured number of connections; the connections queued, lent, being
  sent and being made fall short of that number by at most one for each failed replacement, and exceed
  it by at most one for each connection made after the attempts ran out.
\<close>

theorem pool_accounting:
  assumes "pool_new socks addr n = Ok p" and "pool_step\<^sup>*\<^sup>* (pool_sys_init p) s"
  shows "length (pl_queue (ps_pool s)) \<le> n \<and> n \<le> tokens s + ps_failed s \<and> tokens s \<le> n + ps_extra s"
  using pool_inv_reachable [OF assms(2) pool_new_inv [OF assms(1)]] by (simp add: pool_inv_def)

theorem pool_accounting_witness:
  "\<exists>p s. pool_new (\<lambda>_. Ok ()) ''a'' 2 = Ok p \<and> pool_step\<^sup>*\<^sup>* (pool_sys_init p) s \<and>
     pl_spawned (ps_pool s) = 1 \<and> tokens s \<le> 2 + ps_extra s"
proof -
  let ?c = "\<lparr>sc_inbox = [], sc_closed = False\<rparr>"
  let ?p = "\<lparr>pl_queue = [?c, ?c], pl_size = 2, pl_addr = ''a'', pl_active = 2, pl_max_size = 2, pl_spawned = 0, pl_sending = []\<rparr>"
  let ?s = "(pool_sys_init ?p)\<lparr>ps_acq := Some 3\<rparr>"
  let ?t = "?s\<lparr>ps_pool := ?p\<lparr>pl_queue := [?c], pl_spawned := 1\<rparr>, ps_acq := Some 2\<rparr>"
  have new: "pool_new (\<lambda>_. Ok ()) ''a'' 2 = Ok ?p" by (simp add: pool_new_def eval_nat_numeral sc_connect_def)
  have "pool_step (pool_sys_init ?p) ?s"
    using pool_step.call [of "pool_sys_init ?p"] by (simp add: pool_sys_init_def max_attempts_def)
  moreover have "pool_step ?s ?t"
    using pool_step.dead [of ?s 2 "ReadOk 0"] by (simp add: pool_sys_init_def pool_defs is_alive_def)
  ultimately have r: "pool_step\<^sup>*\<^sup>* (pool_sys_init ?p) ?t"
    by (rule converse_rtranclp_into_rtranclp [OF _ r_into_rtranclp])
  show ?thesis using pool_accounting [OF new r] new r by (intro exI [of _ ?p] exI [of _ ?t]) simp
qed

section \<open>Waiting for a connection\<close>

lemma serve_queued:
  assumes "ps_acq s = Some (Suc k)" and "pl_queue (ps_pool s) = c # cs"
  shows "\<exists>t. pool_step s t \<and> ps_acq t = None \<and> length (ps_lent t) = Suc (length (ps_lent s))"
  using pool_step.got [OF assms(1), of WouldBlock c] assms(2)
  by (auto simp: acquire_attempt_def is_alive_def lend_def Let_def)

lemma serve_sending:
  assumes "ps_acq s = Some (Suc k)" and "pl_queue (ps_pool s) = []" and "pl_sending (ps_pool s) = c # cs"
    and "pl_size (ps_pool s) > 0"
  shows "\<exists>t. pool_step\<^sup>*\<^sup>* s t \<and> ps_acq t = None \<and> length (ps_lent t) = Suc (length (ps_lent s))"
proof -
  let ?s = "s\<lparr>ps_pool := (ps_pool s)\<lparr>pl_queue := [c], pl_sending := cs\<rparr>\<rparr>"
  have "pool_step s ?s" using assms by (intro pool_step.sent) (simp add: replacement_sent_def)
  moreover obtain t where "pool_step ?s t" "ps_acq t = None" "length (ps_lent t) = Suc (length (ps_lent s))"
    using serve_queued [of ?s k c "[]"] assms(1) by auto
  ultimately show ?thesis using converse_rtranclp_into_rtranclp [OF _ r_into_rtranclp] by metis
qed

lemma serve_spawned:
  assumes "ps_acq s = Some (Suc k)" and "pl_queue (ps_pool s) = []" and "pl_sending (ps_pool s) = []"
    and "pl_spawned (ps_pool s) > 0" and "pl_size (ps_pool s) > 0"
  shows "\<exists>t. pool_step\<^sup>*\<^sup>* s t \<and> ps_acq t = None \<and> length (ps_lent t) = Suc (length (ps_lent s))"
proof -
  let ?s = "s\<lparr>ps_pool := replacement_connected (Ok ()) (ps_pool s)\<rparr>"
  have "pool_step s ?s" using assms(4) by (rule pool_step.replaced) (simp add: sc_connect_def)
  moreover obtain t where "pool_step\<^sup>*\<^sup>* ?s t" "ps_acq t = None" "length (ps_lent t) = Suc (length (ps_lent s))"
    using serve_sending [of ?s k "\<lparr>sc_inbox = [], sc_closed = False\<rparr>" "[]"] assms
    by (auto simp: replacement_connected_def sc_connect_def Let_def)
  ultimately show ?thesis by (meson converse_rtranclp_into_rtranclp)
qed

text \<open>
  A waiting caller can be served: when nobody holds a connection and fewer replacements have failed
  than the pool has connections, a caller inside the loop of \<open>acquire\<close> has a continuation in which it
  returns with a connection, through the channel or through a replacement under way.
\<close>

theorem pool_can_serve:
  assumes "pool_new socks addr n = Ok p" and "pool_step\<^sup>*\<^sup>* (pool_sys_init p) s"
    and "ps_acq s = Some (Suc k)" and "ps_lent s = []" and "ps_failed s < n"
  shows "\<exists>t. pool_step\<^sup>*\<^sup>* s t \<and> ps_acq t = None \<and> length (ps_lent t) = 1"
proof -
  have inv: "pool_inv n s" using pool_inv_reachable [OF assms(2) pool_new_inv [OF assms(1)]] .
  then have "tokens s > 0" and n: "pl_size (ps_pool s) > 0" using assms(5) by (auto simp: pool_inv_def)
  then consider c cs where "pl_queue (ps_pool s) = c # cs"
    | c cs where "pl_queue (ps_pool s) = []" "pl_sending (ps_pool s) = c # cs"
    | "pl_queue (ps_pool s) = []" "pl_sending (ps_pool s) = []" "pl_spawned (ps_pool s) > 0"
    using assms(4) by (cases "pl_queue (ps_pool s)"; cases "pl_sending (ps_pool s)") (auto simp: tokens_def)
  then have "\<exists>t. pool_step\<^sup>*\<^sup>* s t \<and> ps_acq t = None \<and> length (ps_lent t) = Suc (length (ps_lent s))"
    by cases (use serve_queued [OF assms(3)] serve_sending [OF assms(3)] serve_spawned [OF assms(3)] n in blast)+
  then show ?thesis using assms(4) by simp
qed

lemma same_fields:
  "pl_spawned (ps_pool s) = m \<Longrightarrow> s\<lparr>ps_pool := (ps_pool s)\<lparr>pl_spawned := m\<rparr>\<rparr> = s"
  "pl_queue (ps_pool s) = q \<Longrightarrow> ps_acq s = a \<Longrightarrow> s\<lparr>ps_pool := (ps_pool s)\<lparr>pl_queue := q\<rparr>, ps_acq := a\<rparr> = s"
  by (cases s, cases "ps_pool s", simp)+

lemma fail_replacements:
  "pl_spawned (ps_pool s) = m \<Longrightarrow> pool_step\<^sup>*\<^sup>* s (s\<lparr>ps_pool := (ps_pool s)\<lparr>pl_spawned := 0\<rparr>, ps_failed := ps_failed s + m\<rparr>)"
proof (induction m arbitrary: s)
  case (Suc m)
  let ?s = "s\<lparr>ps_pool := (ps_pool s)\<lparr>pl_spawned := m\<rparr>, ps_failed := ps_failed s + 1\<rparr>"
  have "pool_step s ?s"
    using pool_step.replace_failed [of s "Err ''refused''" "''refused''"] Suc.prems
    by (simp add: replacement_connected_def sc_connect_def)
  moreover have "pool_step\<^sup>*\<^sup>* ?s (s\<lparr>ps_pool := (ps_pool s)\<lparr>pl_spawned := 0\<rparr>, ps_failed := ps_failed s + Suc m\<rparr>)"
    using Suc.IH [of ?s] by simp
  ultimately show ?case by (rule converse_rtranclp_into_rtranclp)
qed (simp add: same_fields)

lemma skip_dead:
  "pl_queue (ps_pool s) = cs \<Longrightarrow> ps_acq s = Some (length cs + k) \<Longrightarrow>
   pool_step\<^sup>*\<^sup>* s (s\<lparr>ps_pool := (ps_pool s)\<lparr>pl_queue := [], pl_spawned := pl_spawned (ps_pool s) + length cs\<rparr>, ps_acq := Some k\<rparr>)"
proof (induction cs arbitrary: s)
  case (Cons c cs)
  let ?s = "s\<lparr>ps_pool := (ps_pool s)\<lparr>pl_queue := cs, pl_spawned := pl_spawned (ps_pool s) + 1\<rparr>, ps_acq := Some (length cs + k)\<rparr>"
  have "pool_step s ?s"
    using pool_step.dead [of s "length cs + k" "ReadOk 0"] Cons.prems
    by (simp add: acquire_attempt_def is_alive_def spawn_replacement_def)
  moreover have "pool_step\<^sup>*\<^sup>* ?s (s\<lparr>ps_pool := (ps_pool s)\<lparr>pl_queue := [], pl_spawned := pl_spawned (ps_pool s) + length (c # cs)\<rparr>, ps_acq := Some k\<rparr>)"
    using Cons.IH [of ?s] by simp
  ultimately show ?case by (rule converse_rtranclp_into_rtranclp)
qed (simp add: same_fields)

lemma unat_succ_of_nat: "n < 2 ^ 64 - 1 \<Longrightarrow> unat (word_of_nat n + 1 :: u64) = n + 1"
proof -
  assume "n < 2 ^ 64 - 1"
  then have "unat (word_of_nat (Suc n) :: u64) = Suc n" by (simp only: unat_of_nat) simp
  then show ?thesis by (simp add: add.commute)
qed

text \<open>No connection anywhere and none being made.\<close>

definition starved :: "pool_sys \<Rightarrow> bool" where
  "starved s \<longleftrightarrow> pl_queue (ps_pool s) = [] \<and> pl_sending (ps_pool s) = [] \<and> pl_spawned (ps_pool s) = 0 \<and>
     ps_lent s = [] \<and> ps_acq s \<noteq> Some 0 \<and> max_attempts (ps_pool s) \<noteq> 0"

lemma starved_step: "pool_step s t \<Longrightarrow> starved s \<Longrightarrow> starved t"
  by (induction rule: pool_step.induct) (auto simp: starved_def acquire_attempt_def replacement_sent_def)

lemma starved_forever: "pool_step\<^sup>*\<^sup>* s t \<Longrightarrow> starved s \<Longrightarrow> starved t"
  by (induction rule: rtranclp_induct) (auto intro: starved_step)

text \<open>
  C24. A pool that has lost every connection never recovers: when all connections are found dead once and
  the reconnects are refused, a state is reached from which, whatever happens and although the server
  may be back, no call of \<open>acquire\<close> ever returns a connection, and the caller that waits keeps the lock.
\<close>

theorem pool_starves:
  assumes "pool_new socks addr n = Ok p" and "n < 2 ^ 64 - 1"
  shows "\<exists>s. pool_step\<^sup>*\<^sup>* (pool_sys_init p) s \<and> ps_failed s = n \<and> ps_acq s = Some 1 \<and>
    (\<forall>t. pool_step\<^sup>*\<^sup>* s t \<longrightarrow> ps_lent t = [] \<and> ps_acq t \<noteq> Some 0)"
proof -
  have p: "length (pl_queue p) = n" "pl_sending p = []" "pl_spawned p = 0" "max_attempts p = n + 1"
    using assms unat_succ_of_nat [of n]
    by (auto simp: pool_new_def map_ok_Ok max_attempts_def dest!: connect_all_ok split: if_splits)
  let ?a = "(pool_sys_init p)\<lparr>ps_acq := Some (n + 1)\<rparr>"
  let ?b = "?a\<lparr>ps_pool := p\<lparr>pl_queue := [], pl_spawned := n\<rparr>, ps_acq := Some 1\<rparr>"
  let ?c = "?b\<lparr>ps_pool := p\<lparr>pl_queue := [], pl_spawned := 0\<rparr>, ps_failed := n\<rparr>"
  have "pool_step (pool_sys_init p) ?a"
    using pool_step.call [of "pool_sys_init p"] p(4) by (simp add: pool_sys_init_def)
  moreover have "pool_step\<^sup>*\<^sup>* ?a ?b" using skip_dead [of ?a "pl_queue p" 1] p by (simp add: pool_sys_init_def)
  moreover have "pool_step\<^sup>*\<^sup>* ?b ?c" using fail_replacements [of ?b n] by (simp add: pool_sys_init_def)
  ultimately have "pool_step\<^sup>*\<^sup>* (pool_sys_init p) ?c" by (meson converse_rtranclp_into_rtranclp rtranclp_trans)
  moreover have "starved ?c" using p by (simp add: starved_def pool_sys_init_def max_attempts_def)
  ultimately show ?thesis
    using starved_forever by (intro exI [of _ ?c]) (auto simp: starved_def)
qed

definition two_conns :: pool where
  "two_conns = \<lparr>pl_queue = [\<lparr>sc_inbox = [], sc_closed = False\<rparr>, \<lparr>sc_inbox = [], sc_closed = False\<rparr>], pl_size = 2, pl_addr = ''a'', pl_active = 2,
     pl_max_size = 2, pl_spawned = 0, pl_sending = []\<rparr>"

lemma two_conns_new: "pool_new (\<lambda>_. Ok ()) ''a'' 2 = Ok two_conns"
  by (simp add: pool_new_def eval_nat_numeral sc_connect_def two_conns_def)

lemma two_conns_called: "pool_step\<^sup>*\<^sup>* (pool_sys_init two_conns) ((pool_sys_init two_conns)\<lparr>ps_acq := Some 3\<rparr>)"
  using pool_step.call [of "pool_sys_init two_conns"]
  by (intro r_into_rtranclp) (simp add: pool_sys_init_def max_attempts_def two_conns_def)

theorem pool_can_serve_witness:
  "\<exists>t. pool_step\<^sup>*\<^sup>* ((pool_sys_init two_conns)\<lparr>ps_acq := Some 3\<rparr>) t \<and> ps_acq t = None \<and> length (ps_lent t) = 1"
  using pool_can_serve [OF two_conns_new two_conns_called, of 2] by (simp add: pool_sys_init_def)

theorem pool_starves_witness:
  "\<exists>s. pool_step\<^sup>*\<^sup>* (pool_sys_init two_conns) s \<and> ps_failed s = 2 \<and> ps_acq s = Some 1 \<and>
    (\<forall>t. pool_step\<^sup>*\<^sup>* s t \<longrightarrow> ps_lent t = [] \<and> ps_acq t \<noteq> Some 0)"
  using pool_starves [OF two_conns_new] by simp

section \<open>The operation and its steps\<close>

lemma acquire_loop_steps:
  "ps_acq s = Some n \<Longrightarrow> acquire_loop n rs (ps_pool s) = (a, p) \<Longrightarrow>
   \<exists>k. pool_step\<^sup>*\<^sup>* s (case a of
       Got c \<Rightarrow> lend c (s\<lparr>ps_pool := p\<rparr>)
     | Exhausted \<Rightarrow> s\<lparr>ps_pool := p, ps_acq := Some 0\<rparr>
     | Waits m \<Rightarrow> s\<lparr>ps_pool := p, ps_acq := Some k\<rparr>)"
proof (induction n arbitrary: s rs)
  case 0
  then have "s\<lparr>ps_pool := p, ps_acq := Some 0\<rparr> = s" "a = Exhausted" by (cases s; auto)+
  then show ?case by simp
next
  case (Suc n)
  show ?case
  proof (cases "acquire_attempt (rs 0) (ps_pool s)")
    case None
    then have "s\<lparr>ps_pool := p, ps_acq := Some (Suc n)\<rparr> = s" "a = Waits (Suc n)"
      using Suc.prems by (cases s; auto)+
    then show ?thesis by (intro exI [of _ "Suc n"]) simp
  next
    case (Some x)
    obtain co p' where x: "x = (co, p')" by fastforce
    show ?thesis
    proof (cases co)
      case None
      let ?s = "s\<lparr>ps_pool := p', ps_acq := Some n\<rparr>"
      have "pool_step s ?s" using pool_step.dead [OF Suc.prems(1)] Some x None by simp
      moreover have "acquire_loop n (\<lambda>i. rs (Suc i)) (ps_pool ?s) = (a, p)"
        using Suc.prems(2) Some x None by simp
      ultimately show ?thesis
        using Suc.IH [of ?s] converse_rtranclp_into_rtranclp [of pool_step s ?s]
        by (cases a) (fastforce simp: lend_def)+
    next
      case (Some c)
      then have "a = Got c" "p = p'" using Suc.prems(2) \<open>acquire_attempt (rs 0) (ps_pool s) = Some x\<close> x by auto
      moreover have "pool_step s (lend c (s\<lparr>ps_pool := p'\<rparr>))"
        using pool_step.got [OF Suc.prems(1)] Some \<open>acquire_attempt (rs 0) (ps_pool s) = Some x\<close> x by simp
      ultimately show ?thesis by auto
    qed
  qed
qed

text \<open>A call of \<open>acquire\<close> that returns a handle is a sequence of steps that lends exactly that handle.\<close>

lemma acquire_is_steps:
  assumes "ps_acq s = None" and "pool_acquire rs sock (ps_pool s) = (Some (Ok pc), p)"
  shows "\<exists>t. pool_step\<^sup>*\<^sup>* s t \<and> ps_pool t = p \<and> ps_lent t = ps_lent s @ [pc] \<and> ps_acq t = None"
proof -
  let ?s = "s\<lparr>ps_acq := Some (max_attempts (ps_pool s))\<rparr>"
  have c: "pool_step\<^sup>*\<^sup>* s ?s" using assms(1) by (intro r_into_rtranclp pool_step.call)
  obtain a q where a: "acquire_loop (max_attempts (ps_pool s)) rs (ps_pool s) = (a, q)" by fastforce
  from a have l: "acquire_loop (max_attempts (ps_pool s)) rs (ps_pool ?s) = (a, q)" by simp
  show ?thesis
  proof (cases a)
    case (Got c')
    then have "pool_step\<^sup>*\<^sup>* s (lend c' (?s\<lparr>ps_pool := q\<rparr>))"
      using acquire_loop_steps [OF _ l] rtranclp_trans [OF c] by simp
    then show ?thesis
      using a assms(2) Got by (intro exI [of _ "lend c' (?s\<lparr>ps_pool := q\<rparr>)"]) (simp add: pool_acquire_def lend_def)
  next
    case Exhausted
    then obtain c' where c': "sc_connect sock = Ok c'" "pc = \<lparr>pc_client = Some c', pc_poisoned = False\<rparr>" "p = q"
      using a assms(2) by (auto simp: pool_acquire_def map_ok_Ok)
    let ?t = "?s\<lparr>ps_pool := q, ps_acq := Some 0\<rparr>"
    have "pool_step\<^sup>*\<^sup>* s ?t" using acquire_loop_steps [OF _ l] rtranclp_trans [OF c] Exhausted by simp
    moreover have "pool_step ?t (lend c' (?t\<lparr>ps_extra := ps_extra ?t + 1\<rparr>))"
      by (rule pool_step.connected [OF _ c'(1)]) simp
    ultimately have "pool_step\<^sup>*\<^sup>* s (lend c' (?t\<lparr>ps_extra := ps_extra ?t + 1\<rparr>))"
      by (rule rtranclp.rtrancl_into_rtrancl)
    then show ?thesis
      using c' by (intro exI [of _ "lend c' (?t\<lparr>ps_extra := ps_extra ?t + 1\<rparr>)"]) (simp add: lend_def)
  qed (use a assms(2) in \<open>auto simp: pool_acquire_def\<close>)
qed

section \<open>Calls dropped half way\<close>

text \<open>A peer that answers each of a sequence of requests with one response.\<close>

fun answered :: "'s peer \<Rightarrow> bytes list \<Rightarrow> 's \<Rightarrow> bytes list \<Rightarrow> bool" where
  "answered peer [] s rs \<longleftrightarrow> rs = []"
| "answered peer (f # fs) s rs \<longleftrightarrow>
     (case (rs, peer (put_bytes f) s) of
        (r # rs', (Ok out, s')) \<Rightarrow> out = put_bytes r \<and> length r < 2 ^ 32 \<and> answered peer fs s' rs'
      | _ \<Rightarrow> False)"

text \<open>The same requests made one after the other on a connection.\<close>

fun call_all :: "'s peer \<Rightarrow> bytes list \<Rightarrow> 's \<times> stream_client \<Rightarrow> (io_error, bytes) result list" where
  "call_all peer [] sc = []"
| "call_all peer (f # fs) sc =
     (let (r, sc') = send_recv (conn_peer peer) f sc in r # call_all peer fs sc')"

lemma recv_frame_put: "length r < 2 ^ 32 \<Longrightarrow> recv_frame (put_bytes r @ rest) = Ok r"
  and unread_after_put: "length r < 2 ^ 32 \<Longrightarrow> unread_after (put_bytes r @ rest) = rest"
  and answers_put: "length r < 2 ^ 32 \<Longrightarrow> answers (put_bytes r)"
  by (simp_all add: recv_frame_def unread_after_def put_bytes_def answers_def)

lemma send_recv_conn:
  assumes "peer (put_bytes f) s = (Ok out, s')" and "inbox @ out = put_bytes r @ rest" and "length r < 2 ^ 32"
    and "answers out"
  shows "send_recv (conn_peer peer) f (s, \<lparr>sc_inbox = inbox, sc_closed = False\<rparr>) = (Ok r, s', \<lparr>sc_inbox = rest, sc_closed = False\<rparr>)"
  using assms by (simp add: send_recv_def conn_peer_def put_bytes_fold recv_frame_put unread_after_put)

lemma answered_Cons:
  assumes "answered peer (f # fs) s rs"
  obtains r rs' s' where "rs = r # rs'" "peer (put_bytes f) s = (Ok (put_bytes r), s')" "length r < 2 ^ 32"
    "answered peer fs s' rs'"
proof -
  obtain q s' where q: "peer (put_bytes f) s = (q, s')" by fastforce
  show thesis
  proof (cases rs)
    case (Cons r rs')
    with assms q show ?thesis by (cases q) (simp_all add: that)
  qed (use assms in simp)
qed

lemma call_all_in_step: "answered peer fs s rs \<Longrightarrow> call_all peer fs (s, \<lparr>sc_inbox = [], sc_closed = False\<rparr>) = map Ok rs"
proof (induction fs arbitrary: s rs)
  case (Cons f fs)
  from Cons.prems obtain r rs' s' where *: "rs = r # rs'" "peer (put_bytes f) s = (Ok (put_bytes r), s')"
    "length r < 2 ^ 32" "answered peer fs s' rs'" by (rule answered_Cons)
  then have "send_recv (conn_peer peer) f (s, \<lparr>sc_inbox = [], sc_closed = False\<rparr>) = (Ok r, s', \<lparr>sc_inbox = [], sc_closed = False\<rparr>)"
    by (intro send_recv_conn [where out = "put_bytes r"] answers_put) simp_all
  with * Cons.IH show ?case by simp
qed simp

lemma call_all_behind:
  "answered peer fs s rs \<Longrightarrow> length r0 < 2 ^ 32 \<Longrightarrow>
   call_all peer fs (s, \<lparr>sc_inbox = put_bytes r0, sc_closed = False\<rparr>) = map Ok (butlast (r0 # rs))"
proof (induction fs arbitrary: s rs r0)
  case (Cons f fs)
  from Cons.prems(1) obtain r rs' s' where *: "rs = r # rs'" "peer (put_bytes f) s = (Ok (put_bytes r), s')"
    "length r < 2 ^ 32" "answered peer fs s' rs'" by (rule answered_Cons)
  then have "send_recv (conn_peer peer) f (s, \<lparr>sc_inbox = put_bytes r0, sc_closed = False\<rparr>) = (Ok r0, s', \<lparr>sc_inbox = put_bytes r, sc_closed = False\<rparr>)"
    using Cons.prems(2) by (intro send_recv_conn [where out = "put_bytes r"] answers_put) simp_all
  with * Cons.IH [of s' rs' r] show ?case by simp
qed simp

text \<open>
  C25. A call dropped half way upsets the calls after it: when the future of a call is dropped after its
  request is out, before the response has come, the handle still looks alive and its connection goes
  back to the pool. The next caller gets that connection, and every request on it is answered with the
  response to the request before; on a fresh connection every request gets its own response.
\<close>

theorem cancelled_call_shifts_responses:
  assumes "answered peer (f0 # fs) s (r0 # rs)" and "pl_queue p = []" and "pl_size p > 0" and "max_attempts p > 0"
  shows "let (s1, c1) = cancelled_call peer f0 (s, \<lparr>sc_inbox = [], sc_closed = False\<rparr>);
      h = \<lparr>pc_client = Some c1, pc_poisoned = False\<rparr>
    in pool_acquire (\<lambda>_. WouldBlock) sock (drop_client WouldBlock h p) = (Some (Ok h), p) \<and>
       call_all peer fs (s1, c1) = map Ok (butlast (r0 # rs)) \<and>
       call_all peer fs (s1, \<lparr>sc_inbox = [], sc_closed = False\<rparr>) = map Ok rs"
proof -
  from assms(1) obtain s' where *: "peer (put_bytes f0) s = (Ok (put_bytes r0), s')" "length r0 < 2 ^ 32"
    "answered peer fs s' rs" by (rule answered_Cons) auto
  obtain k where k: "max_attempts p = Suc k" using assms(4) gr0_implies_Suc by blast
  have "cancelled_call peer f0 (s, \<lparr>sc_inbox = [], sc_closed = False\<rparr>) = (s', \<lparr>sc_inbox = put_bytes r0, sc_closed = False\<rparr>)"
    using *(1,2) by (simp add: cancelled_call_def put_bytes_fold answers_put)
  moreover have "pool_acquire (\<lambda>_. WouldBlock) sock (drop_client WouldBlock h p) = (Some (Ok h), p)"
    if "h = \<lparr>pc_client = Some c, pc_poisoned = False\<rparr>" for h c
  proof -
    let ?p = "p\<lparr>pl_queue := [c]\<rparr>"
    have d: "drop_client WouldBlock h p = ?p"
      using assms(2,3) that by (simp add: drop_client_def try_send_def is_alive_def)
    have "max_attempts ?p = Suc k" using k by (simp add: max_attempts_def)
    then have "pool_acquire (\<lambda>_. WouldBlock) sock ?p = (Some (Ok h), p\<lparr>pl_queue := []\<rparr>)"
      using that by (simp add: pool_acquire_def acquire_attempt_def is_alive_def Let_def)
    moreover have "p\<lparr>pl_queue := []\<rparr> = p" using assms(2) by (cases p) simp
    ultimately show ?thesis using d by simp
  qed
  ultimately show ?thesis
    using call_all_behind [OF *(3,2)] call_all_in_step [OF *(3)] by (simp add: Let_def)
qed


theorem cancelled_call_shifts_responses_witness:
  "let (s1, c1) = cancelled_call (\<lambda>out s. (Ok out, s)) [1] ((), \<lparr>sc_inbox = [], sc_closed = False\<rparr>) in
     call_all (\<lambda>out s. (Ok out, s)) [[2], [3]] (s1, c1) = [Ok [1], Ok [2]] \<and>
     call_all (\<lambda>out s. (Ok out, s)) [[2], [3]] (s1, \<lparr>sc_inbox = [], sc_closed = False\<rparr>) = [Ok [2], Ok [3]]"
proof -
  let ?p = "two_conns\<lparr>pl_queue := []\<rparr>"
  have "max_attempts ?p > 0" by (simp add: max_attempts_def two_conns_def)
  moreover have "answered (\<lambda>out s. (Ok out, s)) [[1], [2], [3]] () [[1], [2], [3]]" by simp
  ultimately show ?thesis
    using cancelled_call_shifts_responses [of "\<lambda>out s. (Ok out, s)" "[1]" "[[2], [3]]" "()" "[1]" "[[2], [3]]" ?p]
    by (auto simp: Let_def two_conns_def)
qed

end
