(* ===== verification/Api_Props.thy ===== *)
theory Api_Props
  imports Api Server_Props Pool_Props Log_Groups_Props
begin

text \<open>
  The HTTP endpoints over the pool, the client library and the server: what a request answers and does
  to the database, entries and values that come back as they went in, and the start of the process.
\<close>

section \<open>A handler on a healthy pool\<close>

text \<open>
  The pool has a connection, its connections are open with nothing unread, and \<open>try_read\<close> does what it is
  documented to do: nothing to read on an open connection, the end of the stream on a closed one.
\<close>

definition healthy :: "('j, 'm) api_env \<Rightarrow> pool \<Rightarrow> bool" where
  "healthy v p \<longleftrightarrow> av_reads v 0 = WouldBlock \<and>
     (\<forall>c. sc_inbox c = [] \<longrightarrow> av_drop_read v c = (if sc_closed c then ReadOk 0 else WouldBlock)) \<and> max_attempts p > 0 \<and>
     pl_queue p \<noteq> [] \<and> length (pl_queue p) \<le> pl_size p \<and> list_all (\<lambda>c. sc_inbox c = [] \<and> \<not> sc_closed c) (pl_queue p)"

abbreviation open_conn :: stream_client where
  "open_conn \<equiv> \<lparr>sc_inbox = [], sc_closed = False\<rparr>"

text \<open>The pool after a handler whose connection was closed by the server: a replacement is under way.\<close>

definition replacing :: "pool \<Rightarrow> pool" where
  "replacing p = spawn_replacement (p\<lparr>pl_queue := tl (pl_queue p)\<rparr>)"

lemma all_open: "list_all (\<lambda>c. sc_inbox c = [] \<and> \<not> sc_closed c) cs \<Longrightarrow> cs = replicate (length cs) open_conn"
  by (induction cs) (auto simp: stream_client.equality)

lemma healthy_acquire:
  assumes "healthy v p"
  shows "pool_acquire (av_reads v) sock p =
      (Some (Ok \<lparr>pc_client = Some open_conn, pc_poisoned = False\<rparr>), p\<lparr>pl_queue := tl (pl_queue p)\<rparr>)"
    and "drop_client (av_drop_read v \<lparr>sc_inbox = [], sc_closed = b\<rparr>)
        \<lparr>pc_client = Some \<lparr>sc_inbox = [], sc_closed = b\<rparr>, pc_poisoned = False\<rparr> (p\<lparr>pl_queue := tl (pl_queue p)\<rparr>) =
      (if b then replacing p else p)"
proof -
  obtain k where k: "max_attempts p = Suc k" using assms gr0_implies_Suc by (auto simp: healthy_def)
  obtain c cs where q: "pl_queue p = c # cs" using assms by (cases "pl_queue p") (auto simp: healthy_def)
  have f: "c = open_conn" "cs = replicate (length cs) open_conn"
    using assms all_open [of cs] q by (auto simp: healthy_def)
  show "pool_acquire (av_reads v) sock p =
      (Some (Ok \<lparr>pc_client = Some open_conn, pc_poisoned = False\<rparr>), p\<lparr>pl_queue := tl (pl_queue p)\<rparr>)"
    using assms k q f(1) by (simp add: pool_acquire_def acquire_attempt_def healthy_def is_alive_def)
  have "cs @ [open_conn] = c # cs" using f by (metis replicate_append_same)
  then show "drop_client (av_drop_read v \<lparr>sc_inbox = [], sc_closed = b\<rparr>)
        \<lparr>pc_client = Some \<lparr>sc_inbox = [], sc_closed = b\<rparr>, pc_poisoned = False\<rparr> (p\<lparr>pl_queue := tl (pl_queue p)\<rparr>) =
      (if b then replacing p else p)"
    using assms q by (simp add: drop_client_def healthy_def is_alive_def try_send_def replacing_def)
qed

lemma with_conn_healthy:
  assumes "healthy v (ap_pool a)" and "f (ap_srv a, open_conn) = (r, s', \<lparr>sc_inbox = [], sc_closed = b\<rparr>)"
  shows "with_conn v f a = (r, \<lparr>ap_pool = if b then replacing (ap_pool a) else ap_pool a, ap_srv = s'\<rparr>)"
  using assms(2) by (simp add: with_conn_def healthy_acquire [OF assms(1)] pc_conn_def)

text \<open>
  A database operation seen through the interface: what its result becomes, and the server and the pool after
  it. When the server panics, the connection is closed and replaced.
\<close>

definition http_of :: "('j, 'm) api_env \<Rightarrow> ('a \<Rightarrow> ('j, 'm) outcome) \<Rightarrow> (db_error, 'a) result \<Rightarrow> ('j, 'm) outcome" where
  "http_of v f r =
     (case r of
        Ok x \<Rightarrow> f x
      | Err e \<Rightarrow> bad_request (db_error_text e)
      | Fault p \<Rightarrow> Replied INTERNAL_SERVER_ERROR (error_body (av_io_text v UnexpectedEof)))"

definition http_do :: "('j, 'm) api_env \<Rightarrow> (db \<Rightarrow> (db_error, 'a) result \<times> db) \<Rightarrow> ('a \<Rightarrow> ('j, 'm) outcome)
    \<Rightarrow> 'w server api \<Rightarrow> ('j, 'm) outcome \<times> 'w server api" where
  "http_do v m f a =
     (let (r, d) = m (sv_db (ap_srv a))
      in (http_of v f r, \<lparr>ap_pool = if is_fault r then replacing (ap_pool a) else ap_pool a,
           ap_srv = (ap_srv a)\<lparr>sv_db := d\<rparr>\<rparr>))"

text \<open>The answer to a frame the server refuses: the connection is closed and replaced, nothing else changes.\<close>

definition http_refused :: "('j, 'm) api_env \<Rightarrow> 'w server api \<Rightarrow> ('j, 'm) outcome \<times> 'w server api" where
  "http_refused v a =
     (Replied INTERNAL_SERVER_ERROR (error_body (av_io_text v UnexpectedEof)), a\<lparr>ap_pool := replacing (ap_pool a)\<rparr>)"

lemma answer_delivered: "answer v f (delivered g r) = http_of v (\<lambda>x. f (g x)) r"
  by (cases r) (simp_all add: answer_def delivered_def http_of_def)

lemma call_served:
  assumes "healthy v (ap_pool a)" and "served_by e frame k m g (ap_srv a)"
  shows "with_conn v (call_conn v (request (conn_peer (server_peer e)) frame k) f) a = http_do v m (\<lambda>x. f (g x)) a"
proof -
  obtain r d where rd: "m (sv_db (ap_srv a)) = (r, d)" by fastforce
  have "call_conn v (request (conn_peer (server_peer e)) frame k) f (ap_srv a, open_conn) =
      (http_of v (\<lambda>x. f (g x)) r, (ap_srv a)\<lparr>sv_db := d\<rparr>, \<lparr>sc_inbox = [], sc_closed = is_fault r\<rparr>)"
    by (simp add: call_conn_def served_on_conn [OF assms(2)] rd answer_delivered)
  from with_conn_healthy [where f = "call_conn v (request (conn_peer (server_peer e)) frame k) f", OF assms(1) this] show ?thesis by (simp add: http_do_def rd)
qed

lemma with_conn_early:
  assumes "healthy v (ap_pool a)"
  shows "with_conn v (required t None f) a = (bad_request t, a)" "with_conn v (unwrapped None f') a = (Panicked UnwrapPanic, a)"
  using with_conn_healthy [OF assms, where f = "required t None f" and b = False and s' = "ap_srv a"]
    with_conn_healthy [OF assms, where f = "unwrapped None f'" and b = False and s' = "ap_srv a"]
  by (simp_all add: required_def unwrapped_def)

lemma given [simp]: "required t (Some x) f = f x" "unwrapped (Some x) f = f x"
  by (simp_all add: required_def unwrapped_def fun_eq_iff)

text \<open>A frame above the limit: the server closes the connection without an answer.\<close>

lemma oversized_on_conn:
  assumes "length frame > MAX_FRAME_SIZE" and "length frame < 2 ^ 32"
  shows "request (conn_peer (server_peer e)) frame k (s, open_conn) =
    (Err UnexpectedEof, s, \<lparr>sc_inbox = [], sc_closed = True\<rparr>)"
proof -
  have "codec_decode (put_bytes frame) = TooLarge (length frame)"
    using assms by (simp add: codec_decode_def put_bytes_def)
  then have p: "server_peer e (put_bytes frame) s = (Ok [], s)" by (simp add: server_peer_def decode_all.simps)
  from request_conn [where peer = "server_peer e", OF p after_nothing(1), of k] p after_nothing(2) show ?thesis
    by (simp add: request_def send_recv_def put_bytes_fold recv_frame_def)
qed

lemma call_oversized:
  assumes "healthy v (ap_pool a)" and "length frame > MAX_FRAME_SIZE" and "length frame < 2 ^ 32"
  shows "with_conn v (call_conn v (request (conn_peer (server_peer e)) frame k) f) a = http_refused v a"
proof -
  have "call_conn v (request (conn_peer (server_peer e)) frame k) f (ap_srv a, open_conn) =
      (Replied INTERNAL_SERVER_ERROR (error_body (av_io_text v UnexpectedEof)), ap_srv a, \<lparr>sc_inbox = [], sc_closed = True\<rparr>)"
    by (simp add: call_conn_def oversized_on_conn [OF assms(2,3)] answer_def)
  from with_conn_healthy [where f = "call_conn v (request (conn_peer (server_peer e)) frame k) f", OF assms(1) this] show ?thesis by (simp add: http_refused_def)
qed

section \<open>Endpoints\<close>

text \<open>What the handlers answer to the results of the calls.\<close>

definition added_reply :: "u64 \<Rightarrow> ('j, 'm) outcome" where
  "added_reply i = Replied OK (BObj [(''status'', BText ''entry added''), (''id'', BNum (unat i))])"

definition entry_reply :: "('j, 'm) api_env \<Rightarrow> u64 \<times> u64 \<times> bytes \<Rightarrow> ('j, 'm) outcome" where
  "entry_reply v = (\<lambda>(i, ts, p).
     case decode_payload_b64 (av_libs v) p of
       None \<Rightarrow> Panicked UnwrapPanic
     | Some m \<Rightarrow> Replied OK (BObj [(''id'', BNum (unat i)),
         (''timestamp'', BText (case lb_time_text (av_libs v) ts of Some t \<Rightarrow> t | None \<Rightarrow> ''invalid timestamp'')),
         (''payload'', BMap m)]))"

definition stats_reply :: "u64 \<times> u32 \<times> u64 \<Rightarrow> ('j, 'm) outcome" where
  "stats_reply = (\<lambda>(entries, segments, next_id). Replied OK (BObj [(''entries'', BNum (unat entries)),
     (''segments'', BNum (unat segments)), (''next_id'', BNum (unat next_id))]))"

definition range_added_reply :: "u64 \<times> u64 \<Rightarrow> ('j, 'm) outcome" where
  "range_added_reply = (\<lambda>(first, last). Replied OK (BObj [(''status'', BText ''entries added''),
     (''first'', BNum (unat first)), (''last'', BNum (unat last))]))"

definition entries_reply :: "('j, 'm) api_env \<Rightarrow> (u64 \<times> u64 \<times> bytes) list \<Rightarrow> ('j, 'm) outcome" where
  "entries_reply v es =
     (case decoded_entries (av_libs v) es of
        None \<Rightarrow> Panicked UnwrapPanic
      | Some bs \<Rightarrow> Replied OK (BObj [(''entries'', BList bs)]))"

text \<open>What a response frame can carry.\<close>

definition names_fit :: "string list \<Rightarrow> bool" where
  "names_fit gs \<longleftrightarrow> list_all wire_str gs \<and> length gs < 2 ^ 32 \<and> length (ok_group_list gs) < 2 ^ 32"

definition entries_fit :: "entry list \<Rightarrow> bool" where
  "entries_fit es \<longleftrightarrow> list_all (\<lambda>e. wire_bytes (snd (snd e))) es \<and> length es < 2 ^ 32 \<and> length (ok_entries es) < 2 ^ 32"

definition value_reply :: "('j, 'm) api_env \<Rightarrow> bytes option \<Rightarrow> ('j, 'm) outcome" where
  "value_reply v x =
     (case x of
        Some bs \<Rightarrow> Replied OK (BObj [(''val'',
          BJson (case lb_from_slice (av_libs v) bs of Some y \<Rightarrow> y | None \<Rightarrow> lb_null (av_libs v)))])
      | None \<Rightarrow> Replied NOT_FOUND (error_body ''key not found''))"

lemma http_groups:
  assumes "healthy v (ap_pool a)" and "name_ok grp"
  shows "api_create_group v (server_peer e) grp a =
      http_do v (db_log_create_group (se_env e) grp) (\<lambda>_. status_ok ''group created'') a"
    and "api_drop_group v (server_peer e) grp a =
      http_do v (db_log_drop_group grp) (\<lambda>_. status_ok ''group dropped'') a"
    and "api_group_stats v (server_peer e) grp a =
      http_do v (\<lambda>d. (db_log_group_stats grp d, d)) (\<lambda>st. stats_reply (read_stats st)) a"
  unfolding api_create_group_def sc_create_group_def api_drop_group_def sc_drop_group_def
    api_group_stats_def sc_group_stats_def stats_reply_def
  using call_served [OF assms(1) group_served(1) [OF assms(2)]] call_served [OF assms(1) group_served(2) [OF assms(2)]]
    call_served [OF assms(1) group_stats_served [OF assms(2)]] by simp_all

lemma http_list_groups:
  assumes "healthy v (ap_pool a)" and "names_fit (list_groups (se_iter e) (st_gm (d_st (sv_db (ap_srv a)))))"
  shows "api_list_groups v (server_peer e) a =
    http_do v (\<lambda>d. (db_log_list_groups (se_iter e) d, d)) (\<lambda>gs. Replied OK (BObj [(''groups'', BTexts gs)])) a"
proof -
  have "served_by e list_groups_frame (if_ok_len 5 (resp_counted resp_name))
      (\<lambda>d. (db_log_list_groups (se_iter e) d, d)) (\<lambda>x. x) (ap_srv a)"
    using assms(2) by (intro list_groups_served) (auto simp: names_fit_def db_log_list_groups_def)
  from call_served [OF assms(1) this] show ?thesis unfolding api_list_groups_def sc_list_groups_def .
qed

lemma http_drop_entries:
  assumes "healthy v (ap_pool a)" and "name_ok grp"
  shows "api_drop_entries v (server_peer e) grp i a =
    http_do v (db_log_remove (se_env e) grp i) (\<lambda>_. status_ok (''entries dropped up to id '' @ decimal (unat i))) a"
  unfolding api_drop_entries_def sc_remove_def using call_served [OF assms(1) remove_served [OF assms(2)]] .

lemma http_add_entry:
  assumes "healthy v (ap_pool a)" and "name_ok grp" and "encode_payload_b64 (av_libs v) req = Some p"
    and "length (add_frame grp (av_now v 0) p) < 2 ^ 32"
  shows "api_add_entry v (server_peer e) grp req a =
    (if length (add_frame grp (av_now v 0) p) \<le> MAX_FRAME_SIZE
     then http_do v (db_log_add (se_env e) grp (av_now v 0) p) added_reply a else http_refused v a)"
  unfolding api_add_entry_def sc_add_def added_reply_def [abs_def] assms(3) given
  using assms(4) by (simp add: call_served [OF assms(1) add_served [OF assms(2)]] call_oversized [OF assms(1)])

lemma http_add_range:
  assumes "healthy v (ap_pool a)" and "name_ok grp" and "encode_entries (av_libs v) (av_now v) reqs = Some es"
    and "length (add_range_frame grp es) < 2 ^ 32"
  shows "api_add_range_entries v (server_peer e) grp reqs a =
    (if length (add_range_frame grp es) \<le> MAX_FRAME_SIZE
     then http_do v (db_log_add_range (se_env e) grp es) range_added_reply a else http_refused v a)"
  unfolding api_add_range_entries_def sc_add_range_def range_added_reply_def assms(3) given
  using assms(4) by (simp add: call_served [OF assms(1) add_range_served [OF assms(2)]] call_oversized [OF assms(1)])

lemma http_read_entry:
  assumes "healthy v (ap_pool a)" and "name_ok grp"
    and "\<And>i' ts' p. fst (db_log_read (se_env e) grp i (sv_db (ap_srv a))) = Ok (i', ts', p) \<Longrightarrow> length p < 2 ^ 32 - 21"
  shows "api_read_entry v (server_peer e) grp i a = http_do v (db_log_read (se_env e) grp i) (entry_reply v) a"
  unfolding api_read_entry_def sc_read_def entry_reply_def Let_def
  using call_served [OF assms(1) read_served [OF assms(2,3)]] by simp

lemma http_read_range:
  assumes "healthy v (ap_pool a)" and "name_ok grp"
    and "\<And>es. fst (db_log_read_range (se_env e) grp i j (sv_db (ap_srv a))) = Ok es \<Longrightarrow> entries_fit es"
  shows "api_read_range_entries v (server_peer e) grp i j a = http_do v (db_log_read_range (se_env e) grp i j) (entries_reply v) a"
proof -
  have "served_by e (read_range_frame grp i j) (if_ok_len 5 (resp_counted resp_entry))
      (db_log_read_range (se_env e) grp i j) (\<lambda>x. x) (ap_srv a)"
    using assms(2,3) by (intro read_range_served) (auto simp: entries_fit_def)
  from call_served [OF assms(1) this] show ?thesis
    unfolding api_read_range_entries_def sc_read_range_def entries_reply_def [abs_def] .
qed

text \<open>
  C21. The nine log endpoints do what the database operation does: on a healthy pool, each of them leaves the
  server with exactly the database of its operation. A success is status 200 with its values, an error of
  the database is status 400 with its text. When the server panics the answer is status 500, and the
  connection, which the server has closed, is not put back: the pool starts a replacement. A request above
  16 MiB ends the same way and changes nothing in the server. Entries that cannot be encoded make a posting
  handler panic before it sends, a payload that does not decode a reading handler. Assumed: names of at
  most 65000 bytes, requests and responses below 4 GiB.
\<close>

theorem http_log_endpoints:
  assumes "healthy v (ap_pool a)" and "name_ok grp"
  shows "api_create_group v (server_peer e) grp a =
      http_do v (db_log_create_group (se_env e) grp) (\<lambda>_. status_ok ''group created'') a \<and>
    api_drop_group v (server_peer e) grp a =
      http_do v (db_log_drop_group grp) (\<lambda>_. status_ok ''group dropped'') a \<and>
    (names_fit (list_groups (se_iter e) (st_gm (d_st (sv_db (ap_srv a))))) \<longrightarrow> api_list_groups v (server_peer e) a =
      http_do v (\<lambda>d. (db_log_list_groups (se_iter e) d, d)) (\<lambda>gs. Replied OK (BObj [(''groups'', BTexts gs)])) a) \<and>
    api_group_stats v (server_peer e) grp a =
      http_do v (\<lambda>d. (db_log_group_stats grp d, d)) (\<lambda>st. stats_reply (read_stats st)) a \<and>
    api_drop_entries v (server_peer e) grp i a =
      http_do v (db_log_remove (se_env e) grp i) (\<lambda>_. status_ok (''entries dropped up to id '' @ decimal (unat i))) a \<and>
    (case encode_payload_b64 (av_libs v) req of
       None \<Rightarrow> api_add_entry v (server_peer e) grp req a = (Panicked UnwrapPanic, a)
     | Some p \<Rightarrow> length (add_frame grp (av_now v 0) p) < 2 ^ 32 \<longrightarrow> api_add_entry v (server_peer e) grp req a =
        (if length (add_frame grp (av_now v 0) p) \<le> MAX_FRAME_SIZE
         then http_do v (db_log_add (se_env e) grp (av_now v 0) p) added_reply a else http_refused v a)) \<and>
    (case encode_entries (av_libs v) (av_now v) reqs of
       None \<Rightarrow> api_add_range_entries v (server_peer e) grp reqs a = (Panicked UnwrapPanic, a)
     | Some es \<Rightarrow> length (add_range_frame grp es) < 2 ^ 32 \<longrightarrow> api_add_range_entries v (server_peer e) grp reqs a =
        (if length (add_range_frame grp es) \<le> MAX_FRAME_SIZE
         then http_do v (db_log_add_range (se_env e) grp es) range_added_reply a else http_refused v a)) \<and>
    ((\<forall>i' ts' p. fst (db_log_read (se_env e) grp i (sv_db (ap_srv a))) = Ok (i', ts', p) \<longrightarrow> length p < 2 ^ 32 - 21) \<longrightarrow>
      api_read_entry v (server_peer e) grp i a = http_do v (db_log_read (se_env e) grp i) (entry_reply v) a) \<and>
    ((\<forall>es. fst (db_log_read_range (se_env e) grp i j (sv_db (ap_srv a))) = Ok es \<longrightarrow> entries_fit es) \<longrightarrow>
      api_read_range_entries v (server_peer e) grp i j a = http_do v (db_log_read_range (se_env e) grp i j) (entries_reply v) a)"
proof (intro conjI impI)
  show "case encode_payload_b64 (av_libs v) req of
       None \<Rightarrow> api_add_entry v (server_peer e) grp req a = (Panicked UnwrapPanic, a)
     | Some p \<Rightarrow> length (add_frame grp (av_now v 0) p) < 2 ^ 32 \<longrightarrow> api_add_entry v (server_peer e) grp req a =
        (if length (add_frame grp (av_now v 0) p) \<le> MAX_FRAME_SIZE
         then http_do v (db_log_add (se_env e) grp (av_now v 0) p) added_reply a else http_refused v a)"
    using http_add_entry [OF assms] with_conn_early(2) [OF assms(1)] by (auto simp: api_add_entry_def split: option.split)
  show "case encode_entries (av_libs v) (av_now v) reqs of
       None \<Rightarrow> api_add_range_entries v (server_peer e) grp reqs a = (Panicked UnwrapPanic, a)
     | Some es \<Rightarrow> length (add_range_frame grp es) < 2 ^ 32 \<longrightarrow> api_add_range_entries v (server_peer e) grp reqs a =
        (if length (add_range_frame grp es) \<le> MAX_FRAME_SIZE
         then http_do v (db_log_add_range (se_env e) grp es) range_added_reply a else http_refused v a)"
    using http_add_range [OF assms] with_conn_early(2) [OF assms(1)]
    by (auto simp: api_add_range_entries_def split: option.split)
qed (use http_groups [OF assms] http_list_groups [OF assms(1)] http_drop_entries [OF assms]
      http_read_entry [OF assms] http_read_range [OF assms] in blast)+

lemma http_kv_set:
  assumes "healthy v (ap_pool a)" and "name_ok db" and "name_ok key"
    and "lb_get (av_libs v) req ''val'' = Some x" and "lb_to_vec (av_libs v) x = Some val"
    and "ttl = (case lb_get (av_libs v) req ''ttl'' \<bind> lb_as_u64 (av_libs v) of Some n \<Rightarrow> n | None \<Rightarrow> 0)"
    and "length (kv_set_frame db key val ttl) \<le> MAX_FRAME_SIZE"
  shows "api_kv_set v (server_peer e) db key req a =
    http_do v (db_kv_set (se_env e) db key val (ttl * 1000)) (\<lambda>_. status_ok ''ok'') a"
  unfolding api_kv_set_def sc_kv_set_def Let_def assms(4,5) given
  using assms(6,7) by (simp add: call_served [OF assms(1) kv_set_served [OF assms(2,3)]])

lemma http_kv_get:
  assumes "healthy v (ap_pool a)" and "name_ok db" and "name_ok key"
    and "\<And>x. fst (db_kv_get (se_env e) db key (sv_db (ap_srv a))) = Ok (Some x) \<Longrightarrow> length (de_val x) < 2 ^ 32 - 5"
  shows "api_kv_get v (server_peer e) db key a =
    http_do v (db_kv_get (se_env e) db key) (\<lambda>x. value_reply v (read_value x)) a"
  unfolding api_kv_get_def sc_kv_get_def value_reply_def Let_def
  using call_served [OF assms(1) kv_get_served [OF assms(2-4)]] by simp

text \<open>
  C22. The key-value endpoints do what the database operation does: a request without a value is status
  400 and changes nothing; otherwise its JSON text is stored, with the time to live of the request in
  milliseconds or none; a lookup answers the stored value parsed as JSON (\<open>null\<close> when it does not
  parse), or status 404; deleting a missing key is status 400.
\<close>

theorem http_kv_endpoints:
  assumes "healthy v (ap_pool a)" and "name_ok db" and "name_ok key"
  shows "(lb_get (av_libs v) req ''val'' = None \<longrightarrow>
      api_kv_set v (server_peer e) db key req a = (bad_request ''missing val'', a)) \<and>
    (let ttl = (case lb_get (av_libs v) req ''ttl'' \<bind> lb_as_u64 (av_libs v) of Some n \<Rightarrow> n | None \<Rightarrow> 0) in
     lb_get (av_libs v) req ''val'' = Some x \<and> lb_to_vec (av_libs v) x = Some val \<and>
     length (kv_set_frame db key val ttl) \<le> MAX_FRAME_SIZE \<longrightarrow>
      api_kv_set v (server_peer e) db key req a =
        http_do v (db_kv_set (se_env e) db key val (ttl * 1000)) (\<lambda>_. status_ok ''ok'') a) \<and>
    ((\<forall>x. fst (db_kv_get (se_env e) db key (sv_db (ap_srv a))) = Ok (Some x) \<longrightarrow> length (de_val x) < 2 ^ 32 - 5) \<longrightarrow>
      api_kv_get v (server_peer e) db key a =
        http_do v (db_kv_get (se_env e) db key) (\<lambda>x. value_reply v (read_value x)) a) \<and>
    api_kv_del v (server_peer e) db key a = http_do v (db_kv_del db key) (\<lambda>_. status_ok ''deleted'') a"
proof (intro conjI impI)
  show "api_kv_set v (server_peer e) db key req a = (bad_request ''missing val'', a)"
    if "lb_get (av_libs v) req ''val'' = None"
    using that by (simp add: api_kv_set_def Let_def with_conn_early [OF assms(1)])
  show "api_kv_del v (server_peer e) db key a = http_do v (db_kv_del db key) (\<lambda>_. status_ok ''deleted'') a"
    unfolding api_kv_del_def sc_kv_del_def by (rule call_served [OF assms(1) kv_del_served [OF assms(2,3)]])
qed (use http_kv_set [OF assms] http_kv_get [OF assms] in \<open>auto simp: Let_def\<close>)

section \<open>Entries and values come back\<close>

text \<open>
  What the handlers rely on in the libraries: base64 and compression read back what they wrote. The JSON
  library promises this of values without floating-point numbers only: without its feature
  \<open>float_roundtrip\<close>, which the client does not enable, the parser may be off in the last digits of a number.
\<close>

definition libs_ok :: "('j, 'm) libs \<Rightarrow> bool" where
  "libs_ok lib \<longleftrightarrow>
     (\<forall>b. utf8_valid (bytes_of_string (lb_b64_encode lib b)) \<and> lb_b64_decode lib (lb_b64_encode lib b) = Some b) \<and>
     (\<forall>b z. lb_zstd_encode lib b = Some z \<longrightarrow> lb_zstd_decode lib z = Some b) \<and> lb_from_slice lib [] = None"

text \<open>The object and the value the JSON library reads from its own text of another.\<close>

definition reread :: "('j, 'm) libs \<Rightarrow> 'm \<Rightarrow> 'm option" where
  "reread lib m = lb_map_to_string lib m \<bind> (\<lambda>t. lb_map_from_slice lib (bytes_of_string t))"

definition reread_value :: "('j, 'm) libs \<Rightarrow> 'j \<Rightarrow> 'j option" where
  "reread_value lib x = lb_to_vec lib x \<bind> lb_from_slice lib"

lemma payload_roundtrip: "libs_ok lib \<Longrightarrow> encode_payload_b64 lib m = Some p \<Longrightarrow> decode_payload_b64 lib p = reread lib m"
  by (auto simp: libs_ok_def encode_payload_b64_def decode_payload_b64_def from_utf8_def reread_def split: bind_splits)

lemma http_of_added: "http_of v added_reply r = added_reply i \<longleftrightarrow> r = Ok i"
  by (cases r) (auto simp: http_of_def added_reply_def bad_request_def word_unat_eq_iff)

lemma fst_results:
  "fst (http_do v m f a) = http_of v f (fst (m (sv_db (ap_srv a))))"
  "fst (db_log_read w grp i d) = map_err LogReadError (fst (gm_read (ev_hash w) (ev_clock w 0) grp i (st_gm (d_st d))))"
  "fst (db_kv_get w db key d) = Ok (fst (kv_get (ev_now w 0) (ev_now w 1) db key (st_kv (d_st d))))"
  by (simp_all add: http_do_def db_log_read_def db_kv_get_def split_beta Let_def)

lemma db_log_add_Ok:
  assumes "db_log_add v grp ts p s = (Ok i, d)"
  shows "gm_add (ev_hash v) (ev_alloc v 0) (ev_clock v 0) grp ts p (st_gm (d_st s)) = (Ok i, st_gm (d_st d))"
  using assms by (auto simp: db_log_add_def finish_def emit_def send_event_def set_gm_def split: prod.splits result.splits)

lemma db_read_after_add:
  assumes "gm_reachable (ev_hash v) (st_gm (d_st s))" and "gm_entries (st_gm (d_st s)) grp = Some es"
    and "pred_option (ids_left 1) (hm_get (gm_groups (st_gm (d_st s))) grp)"
    and "db_log_add v grp ts p s = (Ok i, d)" and "no_collision (ev_hash v) grp (es @ [(i, ts, p)]) i"
    and "ev_hash v' = ev_hash v"
  shows "fst (db_log_read v' grp i d) = Ok (i, ts, p)"
proof -
  note add = db_log_add_Ok [OF assms(4)]
  have r: "gm_reachable (ev_hash v) (st_gm (d_st d))"
    using gm_reachable.added [OF assms(1,3) add] by simp
  have e: "i \<notin> fst ` set es" "gm_entries (st_gm (d_st d)) grp = Some (es @ [(i, ts, p)])"
    using gm_add_entries [OF assms(1-3) add] by simp_all
  have "map_of (es @ [(i, ts, p)]) i = Some (ts, p)"
    using e(1) by (simp add: map_add_def map_of_eq_None_iff [THEN iffD2])
  then have "fst (gm_read (ev_hash v) (ev_clock v' 0) grp i (st_gm (d_st d))) = Ok (i, ts, p)"
    using gm_read_lookup [OF r e(2) assms(5)] by simp
  then show ?thesis using assms(6) by (simp add: fst_results)
qed

text \<open>
  C6. An entry posted over HTTP is read back over HTTP: when the post of a JSON object to a group answers
  with an id, a later get of that id on the same server answers status 200 with that id and the object the
  JSON library reads from its own text of the object posted, whatever compression, encoding, framing,
  cache and log segment it went through. That is the object posted itself when the library reads it back
  exactly, as it does for an object without floating-point numbers. Assumed: a healthy pool, no other live id
  of the group with the same hash, ids left in the group, a request of at most 16 MiB.
\<close>

theorem http_entry_roundtrip:
  assumes "healthy v (ap_pool a)" and "healthy v' (ap_pool a)" and "name_ok grp" and "libs_ok (av_libs v)"
    and "av_libs v' = av_libs v" and "ev_hash (se_env e') = ev_hash (se_env e)"
    and "gm_reachable (ev_hash (se_env e)) (st_gm (d_st (sv_db (ap_srv a))))"
    and "gm_entries (st_gm (d_st (sv_db (ap_srv a)))) grp = Some es"
    and "pred_option (ids_left 1) (hm_get (gm_groups (st_gm (d_st (sv_db (ap_srv a))))) grp)"
    and "encode_payload_b64 (av_libs v) req = Some p" and "length (add_frame grp (av_now v 0) p) \<le> MAX_FRAME_SIZE"
    and "api_add_entry v (server_peer e) grp req a = (added_reply i, a')"
    and "no_collision (ev_hash (se_env e)) grp (es @ [(i, av_now v 0, p)]) i" and "reread (av_libs v) req = Some m"
  shows "\<exists>time. fst (api_read_entry v' (server_peer e') grp i a') =
    Replied OK (BObj [(''id'', BNum (unat i)), (''timestamp'', BText time), (''payload'', BMap m)])"
proof -
  let ?s = "ap_srv a"
  obtain r d where rd: "db_log_add (se_env e) grp (av_now v 0) p (sv_db ?s) = (r, d)" by fastforce
  have l: "length (add_frame grp (av_now v 0) p) < 2 ^ 32" using assms(11) by (simp add: MAX_FRAME_SIZE_def)
  have "http_do v (db_log_add (se_env e) grp (av_now v 0) p) added_reply a = (added_reply i, a')"
    using http_add_entry [OF assms(1,3,10) l, of e] assms(11,12) by simp
  then have r: "r = Ok i" and a': "a' = a\<lparr>ap_srv := ?s\<lparr>sv_db := d\<rparr>\<rparr>"
    by (auto simp: http_do_def rd http_of_added)
  have read: "fst (db_log_read (se_env e') grp i d) = Ok (i, av_now v 0, p)"
    using db_read_after_add [OF assms(7-9) _ assms(13,6)] rd r by simp
  have "length p < 2 ^ 32 - 21" using assms(11) by (simp add: frame_defs MAX_FRAME_SIZE_def)
  then have "api_read_entry v' (server_peer e') grp i a' = http_do v' (db_log_read (se_env e') grp i) (entry_reply v') a'"
    using http_read_entry [of v' a' grp e' i] assms(2,3) read a' by simp
  then show ?thesis
    using read a' payload_roundtrip [OF assms(4,10)] assms(5,14)
    by (simp add: fst_results(1) http_of_def entry_reply_def)
qed

text \<open>
  A value set over HTTP without a time to live is read back, as the JSON library reads its own text, by a
  later lookup at any time, as long as nothing else has changed the store.
\<close>

theorem http_value_roundtrip:
  assumes "healthy v (ap_pool a)" and "healthy v' (ap_pool a)" and "name_ok db" and "name_ok key"
    and "libs_ok (av_libs v)" and "av_libs v' = av_libs v"
    and "lb_get (av_libs v) req ''val'' = Some x" and "lb_get (av_libs v) req ''ttl'' = None"
    and "lb_to_vec (av_libs v) x = Some val" and "length (kv_set_frame db key val 0) \<le> MAX_FRAME_SIZE"
    and "reread_value (av_libs v) x = Some y"
  shows "let (r, a') = api_kv_set v (server_peer e) db key req a in
    r = status_ok ''ok'' \<and>
    fst (api_kv_get v' (server_peer e') db key a') = Replied OK (BObj [(''val'', BJson y)])"
proof -
  let ?s = "ap_srv a"
  obtain d where d: "db_kv_set (se_env e) db key val 0 (sv_db ?s) = (Ok (), d)"
    by (simp add: db_kv_set_def finish_def)
  have set: "api_kv_set v (server_peer e) db key req a = (status_ok ''ok'', a\<lparr>ap_srv := ?s\<lparr>sv_db := d\<rparr>\<rparr>)"
    using http_kv_set [OF assms(1,3,4,7,9) _ assms(10), of e] assms(8) d by (auto simp: http_do_def http_of_def)
  have k: "kv_entry (st_kv (d_st d)) (db, key) = Some \<lparr>de_val = val, de_ttl = 0, de_used_count = 0, de_last_used = ev_now (se_env e) 1\<rparr>"
    using d by (auto simp: db_kv_set_def finish_def emit_def send_event_def set_kv_def kv_entry_set)
  then obtain t where g: "fst (db_kv_get (se_env e') db key d) =
      Ok (Some \<lparr>de_val = val, de_ttl = 0, de_used_count = 1, de_last_used = t\<rparr>)"
    using kv_get_result [of "ev_now (se_env e') 0" "ev_now (se_env e') 1" db key "st_kv (d_st d)"]
    by (simp add: fst_results)
  have v: "val \<noteq> []" "lb_from_slice (av_libs v) val = Some y"
    using assms(5,9,11) by (auto simp: libs_ok_def reread_value_def)
  have "length val < 2 ^ 32 - 5" using assms(10) by (simp add: frame_defs MAX_FRAME_SIZE_def)
  then have "api_kv_get v' (server_peer e') db key (a\<lparr>ap_srv := ?s\<lparr>sv_db := d\<rparr>\<rparr>) =
      http_do v' (db_kv_get (se_env e') db key) (\<lambda>x. value_reply v' (read_value x)) (a\<lparr>ap_srv := ?s\<lparr>sv_db := d\<rparr>\<rparr>)"
    using http_kv_get [of v' "a\<lparr>ap_srv := ?s\<lparr>sv_db := d\<rparr>\<rparr>" db key e'] assms(2-4) g by simp
  then show ?thesis
    using set g v assms(6) by (simp add: fst_results(1) http_of_def value_reply_def read_value_def)
qed

section \<open>Start-up\<close>

text \<open>A path with a segment that starts with a colon.\<close>

fun colon_segment :: "string \<Rightarrow> bool" where
  "colon_segment (a # b # t) \<longleftrightarrow> a = CHR ''/'' \<and> b = CHR '':'' \<or> colon_segment (b # t)"
| "colon_segment _ \<longleftrightarrow> False"

lemma add_routes_refused:
  "(path, ms) \<in> set rs \<Longrightarrow> \<not> path_ok path \<Longrightarrow> add_routes path_ok router rs = Fault RoutePanic"
  by (induction path_ok router rs rule: add_routes.induct) auto

text \<open>
  C26. The HTTP process never serves: the router of the framework (version 0.8) panics on a path segment
  that starts with a colon, and the key-value and list routes are written that way; so, whatever the
  environment says, the process connects its pool and then ends with that panic.
\<close>

theorem api_never_serves:
  assumes "\<forall>path. colon_segment path \<longrightarrow> \<not> path_ok path"
  shows "api_main path_ok sockets listen server_var size_var http_var =
    (case pool_new sockets (or_default server_var ''localhost:9090'') (pool_size size_var) of
       Ok _ \<Rightarrow> Fault RoutePanic | Err e \<Rightarrow> Err e | Fault p \<Rightarrow> Fault p)"
proof -
  have "(''/kv/:db/keys'', [(GET, KvKeysH)]) \<in> set routes" by (simp add: routes_def)
  moreover have "\<not> path_ok ''/kv/:db/keys''" using assms by simp
  ultimately have "build_router path_ok = Fault RoutePanic"
    by (simp add: build_router_def add_routes_refused)
  then show ?thesis by (simp add: api_main_def Let_def split: result.split)
qed

theorem api_never_serves_witness:
  "api_main (\<lambda>p. \<not> colon_segment p) (\<lambda>_. Ok ()) (\<lambda>_. Ok ()) None (Some ''2'') None = Fault RoutePanic"
proof -
  have "pool_size (Some ''2'') = 2"
    by (simp add: pool_size_def or_default_def parse_usize_def digit_def)
  then have "\<exists>p. pool_new (\<lambda>_. Ok ()) (or_default None ''localhost:9090'') (pool_size (Some ''2'')) = Ok p"
    by (simp add: pool_new_def eval_nat_numeral sc_connect_def)
  then show ?thesis using api_never_serves [of "\<lambda>p. \<not> colon_segment p"] by auto
qed

section \<open>Examples\<close>

text \<open>Libraries that satisfy \<open>libs_ok\<close>: texts stand for JSON, compression is the identity.\<close>

definition sample_libs :: "(bytes, string) libs" where
  "sample_libs = \<lparr>lb_get = (\<lambda>x name. if name = ''val'' then Some x else None), lb_as_u64 = (\<lambda>_. None),
     lb_as_str = (\<lambda>_. None), lb_as_strings = (\<lambda>_. None), lb_to_vec = (\<lambda>x. Some (34 # x)),
     lb_from_slice = (\<lambda>b. case b of [] \<Rightarrow> None | _ # x \<Rightarrow> Some x), lb_null = [],
     lb_map_to_string = Some, lb_map_from_slice = (\<lambda>b. Some (string_of_bytes b)),
     lb_b64_encode = encode_base64, lb_b64_decode = (\<lambda>t. Some (decode_base64 (bytes_of_string t))),
     lb_zstd_encode = Some, lb_zstd_decode = Some, lb_time_text = (\<lambda>_. None)\<rparr>"

lemma sample_libs_ok: "libs_ok sample_libs" "reread sample_libs m = Some m" "reread_value sample_libs x = Some x"
  by (simp_all add: libs_ok_def reread_def reread_value_def sample_libs_def base64_bytes utf8_text [OF base64_ascii])

definition sample_api_env :: "(bytes, string) api_env" where
  "sample_api_env = \<lparr>av_libs = sample_libs, av_reads = (\<lambda>_. WouldBlock), av_socket = Ok (),
     av_drop_read = (\<lambda>c. if sc_closed c then ReadOk 0 else WouldBlock), av_io_text = (\<lambda>_. ''eof''), av_now = (\<lambda>_. 9)\<rparr>"

lemma sample_healthy: "healthy sample_api_env two_conns"
  by (simp add: healthy_def sample_api_env_def two_conns_def max_attempts_def)

lemma sample_names: "name_ok ''g''" "name_ok ''d''" "name_ok ''k''"
  by (simp_all add: name_ok_def bytes_of_string_def)

theorem http_log_endpoints_witness:
  "api_drop_entries sample_api_env (server_peer sample_env) ''g'' 7 \<lparr>ap_pool = two_conns, ap_srv = sample_server kv_new\<rparr> =
     (bad_request (''failed to remove from log: group '' @ [CHR 0x27] @ ''g'' @ [CHR 0x27] @ '' not found''),
      \<lparr>ap_pool = two_conns, ap_srv = sample_server kv_new\<rparr>)"
proof -
  let ?a = "\<lparr>ap_pool = two_conns, ap_srv = sample_server kv_new\<rparr>"
  have "db_log_remove (se_env sample_env) ''g'' 7 (sv_db (sample_server kv_new)) =
      (Err (LogRemoveError (GroupNotFound ''g'')), sv_db (sample_server kv_new))"
    by (simp add: db_log_remove_def sample_server_def server_new_def gm_remove_def with_group_def gm_new_def finish_def set_gm_def)
  then show ?thesis
    using http_log_endpoints [of sample_api_env ?a "''g''" sample_env 7] sample_healthy sample_names
    by (simp add: http_do_def http_of_def)
qed

theorem http_kv_endpoints_witness:
  "api_kv_get sample_api_env (server_peer sample_env) ''d'' ''k'' \<lparr>ap_pool = two_conns, ap_srv = sample_server kv_new\<rparr> =
     (Replied NOT_FOUND (error_body ''key not found''),
      \<lparr>ap_pool = two_conns, ap_srv = (sample_server kv_new)\<lparr>sv_db := snd (db_kv_get (se_env sample_env) ''d'' ''k'' (sv_db (sample_server kv_new)))\<rparr>\<rparr>)"
proof -
  let ?a = "\<lparr>ap_pool = two_conns, ap_srv = sample_server kv_new\<rparr>"
  have "fst (db_kv_get (se_env sample_env) ''d'' ''k'' (sv_db (sample_server kv_new))) = Ok None"
    by (simp add: fst_results kv_get_result kv_entry_def sample_server_def server_new_def kv_new_def get_db_mut_def db_new_def)
  then show ?thesis
    using http_kv_endpoints [where v = sample_api_env and a = ?a and db = "''d''" and key = "''k''" and e = sample_env] sample_healthy sample_names
    by (auto simp: http_do_def http_of_def split_beta Let_def value_reply_def read_value_def)
qed

definition with_groups :: "group_manager \<Rightarrow> unit server api" where
  "with_groups m = \<lparr>ap_pool = two_conns, ap_srv = (sample_server kv_new)\<lparr>sv_db := set_gm m (sv_db (sample_server kv_new))\<rparr>\<rparr>"

theorem http_entry_roundtrip_witness:
  "\<exists>m a' time. api_add_entry sample_api_env (server_peer sample_env) ''g'' ''{}'' (with_groups m) = (added_reply 1, a') \<and>
     fst (api_read_entry sample_api_env (server_peer sample_env) ''g'' 1 a') =
       Replied OK (BObj [(''id'', BNum 1), (''timestamp'', BText time), (''payload'', BMap ''{}'')])"
proof -
  define p where "p = bytes_of_string (encode_base64 (bytes_of_string ''{}''))"
  have p: "encode_payload_b64 sample_libs ''{}'' = Some p" "length p = 4"
    by (simp_all add: p_def encode_payload_b64_def sample_libs_def bytes_of_string_def)
  have f: "length (add_frame ''g'' 9 p) = 20" using p(2) by (simp add: frame_defs)
  obtain m m' where m: "gm_reachable (\<lambda>_. 0) m" "gm_entries m = [''g'' \<mapsto> []]"
    "pred_option (ids_left 1) (hm_get (gm_groups m) ''g'')" "gm_add (\<lambda>_. 0) True 0 ''g'' 9 p m = (Ok 1, m')"
    by (rule first_add [of p "\<lambda>_. 0" "''g''" 9]) (use p(2) in \<open>simp add: HEADER_SIZE_def SEGMENT_SIZE_def\<close>)
  let ?a = "with_groups m"
  have s: "st_gm (d_st (sv_db (ap_srv ?a))) = m" "ap_pool ?a = two_conns" by (simp_all add: with_groups_def set_gm_def)
  have "fst (db_log_add (se_env sample_env) ''g'' 9 p (sv_db (ap_srv ?a))) = Ok 1"
    using m(4) s(1) by (simp add: db_log_add_def sample_env_def finish_def)
  then have "fst (api_add_entry sample_api_env (server_peer sample_env) ''g'' ''{}'' ?a) = added_reply 1"
    using http_add_entry [of sample_api_env ?a "''g''" "''{}''" p sample_env] sample_healthy sample_names(1) p(1) f s(2)
    by (simp add: sample_api_env_def fst_results(1) http_of_def MAX_FRAME_SIZE_def)
  then obtain a' where a': "api_add_entry sample_api_env (server_peer sample_env) ''g'' ''{}'' ?a = (added_reply 1, a')"
    by (metis prod.collapse)
  have "\<exists>time. fst (api_read_entry sample_api_env (server_peer sample_env) ''g'' 1 a') =
      Replied OK (BObj [(''id'', BNum (unat (1 :: u64))), (''timestamp'', BText time), (''payload'', BMap ''{}'')])"
    using s sample_healthy p(1) f m
    by (intro http_entry_roundtrip [OF _ _ sample_names(1) _ _ _ _ _ _ _ _ a', where es = "[]" and p = p and m = "''{}''"])
      (simp_all add: sample_api_env_def sample_libs_ok sample_env_def no_collision_def MAX_FRAME_SIZE_def)
  with a' show ?thesis by auto
qed

theorem http_value_roundtrip_witness:
  "\<exists>a'. api_kv_set sample_api_env (server_peer sample_env) ''d'' ''k'' [55, 34] \<lparr>ap_pool = two_conns, ap_srv = sample_server kv_new\<rparr> =
       (status_ok ''ok'', a') \<and>
     fst (api_kv_get sample_api_env (server_peer sample_env) ''d'' ''k'' a') = Replied OK (BObj [(''val'', BJson [55, 34])])"
proof -
  let ?a = "\<lparr>ap_pool = two_conns, ap_srv = sample_server kv_new\<rparr>"
  have h: "healthy sample_api_env (ap_pool ?a)" "libs_ok (av_libs sample_api_env)"
    using sample_healthy sample_libs_ok by (simp_all add: sample_api_env_def)
  have "length (kv_set_frame ''d'' ''k'' [34, 55, 34] 0) \<le> MAX_FRAME_SIZE"
    by (simp add: frame_defs MAX_FRAME_SIZE_def)
  then show ?thesis
    using http_value_roundtrip [OF h(1) h(1) sample_names(2,3) h(2) refl, of "[55, 34]" "[55, 34]" "[34, 55, 34]" "[55, 34]" sample_env sample_env]
    by (auto simp: sample_api_env_def sample_libs_ok) (auto simp: sample_libs_def split: prod.splits)
qed

end
