(* ===== verification/Spec2Isabelle.thy ===== *)
theory Spec2Isabelle
  imports Aof_Tests Recovery Startup Batches Api_Props
begin

text \<open>
  \<^bold>\<open>A verified model of the segmented memory store.\<close>

  The program is an in-memory database server in Rust (\<open>src/server\<close>) with a client library, a
  connection pool and an HTTP interface over them (\<open>src/client\<close>). The server keeps append-only log
  groups, lists and key-value databases, records every change in an append-only file that is
  replayed at start-up, answers a binary protocol over TCP, runs batches of commands, and forwards
  its changes to followers. This development translates that code function by function and proves
  what makes each part correct. Arithmetic is that of the release profile: fixed-width integers wrap
  around; indexing, \<open>unwrap\<close> and impossible capacities panic.

  \<^bold>\<open>How the parts interact.\<close> A client call builds a frame (\<open>client.rs\<close>); the server's codec cuts the
  stream into frames, the parser makes a command of each (\<open>codec.rs\<close>, \<open>proto.rs\<close>), and the handler
  (\<open>server.rs\<close>) calls the database (\<open>db.rs\<close>), which calls one of the three stores (\<open>kv.rs\<close>,
  \<open>seg_list.rs\<close>, and \<open>groups.rs\<close> over \<open>seg_log.rs\<close> and \<open>lru.rs\<close>), records the change (\<open>aof.rs\<close>) and sends
  it to the high-availability manager (\<open>ha.rs\<close>). Batches go through \<open>pipeline.rs\<close> to the same database.
  \<open>main.rs\<close> puts the parts together from the configuration (\<open>conf.rs\<close>). An HTTP request takes a
  connection from the pool (\<open>pool.rs\<close>), makes one client call on it, answers with a status and a JSON
  body and gives the connection back (\<open>api/handlers.rs\<close>, \<open>api/router.rs\<close>).

  \<^bold>\<open>Theories.\<close>

  \<^item> \<open>Prelude\<close>: machine integers, outcomes (\<open>Ok\<close>, \<open>Err\<close>, \<open>Fault\<close> for a panic or an access outside an
    allocation), little-endian integers, raw memory. \<open>Collections\<close>: hash maps and ordered maps behind
    the locale \<open>finite_map\<close>. \<open>Utf8\<close>: well-formedness, lossy decoding, trimming and lines.

  \<^item> \<open>Seg_Log\<close>, \<open>Seg_Log_Props\<close> (\<open>seg_log.rs\<close>): the record \<open>seg_log\<close> with its segments, write cursor,
    index and next id; \<open>append_entry\<close>, \<open>log_read\<close>, \<open>log_read_range\<close>, \<open>log_trim\<close>,
    \<open>get_raw_entry_slice\<close>. Shown: memory safety of every reachable log, refinement of a list of
    entries, reads after appends and trims, all errors. The locale \<open>log_store\<close> is what clients rely on.
    \<open>Seg_Log_Space\<close>: the memory of a log follows what was ever appended, in both directions.
    \<open>Log_Tests\<close>, \<open>Store_Tests\<close> and \<open>Aof_Tests\<close>: the unit tests of \<open>seg_log.rs\<close>, \<open>kv.rs\<close>, \<open>seg_list.rs\<close> and \<open>aof.rs\<close>,
    translated and shown to pass from the laws of these components.

  \<^item> \<open>Seg_List\<close>, \<open>Seg_List_Props\<close> (\<open>seg_list.rs\<close>): an explicit heap of segments, the free list and the
    segments of each key. Shown: every segment has one owner, queue behaviour of push and pop, the
    exact results of the range and count operations.

  \<^item> \<open>Lru\<close> (\<open>lru.rs\<close>): the index-linked cache refines a bounded move-to-front list and meets the locale
    \<open>lossy_cache\<close>. \<open>Kv\<close> (\<open>kv.rs\<close>): expiry, eviction by use, the last value set is the value read; the
    store meets the same locale.

  \<^item> \<open>Log_Groups\<close>, \<open>Log_Groups_Props\<close> (\<open>groups.rs\<close>): the locale \<open>cached_log\<close> puts a cache before a log and
    is interpreted with the two components; reads through the cache answer what the log holds.

  \<^item> \<open>Aof\<close> (\<open>aof.rs\<close>): entries, base64, the file and its loaders. \<open>Db\<close>, \<open>Db_Props\<close> (\<open>db.rs\<close>): every
    operation with what it records, the three concurrent replay tasks as the relation \<open>replay_run\<close> (and
    \<open>replay_fails\<close> for a schedule that meets an entry that fails), the follower's replay. Shown: the file
    reads back, the replay does not depend on the schedule, every schedule rebuilds the logs and lists of
    a history without partial failures, and where recording and state differ. \<open>Recovery\<close> (\<open>aof.rs\<close>): the
    writer's channel and worker beside the running database as the relation \<open>node_step\<close>. Shown: after a
    crash that leaves any prefix of the file every schedule of a restart ends in the logs and lists of an
    earlier state of the history, what a torn line costs, and which values and deadlines the key-value
    store has after a restart.

  \<^item> \<open>Proto\<close> (\<open>codec.rs\<close>, \<open>proto.rs\<close>): the codec, the command type, the cursor and parser, the response
    builder. The locale \<open>wire_field\<close> is a field that a reader takes as a writer put it; sequences of
    fields are proved once for it. An access of the cursor outside the frame is a panic (\<open>byte_at\<close>,
    \<open>slice\<close>). Shown: framing does not depend on how the stream is cut, and the type of the parser
    (\<open>command_ok\<close>), whose length checks exclude every such panic.

  \<^item> \<open>Client\<close> (\<open>client.rs\<close>): request frames and response readers, one operation \<open>sc_...\<close> per method, over
    a peer that is a parameter. Shown: requests are parsed as meant, except those of the list.

  \<^item> \<open>Pipeline\<close>, \<open>Pipeline_Props\<close> (\<open>pipeline.rs\<close>): batches, lock counts, the queue, \<open>execute_job\<close>, and the
    dispatcher and job tasks as the step relation \<open>step\<close> with one rule per atomic action. Shown: mutual
    exclusion, the order of the queue, conservation of jobs, and two ways a job is left waiting.

  \<^item> \<open>Ha\<close> (\<open>ha.rs\<close>, \<open>conf.rs\<close>), \<open>Server\<close> (\<open>server.rs\<close> and the error texts), \<open>Server_Props\<close>: the handler of
    every command; the server as the peer of the client, so that calls are proved end to end; what
    of a replicated batch a follower applies (its key-value entries); when a follower is removed.

  \<^item> \<open>Sessions\<close> (\<open>Server::start\<close>): the accept loop and the tasks of the connections as the relation
    \<open>listener_step\<close>. Shown: any interleaving is equivalent to one task that handles the requests in
    turn. \<open>Safety\<close>: the requests that cannot panic, with the invariant of the three stores they keep.

  \<^item> \<open>Store\<close>: what the server promises its clients, as the relation \<open>store_step\<close> on an abstract store of
    groups, queues and a map, with \<open>models\<close> between the concrete stores and it. Shown: every request of
    the handler simulates it, so that the connections together are linearizable: one history of the
    abstract store explains every response sent. \<open>Batches\<close>: the same with the job tasks of the pipelines
    beside the connections, a batch being one transition of the store.

  \<^item> \<open>Startup\<close> (\<open>main.rs\<close>): \<open>main_start\<close> and \<open>take_role\<close>, and the process as the relation
    \<open>process_step\<close> over \<open>main\<close>, the event task, the heartbeat task and the connections, which share
    the manager's lock and the event channel. Shown: the ways the start of a replica fails, and how
    little of what is recorded is replicated.

  \<^item> \<open>Pool\<close>, \<open>Pool_Props\<close> (\<open>pool.rs\<close>): the record \<open>pool\<close> with its channel and its replacement tasks; the
    operations, and the relation \<open>pool_step\<close> that interleaves callers, holders and replacements; a
    connection with its unread input, which the other end may have closed (\<open>conn_peer\<close>). Shown: accounting of connections, when a waiting
    caller can be served and when never again, and what a call dropped half way does to later calls.

  \<^item> \<open>Api\<close>, \<open>Api_Props\<close> (\<open>api/handlers.rs\<close>, \<open>api/router.rs\<close>, \<open>client/src/main.rs\<close>): one \<open>api_...\<close> per handler
    over pool and client, the route table and the start of the process. Shown: an endpoint does
    exactly what the database operation does (also when the server panics and the pool replaces the
    connection), entries and values come back as the JSON library reads its own text of them, and the
    process does not get past its router.

  \<^bold>\<open>Parameters.\<close> The JSON library (\<open>to_json\<close>, \<open>from_json\<close>, with \<open>json_ok\<close> and \<open>json_whole\<close> for what the code
  relies on), the
  JSON, compression and base64 crates of the HTTP side (\<open>libs\<close>; \<open>libs_ok\<close> is that base64 and compression
  are undone exactly, and nothing is assumed of floats, which the JSON library parses to its documented
  precision), the paths the web framework
  accepts, the answers of sockets, the hash function, clocks, the outcome of allocations, the
  iteration order of hash maps, the network and the texts of I/O errors are arguments of the
  definitions. A handler runs as one step: its locks serialise it with the others. Locks that a property
  depends on (pipelines, pool, the manager's lock) are modelled as such.

  \<^bold>\<open>Bounds.\<close> All functions terminate; no fuel is used. Names on the wire are limited by their \<open>u16\<close>
  length and payloads by their \<open>u32\<close> length, and the statements say so; names of up to 65000 bytes
  leave room for the text of every error. Frames of the server are limited to 16 MiB.

  \<^bold>\<open>Not modelled.\<close> Extraction of handler arguments from HTTP requests and the dispatch to a handler,
  which are the web framework's; what opening a file or binding a socket does (both are steps that succeed
  or fail); the release of memory in \<open>Drop\<close>; an allocation so large that the allocator ends the process; log
  output; the benchmarks and the tests of the groups and the pipelines.
\<close>

end
